(* ===== verification/Go_Prelude.thy ===== *)
theory Go_Prelude
  imports Complex_Main "HOL-Library.Word" "HOL-Library.List_Lexorder"
begin

text \<open>
  Shared vocabulary of the development: Go's fixed-width integers and byte slices, the little-endian
  codecs of \<^verbatim>\<open>encoding/binary\<close>, \<^verbatim>\<open>io.ReadFull\<close> on an in-memory reader, \<^verbatim>\<open>bytes.Compare\<close>, the decimal
  printing and parsing of \<^verbatim>\<open>fmt\<close> and \<^verbatim>\<open>strconv\<close>, and the error values. It also holds the generic lemmas on
  lists and words that the component theories share, collected in \<open>enc_simps\<close> (lengths and round
  trips of encoders) and \<open>order_simps\<close> (the three-way comparisons turned into orders).
\<close>

unbundle bit_operations_syntax

named_theorems enc_simps
named_theorems order_simps

section \<open>Types\<close>

type_synonym u8 = "8 word"
type_synonym u32 = "32 word"
type_synonym u64 = "64 word"
type_synonym bytes = "u8 list"

text \<open>A Go string is an immutable byte sequence; \<open>lit\<close> turns a literal into one.\<close>

type_synonym gostring = bytes

definition lit :: "string \<Rightarrow> gostring" where
  "lit s = map of_char s"

text \<open>Error values. \<open>ErrMsg\<close> is \<^verbatim>\<open>fmt.Errorf\<close> with its text, \<open>Panic\<close> a run-time panic.\<close>

datatype go_error =
    EOF
  | ErrUnexpectedEOF
  | ErrClosedPipe
  | ErrShortWrite
  | ErrNotExist
  | ErrIO
  | ErrMsg gostring
  | Panic

section \<open>Little-endian integers\<close>

fun le_bytes :: "nat \<Rightarrow> nat \<Rightarrow> bytes" where
  "le_bytes 0 v = []"
| "le_bytes (Suc n) v = word_of_nat v # le_bytes n (v div 256)"

fun le_nat :: "bytes \<Rightarrow> nat" where
  "le_nat [] = 0"
| "le_nat (b # bs) = unat b + 256 * le_nat bs"

definition PutUint32 :: "u32 \<Rightarrow> bytes" where
  "PutUint32 w = le_bytes 4 (unat w)"

definition PutUint64 :: "u64 \<Rightarrow> bytes" where
  "PutUint64 w = le_bytes 8 (unat w)"

definition Uint32 :: "bytes \<Rightarrow> u32" where
  "Uint32 bs = word_of_nat (le_nat (take 4 bs))"

definition Uint64 :: "bytes \<Rightarrow> u64" where
  "Uint64 bs = word_of_nat (le_nat (take 8 bs))"

section \<open>Readers\<close>

text \<open>
  A reader is the list of bytes still to be read. \<^verbatim>\<open>io.ReadFull\<close> reports \<open>EOF\<close> when nothing
  was read and \<open>ErrUnexpectedEOF\<close> when the source ends inside the requested range.
\<close>

type_synonym 'a reader = "bytes \<Rightarrow> go_error + ('a \<times> bytes)"

definition ReadFull :: "nat \<Rightarrow> bytes reader" where
  "ReadFull n s =
     (if n = 0 then Inr ([], s)
      else if s = [] then Inl EOF
      else if length s < n then Inl ErrUnexpectedEOF
      else Inr (take n s, drop n s))"

definition read_u32 :: "u32 reader" where
  "read_u32 s = (case ReadFull 4 s of Inl e \<Rightarrow> Inl e | Inr (bs, s') \<Rightarrow> Inr (Uint32 bs, s'))"

definition read_u64 :: "u64 reader" where
  "read_u64 s = (case ReadFull 8 s of Inl e \<Rightarrow> Inl e | Inr (bs, s') \<Rightarrow> Inr (Uint64 bs, s'))"

section \<open>Comparison\<close>

fun bytes_Compare :: "bytes \<Rightarrow> bytes \<Rightarrow> int" where
  "bytes_Compare [] [] = 0"
| "bytes_Compare [] (b # bs) = -1"
| "bytes_Compare (a # as) [] = 1"
| "bytes_Compare (a # as) (b # bs) =
     (if a < b then -1 else if b < a then 1 else bytes_Compare as bs)"

definition cmp_Compare :: "'a::linorder \<Rightarrow> 'a \<Rightarrow> int" where
  "cmp_Compare a b = (if a < b then -1 else if b < a then 1 else 0)"

section \<open>Decimal numbers\<close>

text \<open>\<^verbatim>\<open>%d\<close> of \<^verbatim>\<open>fmt\<close>: decimal digits, most significant first, with a minus sign if negative.\<close>

fun dec_nat :: "nat \<Rightarrow> gostring" where
  "dec_nat n = (if n < 10 then [word_of_nat (48 + n)] else dec_nat (n div 10) @ [word_of_nat (48 + n mod 10)])"

declare dec_nat.simps [simp del]

definition dec_int :: "int \<Rightarrow> gostring" where
  "dec_int i = (if i < 0 then 45 # dec_nat (nat (- i)) else dec_nat (nat i))"

section \<open>Lemmas\<close>

subsection \<open>Lists\<close>

lemma take_append_exact [simp]: "length xs = n \<Longrightarrow> take n (xs @ ys) = xs"
  by simp

lemma drop_append_exact [simp]: "length xs = n \<Longrightarrow> drop n (xs @ ys) = ys"
  by simp

lemma sorted_wrt_less_distinct: "sorted_wrt (<) (xs :: 'a::order list) \<Longrightarrow> distinct xs"
  by (induction xs) auto

lemma sorted_strict_unique:
  fixes xs :: "'a::linorder list"
  assumes "sorted_wrt (<) xs" "sorted_wrt (<) ys" "set xs = set ys"
  shows "xs = ys"
  using assms by (simp add: strict_sorted_equal)

subsection \<open>Little-endian codecs\<close>

lemma unat_u8_bound: "unat (b :: u8) < 256"
  using unsigned_less [of b, where 'a = nat] by simp

lemma unat_u32_bound: "unat (w :: u32) < 4294967296"
  using unsigned_less [of w, where 'a = nat] by simp

lemma unat_u64_bound: "unat (w :: u64) < 18446744073709551616"
  using unsigned_less [of w, where 'a = nat] by simp

lemma length_le_bytes [enc_simps, simp]: "length (le_bytes n v) = n"
  by (induction n arbitrary: v) auto

lemma le_nat_le_bytes: "le_nat (le_bytes n v) = v mod 256 ^ n"
proof (induction n arbitrary: v)
  case 0
  then show ?case by simp
next
  case (Suc n)
  have "v mod (256 * 256 ^ n) = 256 * (v div 256 mod 256 ^ n) + v mod 256"
    by (simp add: mod_mult2_eq)
  with Suc show ?case by (simp add: unat_of_nat)
qed

lemma le_nat_bound: "le_nat bs < 256 ^ length bs"
proof (induction bs)
  case (Cons b bs)
  have "unat b < 256" by (rule unat_u8_bound)
  moreover have "256 * le_nat bs + 256 \<le> 256 * 256 ^ length bs"
    using Cons.IH by (simp flip: mult_Suc_right)
  ultimately show ?case by simp
qed simp

lemma le_bytes_le_nat: "le_bytes (length bs) (le_nat bs) = bs"
proof (induction bs)
  case (Cons b bs)
  have b: "unat b < 256" by (rule unat_u8_bound)
  have "word_of_nat (unat b + 256 * le_nat bs) = b"
    using b by (simp add: word_unat_eq_iff unat_of_nat del: of_nat_add of_nat_mult)
  with b Cons show ?case by simp
qed simp

lemma length_PutUint32 [enc_simps, simp]: "length (PutUint32 w) = 4"
  by (simp add: PutUint32_def)

lemma length_PutUint64 [enc_simps, simp]: "length (PutUint64 w) = 8"
  by (simp add: PutUint64_def)

lemma PutUint32_neq_Nil [simp]: "PutUint32 w \<noteq> []" "[] \<noteq> PutUint32 w"
  by (metis length_PutUint32 list.size(3) zero_neq_numeral)+

lemma PutUint64_neq_Nil [simp]: "PutUint64 w \<noteq> []" "[] \<noteq> PutUint64 w"
  by (metis length_PutUint64 list.size(3) zero_neq_numeral)+

lemma Uint32_PutUint32 [enc_simps, simp]: "Uint32 (PutUint32 w @ r) = w"
proof -
  have "unat w mod 256 ^ 4 = unat w" using unat_u32_bound [of w] by simp
  then show ?thesis by (simp add: Uint32_def PutUint32_def le_nat_le_bytes)
qed

lemma Uint64_PutUint64 [enc_simps, simp]: "Uint64 (PutUint64 w @ r) = w"
proof -
  have "unat w mod 256 ^ 8 = unat w" using unat_u64_bound [of w] by simp
  then show ?thesis by (simp add: Uint64_def PutUint64_def le_nat_le_bytes)
qed

lemmas Uint32_PutUint32_Nil [enc_simps, simp] = Uint32_PutUint32 [of _ "[]", unfolded append_Nil2]
lemmas Uint64_PutUint64_Nil [enc_simps, simp] = Uint64_PutUint64 [of _ "[]", unfolded append_Nil2]

lemma PutUint32_Uint32: "length bs = 4 \<Longrightarrow> PutUint32 (Uint32 bs) = bs"
  using le_nat_bound [of bs] le_bytes_le_nat [of bs]
  by (simp add: PutUint32_def Uint32_def unat_of_nat)

lemma PutUint64_Uint64: "length bs = 8 \<Longrightarrow> PutUint64 (Uint64 bs) = bs"
  using le_nat_bound [of bs] le_bytes_le_nat [of bs]
  by (simp add: PutUint64_def Uint64_def unat_of_nat)

subsection \<open>Readers\<close>

lemma ReadFull_append [enc_simps]: "length bs = n \<Longrightarrow> ReadFull n (bs @ s) = Inr (bs, s)"
  by (auto simp: ReadFull_def)

lemma ReadFull_Inr: "ReadFull n s = Inr (bs, s') \<Longrightarrow> s = bs @ s' \<and> length bs = n"
  by (auto simp: ReadFull_def split: if_splits)

lemma ReadFull_short: "length s < n \<Longrightarrow> \<exists>e. ReadFull n s = Inl e"
  by (auto simp: ReadFull_def)

lemma read_u32_append [enc_simps]: "read_u32 (PutUint32 w @ s) = Inr (w, s)"
  by (simp add: read_u32_def ReadFull_append)

lemma read_u64_append [enc_simps]: "read_u64 (PutUint64 w @ s) = Inr (w, s)"
  by (simp add: read_u64_def ReadFull_append)

lemma read_u32_Inr: "read_u32 s = Inr (w, s') \<Longrightarrow> s = PutUint32 w @ s'"
  by (auto simp: read_u32_def PutUint32_Uint32 dest!: ReadFull_Inr split: sum.splits prod.splits)

lemma read_u64_Inr: "read_u64 s = Inr (w, s') \<Longrightarrow> s = PutUint64 w @ s'"
  by (auto simp: read_u64_def PutUint64_Uint64 dest!: ReadFull_Inr split: sum.splits prod.splits)

lemma read_u32_short: "length s < 4 \<Longrightarrow> \<exists>e. read_u32 s = Inl e"
  using ReadFull_short [of s 4] by (auto simp: read_u32_def)

subsection \<open>Comparison\<close>

lemma bytes_Compare_less [order_simps]: "bytes_Compare a b < 0 \<longleftrightarrow> a < b"
  by (induction a b rule: bytes_Compare.induct) auto

lemma bytes_Compare_eq [order_simps]: "bytes_Compare a b = 0 \<longleftrightarrow> a = b"
  by (induction a b rule: bytes_Compare.induct) auto

lemma bytes_Compare_greater [order_simps]: "0 < bytes_Compare a b \<longleftrightarrow> b < a"
  by (induction a b rule: bytes_Compare.induct) auto

lemma cmp_Compare_less [order_simps]: "cmp_Compare a b < 0 \<longleftrightarrow> a < b"
  by (auto simp: cmp_Compare_def)

lemma cmp_Compare_eq [order_simps]: "cmp_Compare a b = 0 \<longleftrightarrow> a = b"
  by (auto simp: cmp_Compare_def)

lemma cmp_Compare_greater [order_simps]: "0 < cmp_Compare a b \<longleftrightarrow> b < a"
  by (auto simp: cmp_Compare_def)

end
