(* ===== verification/Hcdb_Config.thy ===== *)
theory Hcdb_Config
  imports Go_Prelude
begin

text \<open>The compile-time constants and the configuration struct of \<^verbatim>\<open>config/config.go\<close>.\<close>

definition MAX_KEY_LENGTH :: nat where "MAX_KEY_LENGTH = 1024"
definition MAX_VALUE_LENGTH :: nat where "MAX_VALUE_LENGTH = 1048576"
definition DEFAULT_MEMTABLE_FLUSH_SIZE :: nat where "DEFAULT_MEMTABLE_FLUSH_SIZE = 4 * 1024 * 1024"
definition DEFAULT_BLOCK_SIZE :: nat where "DEFAULT_BLOCK_SIZE = 4096"
definition DEFAULT_SYNC_THRESHOLD :: nat where "DEFAULT_SYNC_THRESHOLD = 10"
definition DEFAULT_COMPACTION_THRESHOLD :: nat where "DEFAULT_COMPACTION_THRESHOLD = 4"
definition DEFAULT_SIMILAR_SIZE_RATIO :: nat where "DEFAULT_SIMILAR_SIZE_RATIO = 2"
definition DEFAULT_BLOOM_FALSE_POSITIVE_RATE :: real where "DEFAULT_BLOOM_FALSE_POSITIVE_RATE = 1 / 100"
definition DEFAULT_BLOOM_EXPECTED_KEYS :: nat where "DEFAULT_BLOOM_EXPECTED_KEYS = 100000"
definition DEFAULT_BLOCK_CACHE_ENTRIES :: nat where "DEFAULT_BLOCK_CACHE_ENTRIES = 256"
definition DEFAULT_CACHE_SHARD_COUNT :: nat where "DEFAULT_CACHE_SHARD_COUNT = 16"

record Config =
  WALPath :: gostring
  SSTDir :: gostring

definition DefaultConfig :: "gostring \<Rightarrow> gostring \<Rightarrow> Config" where
  "DefaultConfig walPath sstDir = \<lparr>WALPath = walPath, SSTDir = sstDir\<rparr>"

end
