(* ===== verification/Internal_Key.thy ===== *)
theory Internal_Key
  imports Go_Prelude
begin

text \<open>
  Model of \<^verbatim>\<open>internal/base/internal.go\<close> and \<^verbatim>\<open>internal/base/lookup.go\<close>: sequence numbers, trailers, internal keys,
  their order and their byte encoding. An internal key is a \<open>datatype\<close> with the two fields of
  the Go struct and is an instance of \<open>linorder\<close> under the order \<^verbatim>\<open>InternalCompare\<close> computes, so
  the sorted-list library applies to memtables, blocks and indexes.
\<close>

section \<open>Definitions\<close>

type_synonym SeqNum = u64
type_synonym InternalKeyKind = u8
type_synonym InternalKeyTrailer = u64

definition SeqNumMax :: SeqNum where
  "SeqNumMax = push_bit 56 1 - 1"

definition InternalKeyKindDelete :: InternalKeyKind where "InternalKeyKindDelete = 0"
definition InternalKeyKindSet :: InternalKeyKind where "InternalKeyKindSet = 1"
definition InternalKeyKindMax :: InternalKeyKind where "InternalKeyKindMax = 1"
definition InternalKeyKindInvalid :: InternalKeyKind where "InternalKeyKindInvalid = 255"

definition MakeTrailer :: "SeqNum \<Rightarrow> InternalKeyKind \<Rightarrow> InternalKeyTrailer" where
  "MakeTrailer seqNum kind = push_bit 8 seqNum OR ucast kind"

definition trailer_SeqNum :: "InternalKeyTrailer \<Rightarrow> SeqNum" where
  "trailer_SeqNum t = drop_bit 8 t"

definition trailer_Kind :: "InternalKeyTrailer \<Rightarrow> InternalKeyKind" where
  "trailer_Kind t = ucast (t AND 0xff)"

datatype InternalKey = InternalKey (UserKey: bytes) (Trailer: InternalKeyTrailer)

definition InternalTrailerLen :: nat where "InternalTrailerLen = 8"

definition MakeInternalKey :: "bytes \<Rightarrow> SeqNum \<Rightarrow> InternalKeyKind \<Rightarrow> InternalKey" where
  "MakeInternalKey userKey seqNum kind = InternalKey userKey (MakeTrailer seqNum kind)"

definition MakeSearchKeyAt :: "bytes \<Rightarrow> SeqNum \<Rightarrow> InternalKey" where
  "MakeSearchKeyAt userKey snapshot = MakeInternalKey userKey snapshot InternalKeyKindMax"

definition MakeSearchKey :: "bytes \<Rightarrow> InternalKey" where
  "MakeSearchKey userKey = MakeSearchKeyAt userKey SeqNumMax"

definition DecodeInternalKey :: "bytes \<Rightarrow> InternalKey" where
  "DecodeInternalKey encodedKey =
     (let n = int (length encodedKey) - int InternalTrailerLen
      in if n \<ge> 0
         then InternalKey (take (nat n) encodedKey) (Uint64 (drop (nat n) encodedKey))
         else InternalKey [] (ucast InternalKeyKindInvalid))"

definition InternalCompare :: "(bytes \<Rightarrow> bytes \<Rightarrow> int) \<Rightarrow> InternalKey \<Rightarrow> InternalKey \<Rightarrow> int" where
  "InternalCompare userCmp a b =
     (let x = userCmp (UserKey a) (UserKey b)
      in if x \<noteq> 0 then x else cmp_Compare (Trailer b) (Trailer a))"

definition key_Size :: "InternalKey \<Rightarrow> nat" where
  "key_Size k = length (UserKey k) + InternalTrailerLen"

text \<open>
  \<^verbatim>\<open>Encode\<close> writes into the caller's buffer: \<^verbatim>\<open>copy\<close> fills a prefix, and \<^verbatim>\<open>PutUint64\<close> panics
  (\<open>None\<close>) when fewer than eight bytes are left after it.
\<close>

definition Encode :: "InternalKey \<Rightarrow> bytes \<Rightarrow> bytes option" where
  "Encode k buf =
     (let i = min (length buf) (length (UserKey k));
          copied = take i (UserKey k) @ drop i buf
      in if length buf - i < 8 then None
         else Some (take i copied @ PutUint64 (Trailer k) @ drop (i + 8) copied))"

text \<open>Every caller allocates \<^verbatim>\<open>make([]byte, k.Size())\<close> and encodes into it.\<close>

definition encode_key :: "InternalKey \<Rightarrow> bytes" where
  "encode_key k = (case Encode k (replicate (key_Size k) 0) of None \<Rightarrow> [] | Some buf \<Rightarrow> buf)"

definition key_SeqNum :: "InternalKey \<Rightarrow> SeqNum" where
  "key_SeqNum k = trailer_SeqNum (Trailer k)"

definition key_Kind :: "InternalKey \<Rightarrow> InternalKeyKind" where
  "key_Kind k = trailer_Kind (Trailer k)"

definition Visible :: "InternalKey \<Rightarrow> SeqNum \<Rightarrow> bool" where
  "Visible k snapshot \<longleftrightarrow> key_SeqNum k \<le> snapshot"

definition key_Valid :: "InternalKey \<Rightarrow> bool" where
  "key_Valid k \<longleftrightarrow> key_Kind k \<le> InternalKeyKindMax"

datatype KEY_LOOKUP_ENUM = KEY_ABSENT | KEY_FOUND | KEY_DELETED

section \<open>The order of internal keys\<close>

text \<open>User key ascending, then trailer descending.\<close>

instantiation InternalKey :: linorder
begin

definition less_eq_InternalKey :: "InternalKey \<Rightarrow> InternalKey \<Rightarrow> bool" where
  "a \<le> b \<longleftrightarrow> UserKey a < UserKey b \<or> UserKey a = UserKey b \<and> Trailer b \<le> Trailer a"

definition less_InternalKey :: "InternalKey \<Rightarrow> InternalKey \<Rightarrow> bool" where
  "a < b \<longleftrightarrow> UserKey a < UserKey b \<or> UserKey a = UserKey b \<and> Trailer b < Trailer a"

instance
proof
  fix x y z :: InternalKey
  show "x < y \<longleftrightarrow> x \<le> y \<and> \<not> y \<le> x"
    by (auto simp: less_eq_InternalKey_def less_InternalKey_def)
  show "x \<le> x"
    by (simp add: less_eq_InternalKey_def)
  show "x \<le> y \<Longrightarrow> y \<le> z \<Longrightarrow> x \<le> z"
    by (auto simp: less_eq_InternalKey_def)
  show "x \<le> y \<Longrightarrow> y \<le> x \<Longrightarrow> x = y"
    by (cases x; cases y) (auto simp: less_eq_InternalKey_def)
  show "x \<le> y \<or> y \<le> x"
    by (auto simp: less_eq_InternalKey_def)
qed

end

section \<open>Lemmas\<close>

lemma InternalCompare_less [order_simps]: "InternalCompare bytes_Compare a b < 0 \<longleftrightarrow> a < b"
  by (auto simp: InternalCompare_def Let_def less_InternalKey_def order_simps)

lemma InternalCompare_le [order_simps]: "InternalCompare bytes_Compare a b \<le> 0 \<longleftrightarrow> a \<le> b"
proof -
  have "InternalCompare bytes_Compare a b \<le> 0 \<longleftrightarrow> \<not> 0 < InternalCompare bytes_Compare a b"
    by linarith
  also have "\<dots> \<longleftrightarrow> \<not> b < a"
    by (auto simp: InternalCompare_def Let_def less_InternalKey_def order_simps)
  finally show ?thesis by (simp add: not_less)
qed

lemma InternalCompare_eq [order_simps]: "InternalCompare bytes_Compare a b = 0 \<longleftrightarrow> a = b"
  by (cases a; cases b) (auto simp: InternalCompare_def Let_def order_simps)

lemma InternalCompare_ge [order_simps]: "0 \<le> InternalCompare bytes_Compare a b \<longleftrightarrow> b \<le> a"
  using InternalCompare_less [of a b] by (metis not_less)

subsection \<open>Trailers\<close>

lemma SeqNumMax_eq: "SeqNumMax = 0xFFFFFFFFFFFFFF"
  by (simp add: SeqNumMax_def)

lemma unat_SeqNumMax: "unat SeqNumMax = 2 ^ 56 - 1"
  by (simp add: SeqNumMax_eq)

lemma low_byte_mask: "(0xff :: u64) = mask 8"
  by (simp add: mask_eq_exp_minus_1)

lemma trailer_Kind_MakeTrailer [simp]: "trailer_Kind (MakeTrailer s k) = k"
  by (rule bit_word_eqI)
    (auto simp: trailer_Kind_def MakeTrailer_def low_byte_mask bit_simps)

lemma trailer_parts: "unat t = 256 * unat (trailer_SeqNum t) + unat (trailer_Kind t)"
proof -
  have "unat (trailer_SeqNum t) = unat t div 256"
    by (simp add: trailer_SeqNum_def unat_drop_bit_eq drop_bit_eq_div unat_div_distrib)
  moreover have "unat (trailer_Kind t) = unat t mod 256"
    by (simp add: trailer_Kind_def low_byte_mask unsigned_ucast_eq flip: take_bit_eq_mask)
      (simp add: take_bit_eq_mod unsigned_take_bit_eq unat_mod_distrib)
  ultimately show ?thesis by simp
qed

lemma trailer_SeqNum_MakeTrailer:
  assumes "s \<le> SeqNumMax"
  shows "trailer_SeqNum (MakeTrailer s k) = s"
proof -
  have "unat s < 2 ^ 56"
    using assms by (simp add: word_le_nat_alt unat_SeqNumMax)
  then have "take_bit 56 s = s"
    by (simp add: word_unat_eq_iff unsigned_take_bit_eq take_bit_eq_mod unat_mod_distrib)
  then have *: "bit s n \<Longrightarrow> n < 56" for n
    by (metis bit_take_bit_iff)
  show ?thesis
    by (rule bit_word_eqI)
      (auto simp: trailer_SeqNum_def MakeTrailer_def bit_simps
        dest: * bit_imp_le_length)
qed

lemma unat_trailer_SeqNum_bound: "trailer_SeqNum t \<le> SeqNumMax"
  using trailer_parts [of t] unat_u64_bound [of t]
  by (simp add: word_le_nat_alt unat_SeqNumMax)

lemma key_SeqNum_MakeInternalKey [simp]:
  "s \<le> SeqNumMax \<Longrightarrow> key_SeqNum (MakeInternalKey u s k) = s"
  by (simp add: key_SeqNum_def MakeInternalKey_def trailer_SeqNum_MakeTrailer)

lemma key_Kind_MakeInternalKey [simp]: "key_Kind (MakeInternalKey u s k) = k"
  by (simp add: key_Kind_def MakeInternalKey_def)

lemma UserKey_MakeInternalKey [simp]: "UserKey (MakeInternalKey u s k) = u"
  by (simp add: MakeInternalKey_def)

lemma MakeTrailer_parts: "MakeTrailer (trailer_SeqNum t) (trailer_Kind t) = t"
  by (simp add: word_unat_eq_iff trailer_parts [of t] trailer_parts [of "MakeTrailer _ _"]
      trailer_SeqNum_MakeTrailer unat_trailer_SeqNum_bound)

lemma trailer_le_iff:
  "t \<le> t' \<longleftrightarrow> trailer_SeqNum t < trailer_SeqNum t' \<or>
     trailer_SeqNum t = trailer_SeqNum t' \<and> trailer_Kind t \<le> trailer_Kind t'"
  unfolding word_le_nat_alt word_less_nat_alt word_unat_eq_iff
  using trailer_parts [of t] trailer_parts [of t']
    unat_u8_bound [of "trailer_Kind t"] unat_u8_bound [of "trailer_Kind t'"]
  by linarith

subsection \<open>Encoding\<close>

lemma encode_key_eq [enc_simps]: "encode_key k = UserKey k @ PutUint64 (Trailer k)"
  by (simp add: encode_key_def Encode_def key_Size_def InternalTrailerLen_def Let_def)

lemma length_encode_key [enc_simps, simp]: "length (encode_key k) = length (UserKey k) + 8"
  by (simp add: encode_key_eq)

lemma Decode_encode_key [enc_simps, simp]: "DecodeInternalKey (encode_key k) = k"
  by (cases k) (simp add: DecodeInternalKey_def encode_key_eq InternalTrailerLen_def Let_def)

lemma encode_Decode_key:
  assumes "8 \<le> length bs"
  shows "encode_key (DecodeInternalKey bs) = bs"
  using assms
  by (simp add: DecodeInternalKey_def encode_key_eq InternalTrailerLen_def Let_def PutUint64_Uint64)

lemma DecodeInternalKey_inj:
  "8 \<le> length a \<Longrightarrow> 8 \<le> length b \<Longrightarrow> DecodeInternalKey a = DecodeInternalKey b \<longleftrightarrow> a = b"
  by (metis encode_Decode_key)

subsection \<open>Search keys\<close>

lemma search_key_le_iff:
  assumes "key_Valid k" and "snapshot \<le> SeqNumMax"
  shows "MakeSearchKeyAt u snapshot \<le> k \<longleftrightarrow>
     u < UserKey k \<or> u = UserKey k \<and> Visible k snapshot"
proof -
  have "trailer_Kind (Trailer k) \<le> 1"
    using assms by (simp add: key_Valid_def key_Kind_def InternalKeyKindMax_def)
  then have "Trailer k \<le> MakeTrailer snapshot 1 \<longleftrightarrow> trailer_SeqNum (Trailer k) \<le> snapshot"
    using assms(2)
    by (auto simp: trailer_le_iff [of "Trailer k"] trailer_SeqNum_MakeTrailer)
  then show ?thesis
    by (simp add: MakeSearchKeyAt_def MakeInternalKey_def less_eq_InternalKey_def
        Visible_def key_SeqNum_def InternalKeyKindMax_def)
qed

section \<open>Properties\<close>

text \<open>C30: Keys survive encoding. The key bytes stored for a user key, a sequence number of at most 56
  bits and a kind decode to exactly these three parts, and any stored key of at least eight bytes is
  the encoding of what it decodes to, so decoding loses nothing.\<close>

theorem internal_key_roundtrip:
  assumes "s \<le> SeqNumMax" "InternalTrailerLen \<le> length bs"
  shows "UserKey (DecodeInternalKey (encode_key (MakeInternalKey u s kind))) = u \<and>
    key_SeqNum (DecodeInternalKey (encode_key (MakeInternalKey u s kind))) = s \<and>
    key_Kind (DecodeInternalKey (encode_key (MakeInternalKey u s kind))) = kind \<and>
    encode_key (DecodeInternalKey bs) = bs"
  using assms by (simp add: InternalTrailerLen_def encode_Decode_key)

theorem internal_key_roundtrip_witness:
  "key_SeqNum (DecodeInternalKey (encode_key (MakeInternalKey [107] 5 InternalKeyKindSet))) = 5 \<and>
   encode_key (DecodeInternalKey [1, 2, 3, 4, 5, 6, 7, 8, 9]) = [1, 2, 3, 4, 5, 6, 7, 8, 9]"
  using internal_key_roundtrip [of 5 "[1, 2, 3, 4, 5, 6, 7, 8, 9]" "[107]" InternalKeyKindSet]
  by (simp add: SeqNumMax_eq InternalTrailerLen_def)

text \<open>C29: Seeking finds the newest visible version. In the order of \<^verbatim>\<open>InternalCompare\<close>, the search key of a
  user key at a snapshot is at or before exactly those stored keys that belong to a greater user key
  or are versions of this one that the snapshot sees; versions newer than the snapshot come before
  it.\<close>

theorem search_key_position:
  assumes "key_Valid k" "snapshot \<le> SeqNumMax"
  shows "InternalCompare bytes_Compare (MakeSearchKeyAt u snapshot) k \<le> 0 \<longleftrightarrow>
    bytes_Compare u (UserKey k) < 0 \<or> UserKey k = u \<and> Visible k snapshot"
  using search_key_le_iff [OF assms, of u] by (auto simp: order_simps)

theorem search_key_position_witness:
  "InternalCompare bytes_Compare (MakeSearchKeyAt [7] 4) (MakeInternalKey [7] 3 InternalKeyKindSet) \<le> 0 \<and>
   \<not> InternalCompare bytes_Compare (MakeSearchKeyAt [7] 4) (MakeInternalKey [7] 5 InternalKeyKindSet) \<le> 0"
  using search_key_position [of "MakeInternalKey [7] 3 InternalKeyKindSet" 4 "[7]"]
    search_key_position [of "MakeInternalKey [7] 5 InternalKeyKindSet" 4 "[7]"]
  by (simp add: SeqNumMax_eq key_Valid_def Visible_def InternalKeyKindSet_def InternalKeyKindMax_def order_simps)

end
