(* ===== verification/Go_Hash.thy ===== *)
theory Go_Hash
  imports Go_Prelude
begin

text \<open>
  The checksums and hashes of Go's standard library that the program calls: \<^verbatim>\<open>crc32.ChecksumIEEE\<close>
  (guards WAL records and SSTable blocks) and 32- and 64-bit FNV-1a (Bloom filter positions, cache
  shards). The CRC step is shown injective, which gives detection of every single-byte corruption.
\<close>

section \<open>Definitions\<close>

definition crc_poly :: u32 where "crc_poly = 0xEDB88320"

text \<open>One bit of the reflected CRC-32 division.\<close>

definition crc_bit :: "u32 \<Rightarrow> u32" where
  "crc_bit c = (if c AND 1 = 1 then drop_bit 1 c XOR crc_poly else drop_bit 1 c)"

definition crc_byte :: "u32 \<Rightarrow> u8 \<Rightarrow> u32" where
  "crc_byte c b = (crc_bit ^^ 8) (c XOR ucast b)"

definition ChecksumIEEE :: "bytes \<Rightarrow> u32" where
  "ChecksumIEEE bs = NOT (foldl crc_byte (NOT 0) bs)"

definition fnv32a :: "bytes \<Rightarrow> u32" where
  "fnv32a bs = foldl (\<lambda>h b. (h XOR ucast b) * 16777619) 2166136261 bs"

definition fnv64a :: "bytes \<Rightarrow> u64" where
  "fnv64a bs = foldl (\<lambda>h b. (h XOR ucast b) * 1099511628211) 14695981039346656037 bs"

section \<open>Single-byte error detection\<close>

lemma and_1_bit: "(c AND 1 = 1) \<longleftrightarrow> bit (c :: u32) 0"
  by (simp add: and_one_eq mod_2_eq_odd bit_0)

lemma crc_bit_at:
  "bit (crc_bit c) n \<longleftrightarrow> (bit c (Suc n) \<noteq> (bit c 0 \<and> bit crc_poly n)) \<and> n < 32"
  by (auto simp: crc_bit_def and_1_bit bit_simps dest: bit_imp_le_length)

lemma crc_poly_top: "bit crc_poly 31"
  by (simp add: crc_poly_def)

lemma crc_bit_inj: "crc_bit c = crc_bit d \<Longrightarrow> c = d"
proof (rule bit_word_eqI)
  fix n
  assume eq: "crc_bit c = crc_bit d"
  have top: "bit c 0 = bit d 0"
    using arg_cong [OF eq, of "\<lambda>w. bit w 31"] crc_poly_top
    by (auto simp: crc_bit_at dest: bit_imp_le_length)
  assume "n < LENGTH(32)"
  show "bit c n = bit d n"
  proof (cases n)
    case 0
    with top show ?thesis by simp
  next
    case (Suc m)
    with \<open>n < LENGTH(32)\<close> top show ?thesis
      using arg_cong [OF eq, of "\<lambda>w. bit w m"] by (auto simp: crc_bit_at)
  qed
qed

lemma crc_bits_inj: "(crc_bit ^^ k) c = (crc_bit ^^ k) d \<Longrightarrow> c = d"
proof (induction k arbitrary: c d)
  case (Suc k)
  then have "crc_bit ((crc_bit ^^ k) c) = crc_bit ((crc_bit ^^ k) d)"
    by simp
  then show ?case
    using Suc.IH crc_bit_inj by blast
qed simp

lemma xor_cancel_right: "(c XOR x = d XOR x) \<longleftrightarrow> c = (d :: 'a::len word)"
proof
  assume "c XOR x = d XOR x"
  then have "(c XOR x) XOR x = (d XOR x) XOR x"
    by simp
  then show "c = d"
    by (simp only: xor.assoc xor_self_eq xor.right_neutral)
qed simp

lemma crc_byte_inj: "crc_byte c b = crc_byte d b \<Longrightarrow> c = d"
  unfolding crc_byte_def by (drule crc_bits_inj) (simp only: xor_cancel_right)

lemma crc_byte_inj_byte: "crc_byte c a = crc_byte c b \<Longrightarrow> a = b"
proof -
  assume "crc_byte c a = crc_byte c b"
  then have "c XOR ucast a = c XOR ucast b"
    unfolding crc_byte_def by (rule crc_bits_inj)
  then have eq: "ucast a = (ucast b :: u32)"
    by (simp only: xor.commute [of c] xor_cancel_right)
  show "a = b"
  proof (rule bit_word_eqI)
    fix n
    assume "n < LENGTH(8)"
    then show "bit a n = bit b n"
      using arg_cong [OF eq, of "\<lambda>w. bit w n"] by (simp add: bit_simps)
  qed
qed

lemma crc_foldl_inj: "foldl crc_byte c bs = foldl crc_byte d bs \<Longrightarrow> c = d"
proof (induction bs arbitrary: c d)
  case (Cons b bs)
  then have "crc_byte c b = crc_byte d b"
    by simp
  then show ?case by (rule crc_byte_inj)
qed simp

lemma Checksum_detects_byte:
  assumes "a \<noteq> b"
  shows "ChecksumIEEE (xs @ a # ys) \<noteq> ChecksumIEEE (xs @ b # ys)"
proof
  assume "ChecksumIEEE (xs @ a # ys) = ChecksumIEEE (xs @ b # ys)"
  then have "foldl crc_byte (foldl crc_byte (NOT 0) xs) (a # ys) =
      foldl crc_byte (foldl crc_byte (NOT 0) xs) (b # ys)"
    by (simp add: ChecksumIEEE_def)
  then have "crc_byte (foldl crc_byte (NOT 0) xs) a = crc_byte (foldl crc_byte (NOT 0) xs) b"
    using crc_foldl_inj by (metis foldl_Cons)
  then show False
    using assms crc_byte_inj_byte by blast
qed

lemma Checksum_update:
  assumes "j < length d" "b \<noteq> d ! j"
  shows "ChecksumIEEE (d[j := b]) \<noteq> ChecksumIEEE d"
  using Checksum_detects_byte [OF assms(2), of "take j d" "drop (Suc j) d"] assms(1)
  by (simp add: upd_conv_take_nth_drop id_take_nth_drop [OF assms(1), symmetric])

lemma Uint32_update:
  assumes "length c = 4" "j < 4" "b \<noteq> c ! j"
  shows "Uint32 (c[j := b]) \<noteq> Uint32 c"
proof
  assume "Uint32 (c[j := b]) = Uint32 c"
  then have "c[j := b] = c"
    using assms(1) PutUint32_Uint32 [of c] PutUint32_Uint32 [of "c[j := b]"] by simp
  with assms show False by (metis nth_list_update_eq)
qed

text \<open>Data followed by its checksum: a change of any one byte, in either part, is noticed.\<close>

lemma sealed_corrupt:
  assumes "j < length d + 4" "b \<noteq> (d @ PutUint32 (ChecksumIEEE d)) ! j"
  shows "ChecksumIEEE (take (length d) ((d @ PutUint32 (ChecksumIEEE d))[j := b])) \<noteq>
    Uint32 (drop (length d) ((d @ PutUint32 (ChecksumIEEE d))[j := b]))"
proof (cases "j < length d")
  case True
  then show ?thesis
    using Checksum_update [OF True] assms(2) by (simp add: list_update_append nth_append)
next
  case False
  then have "j - length d < 4"
    using assms(1) by linarith
  with False show ?thesis
    using Uint32_update [of "PutUint32 (ChecksumIEEE d)" "j - length d" b] assms(2)
    by (auto simp: list_update_append nth_append)
qed

end
