(* ===== verification/Go_IO.thy ===== *)
theory Go_IO
  imports Go_Prelude "HOL-Library.AList"
begin

text \<open>
  The operating system as the program uses it. A \<open>world\<close> holds the files (contents and how much
  of them has reached stable storage), the clock readings \<^verbatim>\<open>time.Now().UnixNano()\<close> returns, and a
  schedule of storage faults: every system call that changes storage takes the next entry, \<open>None\<close>
  meaning that it succeeds and \<open>Some k\<close> that it fails, a write after having stored at most \<open>k\<close>
  bytes (the torn writes \<^verbatim>\<open>faultinjection/faulty_writer.go\<close> simulates). An exhausted schedule means that
  nothing fails any more. A process that dies at some system call is a schedule in which that call
  and all later ones fail. \<^verbatim>\<open>bufio.Writer\<close> is modelled with its 4096-byte buffer and its sticky error.
\<close>

section \<open>Definitions\<close>

record File =
  fdata :: bytes
  durable :: nat

record world =
  files :: "(gostring \<times> File) list"
  clock :: "nat \<Rightarrow> nat"
  ticks :: nat
  faults :: "nat option list"

text \<open>A world with given files, a clock that counts up, and no faults to come.\<close>

definition world_of :: "(gostring \<times> File) list \<Rightarrow> world" where
  "world_of fs = \<lparr>files = fs, clock = (\<lambda>i. i), ticks = 0, faults = []\<rparr>"

definition fs_get :: "world \<Rightarrow> gostring \<Rightarrow> File option" where
  "fs_get w p = map_of (files w) p"

definition fs_put :: "gostring \<Rightarrow> File \<Rightarrow> world \<Rightarrow> world" where
  "fs_put p f w = w\<lparr>files := AList.update p f (files w)\<rparr>"

definition fs_del :: "gostring \<Rightarrow> world \<Rightarrow> world" where
  "fs_del p w = w\<lparr>files := AList.delete p (files w)\<rparr>"

definition sys_fault :: "world \<Rightarrow> nat option \<times> world" where
  "sys_fault w = (case faults w of [] \<Rightarrow> (None, w) | f # fs \<Rightarrow> (f, w\<lparr>faults := fs\<rparr>))"

type_synonym 'a io = "world \<Rightarrow> (go_error + 'a) \<times> world"

definition bind_io :: "'a io \<Rightarrow> ('a \<Rightarrow> 'b io) \<Rightarrow> 'b io" where
  "bind_io m f w = (case m w of (Inl e, w') \<Rightarrow> (Inl e, w') | (Inr x, w') \<Rightarrow> f x w')"

definition return_io :: "'a \<Rightarrow> 'a io" where
  "return_io x w = (Inr x, w)"

definition time_Now :: "world \<Rightarrow> nat \<times> world" where
  "time_Now w = (clock w (ticks w), w\<lparr>ticks := Suc (ticks w)\<rparr>)"

subsection \<open>System calls\<close>

text \<open>\<^verbatim>\<open>os.OpenFile\<close> with \<^verbatim>\<open>O_CREATE\<close>: an existing file is kept as it is (no \<^verbatim>\<open>O_TRUNC\<close>).\<close>

definition os_Create :: "gostring \<Rightarrow> unit io" where
  "os_Create p w =
     (case sys_fault w of
        (Some _, w') \<Rightarrow> (Inl ErrIO, w')
      | (None, w') \<Rightarrow>
          (Inr (), case fs_get w' p of None \<Rightarrow> fs_put p \<lparr>fdata = [], durable = 0\<rparr> w' | Some _ \<Rightarrow> w'))"

text \<open>Reading a whole file; opening a missing file fails.\<close>

definition os_ReadFile :: "gostring \<Rightarrow> bytes io" where
  "os_ReadFile p w = (case fs_get w p of None \<Rightarrow> (Inl ErrNotExist, w) | Some f \<Rightarrow> (Inr (fdata f), w))"

definition overwrite :: "bytes \<Rightarrow> nat \<Rightarrow> bytes \<Rightarrow> bytes" where
  "overwrite d off p = take off d @ p @ drop (off + length p) d"

text \<open>
  \<^verbatim>\<open>File.Write\<close>: the position is the end of the file (\<^verbatim>\<open>O_APPEND\<close>, \<open>None\<close>) or the handle's offset.
  Returns how many bytes were stored and the error.
\<close>

definition file_Write :: "gostring \<Rightarrow> nat option \<Rightarrow> bytes \<Rightarrow> world \<Rightarrow> (nat \<times> go_error option) \<times> world" where
  "file_Write p pos bs w =
     (case sys_fault w of (fault, w') \<Rightarrow>
        (case fs_get w' p of
           None \<Rightarrow> ((0, Some ErrNotExist), w')
         | Some f \<Rightarrow>
             (let n = (case fault of None \<Rightarrow> length bs | Some k \<Rightarrow> min k (length bs));
                  off = (case pos of None \<Rightarrow> length (fdata f) | Some off \<Rightarrow> off)
              in ((n, map_option (\<lambda>_. ErrIO) fault),
                  fs_put p \<lparr>fdata = overwrite (fdata f) off (take n bs), durable = min (durable f) off\<rparr> w'))))"

definition file_Sync :: "gostring \<Rightarrow> unit io" where
  "file_Sync p w =
     (case sys_fault w of
        (Some _, w') \<Rightarrow> (Inl ErrIO, w')
      | (None, w') \<Rightarrow>
          (case fs_get w' p of
             None \<Rightarrow> (Inl ErrNotExist, w')
           | Some f \<Rightarrow> (Inr (), fs_put p (f\<lparr>durable := length (fdata f)\<rparr>) w')))"

definition file_Truncate :: "gostring \<Rightarrow> nat \<Rightarrow> unit io" where
  "file_Truncate p n w =
     (case sys_fault w of
        (Some _, w') \<Rightarrow> (Inl ErrIO, w')
      | (None, w') \<Rightarrow>
          (case fs_get w' p of
             None \<Rightarrow> (Inl ErrNotExist, w')
           | Some f \<Rightarrow>
               (Inr (), fs_put p \<lparr>fdata = take n (fdata f) @ replicate (n - length (fdata f)) 0,
                                  durable = min n (durable f)\<rparr> w')))"

definition os_Rename :: "gostring \<Rightarrow> gostring \<Rightarrow> unit io" where
  "os_Rename a b w =
     (case sys_fault w of
        (Some _, w') \<Rightarrow> (Inl ErrIO, w')
      | (None, w') \<Rightarrow>
          (case fs_get w' a of
             None \<Rightarrow> (Inl ErrNotExist, w')
           | Some f \<Rightarrow> (Inr (), fs_put b f (fs_del a w'))))"

definition os_Remove :: "gostring \<Rightarrow> unit io" where
  "os_Remove p w =
     (case sys_fault w of
        (Some _, w') \<Rightarrow> (Inl ErrIO, w')
      | (None, w') \<Rightarrow>
          (case fs_get w' p of None \<Rightarrow> (Inl ErrNotExist, w') | Some _ \<Rightarrow> (Inr (), fs_del p w')))"

text \<open>Opening the directory and \<^verbatim>\<open>dir.Sync()\<close>: two calls that may fail.\<close>

definition dir_Sync :: "unit io" where
  "dir_Sync w =
     (case sys_fault w of
        (Some _, w') \<Rightarrow> (Inl ErrIO, w')
      | (None, w') \<Rightarrow> (case sys_fault w' of (Some _, w'') \<Rightarrow> (Inl ErrIO, w'') | (None, w'') \<Rightarrow> (Inr (), w'')))"

subsection \<open>bufio.Writer\<close>

record BufWriter =
  bw_path :: gostring
  bw_off :: "nat option"
  bw_buf :: bytes
  bw_err :: "go_error option"

definition bw_size :: nat where "bw_size = 4096"

definition bw_new :: "gostring \<Rightarrow> nat option \<Rightarrow> BufWriter" where
  "bw_new p off = \<lparr>bw_path = p, bw_off = off, bw_buf = [], bw_err = None\<rparr>"

definition bw_Available :: "BufWriter \<Rightarrow> nat" where
  "bw_Available b = bw_size - length (bw_buf b)"

definition bw_raw :: "BufWriter \<Rightarrow> bytes \<Rightarrow> world \<Rightarrow> (nat \<times> BufWriter) \<times> world" where
  "bw_raw b p w =
     (case file_Write (bw_path b) (bw_off b) p w of
        ((n, err), w') \<Rightarrow> ((n, b\<lparr>bw_off := map_option (\<lambda>off. off + n) (bw_off b), bw_err := err\<rparr>), w'))"

text \<open>\<^verbatim>\<open>Flush\<close>; a short write keeps the rest in the buffer and makes the error stick.\<close>

definition bw_Flush :: "BufWriter \<Rightarrow> world \<Rightarrow> (go_error option \<times> BufWriter) \<times> world" where
  "bw_Flush b w =
     (if bw_err b \<noteq> None then ((bw_err b, b), w)
      else if bw_buf b = [] then ((None, b), w)
      else case bw_raw b (bw_buf b) w of
             ((n, b'), w') \<Rightarrow> ((bw_err b', b'\<lparr>bw_buf := drop n (bw_buf b)\<rparr>), w'))"

text \<open>
  \<^verbatim>\<open>Write\<close>: while the data does not fit, either the buffer is empty and the data goes straight to
  the file, or the buffer is filled up and flushed. After one flush the buffer is empty, so the
  loop runs at most twice.
\<close>

definition bw_Write_fit :: "BufWriter \<Rightarrow> bytes \<Rightarrow> world \<Rightarrow> (go_error option \<times> BufWriter) \<times> world" where
  "bw_Write_fit b p w =
     (if length p > bw_Available b
      then (case bw_raw b p w of ((n, b'), w') \<Rightarrow> ((bw_err b', b'), w'))
      else ((None, b\<lparr>bw_buf := bw_buf b @ p\<rparr>), w))"

definition bw_Write :: "BufWriter \<Rightarrow> bytes \<Rightarrow> world \<Rightarrow> (go_error option \<times> BufWriter) \<times> world" where
  "bw_Write b p w =
     (if bw_err b \<noteq> None then ((bw_err b, b), w)
      else if bw_buf b = [] \<or> length p \<le> bw_Available b then bw_Write_fit b p w
      else (let k = bw_Available b in
            case bw_Flush (b\<lparr>bw_buf := bw_buf b @ take k p\<rparr>) w of
              ((Some e, b'), w') \<Rightarrow> ((Some e, b'), w')
            | ((None, b'), w') \<Rightarrow> bw_Write_fit b' (drop k p) w'))"

section \<open>Lemmas\<close>

lemma fs_get_put [simp]: "fs_get (fs_put p f w) q = (if q = p then Some f else fs_get w q)"
  by (simp add: fs_get_def fs_put_def update_conv')

lemma fs_get_del [simp]: "fs_get (fs_del p w) q = (if q = p then None else fs_get w q)"
  by (simp add: fs_get_def fs_del_def delete_conv')

lemma fs_put_fields [simp]:
  "clock (fs_put p f w) = clock w" "ticks (fs_put p f w) = ticks w" "faults (fs_put p f w) = faults w"
  by (simp_all add: fs_put_def)

lemma fs_del_fields [simp]:
  "clock (fs_del p w) = clock w" "ticks (fs_del p w) = ticks w" "faults (fs_del p w) = faults w"
  by (simp_all add: fs_del_def)

lemma sys_fault_none [simp]: "faults w = [] \<Longrightarrow> sys_fault w = (None, w)"
  by (simp add: sys_fault_def)

lemma sys_fault_fs: "sys_fault w = (f, w') \<Longrightarrow> fs_get w' p = fs_get w p"
  by (auto simp: sys_fault_def fs_get_def split: list.splits)

lemma overwrite_end [simp]: "overwrite d (length d) p = d @ p"
  by (simp add: overwrite_def)

end
