(* ===== verification/Wal.thy ===== *)
theory Wal
  imports Hcdb_Config Internal_Key Go_Hash Go_IO
begin

text \<open>
  Model of the package \<^verbatim>\<open>wal\<close>: the record format, appending through the buffered writer, the sync
  policy and replay with truncation of a damaged tail. The file named by the writer's path in the
  \<open>world\<close> is the log file. \<open>replay_loop\<close> is the loop of \<^verbatim>\<open>Replay\<close> over the bytes of the file
  that are left; it returns the entries and the offset at which the file is truncated, if it is.
\<close>

section \<open>Definitions\<close>

datatype Entry = Entry (Key: bytes) (Value: bytes)

record WAL =
  BufWriter :: BufWriter
  putCounter :: nat

definition maxEncodedKeyLen :: nat where
  "maxEncodedKeyLen = MAX_KEY_LENGTH + InternalTrailerLen"

subsection \<open>Open, append, sync\<close>

definition wal_Open :: "gostring \<Rightarrow> WAL io" where
  "wal_Open filePath =
     bind_io (os_Create filePath)
       (\<lambda>_. return_io \<lparr>BufWriter = bw_new filePath None, putCounter = 0\<rparr>)"

definition writeDataBuff :: "Entry \<Rightarrow> bytes" where
  "writeDataBuff entry =
     PutUint32 (word_of_nat (length (Key entry))) @ PutUint32 (word_of_nat (length (Value entry))) @
     Key entry @ Value entry"

definition wal_buf_write :: "bytes \<Rightarrow> WAL \<Rightarrow> world \<Rightarrow> (go_error option \<times> WAL) \<times> world" where
  "wal_buf_write p l w =
     (case bw_Write (BufWriter l) p w of ((e, b), w') \<Rightarrow> ((e, l\<lparr>BufWriter := b\<rparr>), w'))"

definition Append :: "Entry \<Rightarrow> WAL \<Rightarrow> world \<Rightarrow> (go_error option \<times> WAL) \<times> world" where
  "Append entry l w =
     (let dataBytes = writeDataBuff entry;
          checksum = ChecksumIEEE dataBytes;
          totalLength = word_of_nat (length dataBytes) + (4 :: u32)
      in case wal_buf_write (PutUint32 totalLength) l w of
           ((Some e, l'), w') \<Rightarrow> ((Some e, l'), w')
         | ((None, l'), w') \<Rightarrow>
             (case wal_buf_write dataBytes l' w' of
                ((Some e, l''), w'') \<Rightarrow> ((Some e, l''), w'')
              | ((None, l''), w'') \<Rightarrow> wal_buf_write (PutUint32 checksum) l'' w''))"

definition wal_Sync :: "WAL \<Rightarrow> world \<Rightarrow> (go_error option \<times> WAL) \<times> world" where
  "wal_Sync l w =
     (case bw_Flush (BufWriter l) w of
        ((Some e, b), w') \<Rightarrow> ((Some e, l\<lparr>BufWriter := b\<rparr>), w')
      | ((None, b), w') \<Rightarrow>
          (case file_Sync (bw_path b) w' of
             (Inl e, w'') \<Rightarrow> ((Some e, l\<lparr>BufWriter := b\<rparr>), w'')
           | (Inr _, w'') \<Rightarrow> ((None, l\<lparr>BufWriter := b\<rparr>), w'')))"

definition wal_write :: "bytes \<Rightarrow> bytes \<Rightarrow> WAL \<Rightarrow> world \<Rightarrow> (go_error option \<times> WAL) \<times> world" where
  "wal_write keyByte valueByte l w =
     (case Append (Entry keyByte valueByte) l w of
        ((Some e, l'), w') \<Rightarrow> ((Some e, l'), w')
      | ((None, l'), w') \<Rightarrow>
          (let l'' = l'\<lparr>putCounter := putCounter l' + 1\<rparr>
           in if putCounter l'' \<ge> DEFAULT_SYNC_THRESHOLD
              then (case wal_Sync l'' w' of
                      ((Some e, l3), w3) \<Rightarrow> ((Some e, l3), w3)
                    | ((None, l3), w3) \<Rightarrow> ((None, l3\<lparr>putCounter := 0\<rparr>), w3))
              else ((None, l''), w')))"

definition wal_Put :: "bytes \<Rightarrow> bytes \<Rightarrow> WAL \<Rightarrow> world \<Rightarrow> (go_error option \<times> WAL) \<times> world" where
  "wal_Put keyByte valueByte l w = wal_write keyByte valueByte l w"

definition wal_Delete :: "bytes \<Rightarrow> WAL \<Rightarrow> world \<Rightarrow> (go_error option \<times> WAL) \<times> world" where
  "wal_Delete keyByte l w = wal_write keyByte [] l w"

subsection \<open>Replay\<close>

text \<open>
  One turn of the loop: the clean end of the file, a record that fails one of the checks, or an
  entry with the bytes after it.
\<close>

datatype replay_result = ReplayEOF | ReplayBad | ReplayOk Entry bytes

definition parse_data :: "bytes \<Rightarrow> Entry option" where
  "parse_data dataPart =
     (case read_u32 dataPart of
        Inl _ \<Rightarrow> None
      | Inr (keyLength, r1) \<Rightarrow>
          (case read_u32 r1 of
             Inl _ \<Rightarrow> None
           | Inr (valueLength, r2) \<Rightarrow>
               if unat keyLength > maxEncodedKeyLen \<or> unat valueLength > MAX_VALUE_LENGTH then None
               else (case ReadFull (unat keyLength) r2 of
                       Inl _ \<Rightarrow> None
                     | Inr (key, r3) \<Rightarrow>
                         (case ReadFull (unat valueLength) r3 of
                            Inl _ \<Rightarrow> None
                          | Inr (value, r4) \<Rightarrow> Some (Entry key value)))))"

definition replay_record :: "bytes \<Rightarrow> replay_result" where
  "replay_record s =
     (case read_u32 s of
        Inl EOF \<Rightarrow> ReplayEOF
      | Inl _ \<Rightarrow> ReplayBad
      | Inr (totalLength, s1) \<Rightarrow>
          if unat totalLength > 4 + maxEncodedKeyLen + 4 + MAX_VALUE_LENGTH + 4 then ReplayBad
          else (case ReadFull (unat totalLength) s1 of
                  Inl _ \<Rightarrow> ReplayBad
                | Inr (recordBuf, s2) \<Rightarrow>
                    if length recordBuf < 4 then ReplayBad
                    else
                      (let dataPart = take (length recordBuf - 4) recordBuf;
                           storedCRC = Uint32 (drop (length recordBuf - 4) recordBuf)
                       in if ChecksumIEEE dataPart \<noteq> storedCRC then ReplayBad
                          else (case parse_data dataPart of
                                  None \<Rightarrow> ReplayBad
                                | Some e \<Rightarrow> ReplayOk e s2))))"

lemma replay_record_shrinks: "replay_record s = ReplayOk e s' \<Longrightarrow> length s' < length s"
  by (auto simp: replay_record_def Let_def
      split: sum.splits prod.splits if_splits option.splits go_error.splits
      dest!: read_u32_Inr ReadFull_Inr)

function replay_loop :: "bytes \<Rightarrow> nat \<Rightarrow> Entry list \<Rightarrow> Entry list \<times> nat option" where
  "replay_loop s pos entries =
     (case replay_record s of
        ReplayEOF \<Rightarrow> (entries, None)
      | ReplayBad \<Rightarrow> (entries, Some pos)
      | ReplayOk e s' \<Rightarrow> replay_loop s' (pos + (length s - length s')) (entries @ [e]))"
  by pat_completeness auto
termination
  by (relation "measure (\<lambda>(s, pos, entries). length s)") (auto simp: replay_record_shrinks)

declare replay_loop.simps [simp del]

text \<open>\<^verbatim>\<open>Replay\<close> flushes the writer, reads the file from the start, and ignores a failing \<^verbatim>\<open>Truncate\<close>.\<close>

definition Replay :: "WAL \<Rightarrow> world \<Rightarrow> (go_error + Entry list) \<times> WAL \<times> world" where
  "Replay l w =
     (case bw_Flush (BufWriter l) w of
        ((Some e, b), w') \<Rightarrow> (Inl e, l\<lparr>BufWriter := b\<rparr>, w')
      | ((None, b), w') \<Rightarrow>
          (case os_ReadFile (bw_path b) w' of
             (Inl e, w'') \<Rightarrow> (Inl e, l\<lparr>BufWriter := b\<rparr>, w'')
           | (Inr content, w'') \<Rightarrow>
               (case replay_loop content 0 [] of
                  (entries, None) \<Rightarrow> (Inr entries, l\<lparr>BufWriter := b\<rparr>, w'')
                | (entries, Some off) \<Rightarrow>
                    (Inr entries, l\<lparr>BufWriter := b\<rparr>, snd (file_Truncate (bw_path b) off w'')))))"

section \<open>The log as a sequence of records\<close>

text \<open>The bytes one \<^verbatim>\<open>Append\<close> produces, and the size limits under which they replay.\<close>

definition encode_record :: "Entry \<Rightarrow> bytes" where
  "encode_record e =
     PutUint32 (word_of_nat (length (writeDataBuff e)) + 4) @ writeDataBuff e @
     PutUint32 (ChecksumIEEE (writeDataBuff e))"

definition encode_log :: "Entry list \<Rightarrow> bytes" where
  "encode_log es = concat (map encode_record es)"

definition wf_entry :: "Entry \<Rightarrow> bool" where
  "wf_entry e \<longleftrightarrow> length (Key e) \<le> maxEncodedKeyLen \<and> length (Value e) \<le> MAX_VALUE_LENGTH"

text \<open>The entries whose records lie completely within the first \<open>n\<close> bytes of the log.\<close>

fun complete_records :: "nat \<Rightarrow> Entry list \<Rightarrow> Entry list" where
  "complete_records n [] = []"
| "complete_records n (e # es) =
     (if length (encode_record e) \<le> n then e # complete_records (n - length (encode_record e)) es else [])"

section \<open>Lemmas\<close>

lemma length_writeDataBuff [enc_simps]:
  "length (writeDataBuff e) = 8 + length (Key e) + length (Value e)"
  by (simp add: writeDataBuff_def)

lemma length_encode_record [enc_simps]:
  "length (encode_record e) = 16 + length (Key e) + length (Value e)"
  by (simp add: encode_record_def length_writeDataBuff)

lemma encode_log_simps [simp]:
  "encode_log [] = []" "encode_log (e # es) = encode_record e @ encode_log es"
  "encode_log (xs @ ys) = encode_log xs @ encode_log ys"
  by (simp_all add: encode_log_def)

lemmas wal_limits = wf_entry_def maxEncodedKeyLen_def MAX_KEY_LENGTH_def MAX_VALUE_LENGTH_def
  InternalTrailerLen_def

lemma unat_u32_of_nat: "n < 4294967296 \<Longrightarrow> unat (word_of_nat n :: u32) = n"
  by (simp add: unat_of_nat)

lemma parse_data_writeDataBuff:
  assumes "wf_entry e"
  shows "parse_data (writeDataBuff e) = Some e"
proof -
  have "unat (word_of_nat (length (Key e)) :: u32) = length (Key e)"
    "unat (word_of_nat (length (Value e)) :: u32) = length (Value e)"
    using assms by (auto simp: wal_limits intro!: unat_u32_of_nat)
  then show ?thesis
    using assms ReadFull_append [of "Value e" _ "[]"]
    by (simp add: parse_data_def writeDataBuff_def read_u32_append ReadFull_append wf_entry_def)
qed

lemma total_length_unat:
  assumes "wf_entry e"
  shows "unat (word_of_nat (length (writeDataBuff e)) + 4 :: u32) = length (writeDataBuff e) + 4"
proof -
  have "word_of_nat (length (writeDataBuff e)) + 4 = (word_of_nat (length (writeDataBuff e) + 4) :: u32)"
    by simp
  moreover have "length (writeDataBuff e) + 4 < 4294967296"
    using assms by (simp add: wal_limits length_writeDataBuff)
  ultimately show ?thesis by (simp only: unat_u32_of_nat)
qed

lemma replay_record_encode:
  assumes "wf_entry e"
  shows "replay_record (encode_record e @ rest) = ReplayOk e rest"
proof -
  let ?d = "writeDataBuff e"
  have "length ?d + 4 \<le> 4 + maxEncodedKeyLen + 4 + MAX_VALUE_LENGTH + 4"
    using assms by (simp add: wal_limits length_writeDataBuff)
  moreover have "ReadFull (length ?d + 4) (?d @ PutUint32 (ChecksumIEEE ?d) @ rest) =
      Inr (?d @ PutUint32 (ChecksumIEEE ?d), rest)"
    using ReadFull_append [of "?d @ PutUint32 (ChecksumIEEE ?d)" "length ?d + 4" rest] by simp
  ultimately show ?thesis
    using parse_data_writeDataBuff [OF assms]
    by (simp add: replay_record_def encode_record_def read_u32_append total_length_unat [OF assms])
qed

lemma replay_record_Nil [simp]: "replay_record [] = ReplayEOF"
  by (simp add: replay_record_def read_u32_def ReadFull_def)

text \<open>A record cut short fails a check, whatever the bytes are.\<close>

lemma replay_record_torn:
  assumes "wf_entry e" "0 < n" "n < length (encode_record e)"
  shows "replay_record (take n (encode_record e)) = ReplayBad"
proof (cases "n < 4")
  case True
  then have "length (take n (encode_record e)) = n"
    by (simp add: length_encode_record)
  with True assms(2) show ?thesis
    by (auto simp: replay_record_def read_u32_def ReadFull_def split: sum.splits)
next
  case False
  let ?d = "writeDataBuff e @ PutUint32 (ChecksumIEEE (writeDataBuff e))"
  have t: "take n (encode_record e) =
      PutUint32 (word_of_nat (length (writeDataBuff e)) + 4) @ take (n - 4) ?d"
    using False by (simp add: encode_record_def)
  have "length (take (n - 4) ?d) < length (writeDataBuff e) + 4"
    using False assms(3) by (simp add: length_encode_record length_writeDataBuff)
  then obtain err where "ReadFull (length (writeDataBuff e) + 4) (take (n - 4) ?d) = Inl err"
    using ReadFull_short by blast
  then show ?thesis
    unfolding t by (simp add: replay_record_def read_u32_append total_length_unat [OF assms(1)])
qed

lemma replay_loop_encode:
  assumes "\<forall>e \<in> set es. wf_entry e"
  shows "replay_loop (encode_log es @ rest) pos acc =
    replay_loop rest (pos + length (encode_log es)) (acc @ es)"
  using assms
proof (induction es arbitrary: pos acc)
  case (Cons e es)
  then show ?case
    using replay_loop.simps [of "encode_record e @ encode_log es @ rest" pos acc]
    by (simp add: replay_record_encode add.assoc)
qed simp

lemma replay_loop_Nil: "replay_loop [] pos acc = (acc, None)"
  by (simp add: replay_loop.simps)

lemma replay_loop_bad: "replay_record s = ReplayBad \<Longrightarrow> replay_loop s pos acc = (acc, Some pos)"
  by (simp add: replay_loop.simps)

lemma replay_loop_torn:
  assumes "\<forall>e \<in> set es. wf_entry e"
  shows "replay_loop (take n (encode_log es)) pos acc =
    (acc @ complete_records n es,
     if length (encode_log (complete_records n es)) = min n (length (encode_log es)) then None
     else Some (pos + length (encode_log (complete_records n es))))"
  using assms
proof (induction es arbitrary: n pos acc)
  case Nil
  then show ?case by (simp add: replay_loop_Nil)
next
  case (Cons e es)
  let ?r = "encode_record e"
  show ?case
  proof (cases "length ?r \<le> n")
    case True
    then have t: "take n (encode_log (e # es)) = encode_log [e] @ take (n - length ?r) (encode_log es)"
      by simp
    have "replay_loop (take n (encode_log (e # es))) pos acc =
        replay_loop (take (n - length ?r) (encode_log es)) (pos + length ?r) (acc @ [e])"
      unfolding t using Cons.prems replay_loop_encode [of "[e]"] by simp
    then show ?thesis
      using Cons.IH [of "n - length ?r" "pos + length ?r" "acc @ [e]"] Cons.prems True
      by (auto simp: min_def)
  next
    case False
    then have t: "take n (encode_log (e # es)) = take n ?r"
      by simp
    show ?thesis
    proof (cases "n = 0")
      case True
      then show ?thesis by (simp add: replay_loop_Nil length_encode_record)
    next
      case n: False
      then have "replay_record (take n ?r) = ReplayBad"
        using False Cons.prems by (intro replay_record_torn) auto
      then show ?thesis
        using False n unfolding t by (simp add: replay_loop_bad length_encode_record)
    qed
  qed
qed

end
