(* ===== verification/Buffered_Output.thy ===== *)
theory Buffered_Output
  imports Go_IO
begin

text \<open>
  Programs that write a new file through \<^verbatim>\<open>bufio.Writer\<close>. A \<open>bw_prog\<close> is a piece of Go code that calls
  the writer and stops at the first error. \<open>wrote p c b w\<close> says that the bytes written to the file
  \<open>p\<close> since it was created are \<open>c\<close>, the tail of them still in the buffer. \<open>outputs p q m\<close> is the
  contract of a program: it touches no other file, if it reports no error it has appended \<open>q\<close>, and
  without storage faults it reports none. The contract composes along sequencing.
\<close>

section \<open>Definitions\<close>

type_synonym bw_prog = "BufWriter \<Rightarrow> world \<Rightarrow> (go_error option \<times> BufWriter) \<times> world"

definition bw_skip :: bw_prog where
  "bw_skip b w = ((None, b), w)"

definition bw_put :: "bytes \<Rightarrow> bw_prog" where
  "bw_put p b w = bw_Write b p w"

definition bw_seq :: "bw_prog \<Rightarrow> bw_prog \<Rightarrow> bw_prog" where
  "bw_seq m n b w =
     (case m b w of ((Some e, b'), w') \<Rightarrow> ((Some e, b'), w') | ((None, b'), w') \<Rightarrow> n b' w')"

definition only_touches :: "gostring \<Rightarrow> world \<Rightarrow> world \<Rightarrow> bool" where
  "only_touches p w w' \<longleftrightarrow>
     (\<forall>q. q \<noteq> p \<longrightarrow> fs_get w' q = fs_get w q) \<and> clock w' = clock w \<and> ticks w' = ticks w"

definition wrote :: "gostring \<Rightarrow> bytes \<Rightarrow> BufWriter \<Rightarrow> world \<Rightarrow> bool" where
  "wrote p c b w \<longleftrightarrow>
     bw_err b = None \<and> bw_path b = p \<and> length (bw_buf b) \<le> bw_size \<and>
     (\<exists>f. fs_get w p = Some f \<and> bw_off b = Some (length (fdata f)) \<and> c = fdata f @ bw_buf b)"

definition outputs :: "gostring \<Rightarrow> bytes \<Rightarrow> bw_prog \<Rightarrow> bool" where
  "outputs p q m \<longleftrightarrow>
     (\<forall>c b w e b' w'. wrote p c b w \<longrightarrow> m b w = ((e, b'), w') \<longrightarrow>
        only_touches p w w' \<and> (e = None \<longrightarrow> wrote p (c @ q) b' w') \<and>
        (faults w = [] \<longrightarrow> e = None \<and> faults w' = []) \<and> e \<noteq> Some Panic)"

section \<open>Lemmas\<close>

lemma only_touches_refl [simp, intro]: "only_touches p w w"
  by (simp add: only_touches_def)

lemma only_touches_trans: "only_touches p a b \<Longrightarrow> only_touches p b c \<Longrightarrow> only_touches p a c"
  by (simp add: only_touches_def)

lemma only_touches_put [simp]: "only_touches p w (fs_put p f w)"
  by (simp add: only_touches_def)

lemma only_touches_del [simp]: "only_touches p w (fs_del p w)"
  by (simp add: only_touches_def)

lemma sys_fault_frame:
  assumes "sys_fault w = (f, w')"
  shows "only_touches p w w'" "fs_get w' q = fs_get w q" "faults w = [] \<Longrightarrow> f = None \<and> w' = w"
  using assms by (auto simp: sys_fault_def only_touches_def fs_get_def split: list.splits)

lemma file_Write_end:
  assumes "file_Write p (Some (length (fdata f))) q w = ((n, e), w')" "fs_get w p = Some f"
  shows "only_touches p w w'" "n \<le> length q" "e = None \<Longrightarrow> n = length q" "e \<noteq> Some Panic"
    "faults w = [] \<Longrightarrow> e = None \<and> faults w' = []"
    "\<exists>g. fs_get w' p = Some g \<and> fdata g = fdata f @ take n q"
proof -
  obtain fault w1 where s: "sys_fault w = (fault, w1)"
    by (cases "sys_fault w")
  note fr = sys_fault_frame [OF s]
  have f: "fs_get w1 p = Some f"
    using fr(2) assms(2) by simp
  have w': "w' = fs_put p \<lparr>fdata = fdata f @ take n q, durable = min (durable f) (length (fdata f))\<rparr> w1"
    and n: "n = (case fault of None \<Rightarrow> length q | Some k \<Rightarrow> min k (length q))"
    and e: "e = map_option (\<lambda>_. ErrIO) fault"
    using assms(1) s f by (auto simp: file_Write_def Let_def)
  show "only_touches p w w'"
    using fr(1) only_touches_put only_touches_trans unfolding w' by blast
  show "n \<le> length q" "e = None \<Longrightarrow> n = length q" "e \<noteq> Some Panic"
    by (auto simp: n e split: option.splits)
  show "faults w = [] \<Longrightarrow> e = None \<and> faults w' = []"
    using fr(3) by (simp add: e w')
  show "\<exists>g. fs_get w' p = Some g \<and> fdata g = fdata f @ take n q"
    by (simp add: w')
qed

lemma bw_raw_end:
  assumes "bw_raw b q w = ((n, b'), w')" "bw_path b = p" "fs_get w p = Some f" "bw_off b = Some (length (fdata f))"
  shows "only_touches p w w'" "bw_err b' = None \<Longrightarrow> n = length q" "bw_err b' \<noteq> Some Panic"
    "faults w = [] \<Longrightarrow> bw_err b' = None \<and> faults w' = []"
    "bw_path b' = p" "bw_buf b' = bw_buf b"
    "\<exists>g. fs_get w' p = Some g \<and> fdata g = fdata f @ take n q \<and> bw_off b' = Some (length (fdata g))"
proof -
  obtain e where fw: "file_Write p (Some (length (fdata f))) q w = ((n, e), w')"
    and b': "b' = b\<lparr>bw_off := Some (length (fdata f) + n), bw_err := e\<rparr>"
    using assms by (auto simp: bw_raw_def split: prod.splits)
  note e = file_Write_end [OF fw assms(3)]
  show "only_touches p w w'" "bw_err b' = None \<Longrightarrow> n = length q" "bw_err b' \<noteq> Some Panic"
    "faults w = [] \<Longrightarrow> bw_err b' = None \<and> faults w' = []" "bw_path b' = p" "bw_buf b' = bw_buf b"
    using e(1,3,4,5) assms(2) by (simp_all add: b')
  show "\<exists>g. fs_get w' p = Some g \<and> fdata g = fdata f @ take n q \<and> bw_off b' = Some (length (fdata g))"
    using e(2,6) by (auto simp: b')
qed

lemma outputsI:
  assumes "\<And>c b w e b' w'. wrote p c b w \<Longrightarrow> m b w = ((e, b'), w') \<Longrightarrow>
    only_touches p w w' \<and> (e = None \<longrightarrow> wrote p (c @ q) b' w') \<and>
    (faults w = [] \<longrightarrow> e = None \<and> faults w' = []) \<and> e \<noteq> Some Panic"
  shows "outputs p q m"
  unfolding outputs_def using assms by blast

lemma outputsD:
  assumes "outputs p q m" "wrote p c b w" "m b w = ((e, b'), w')"
  shows "only_touches p w w'" "e = None \<Longrightarrow> wrote p (c @ q) b' w'"
    "faults w = [] \<Longrightarrow> e = None" "faults w = [] \<Longrightarrow> faults w' = []" "e \<noteq> Some Panic"
  using assms unfolding outputs_def by blast+

lemma outputs_skip: "outputs p [] bw_skip"
  by (rule outputsI) (auto simp: bw_skip_def wrote_def)

lemma outputs_seq:
  assumes "outputs p q m" "outputs p r n"
  shows "outputs p (q @ r) (bw_seq m n)"
proof (rule outputsI)
  fix c b w e b' w'
  assume wr: "wrote p c b w" and run: "bw_seq m n b w = ((e, b'), w')"
  obtain e1 b1 w1 where m: "m b w = ((e1, b1), w1)"
    by (metis surj_pair)
  note M = outputsD [OF assms(1) wr m]
  show "only_touches p w w' \<and> (e = None \<longrightarrow> wrote p (c @ q @ r) b' w') \<and>
    (faults w = [] \<longrightarrow> e = None \<and> faults w' = []) \<and> e \<noteq> Some Panic"
  proof (cases e1)
    case None
    then have n: "n b1 w1 = ((e, b'), w')"
      using run m by (simp add: bw_seq_def)
    note N = outputsD [OF assms(2) M(2) [OF None] n]
    show ?thesis
      using N M(1,4) only_touches_trans [OF M(1) N(1)] by auto
  next
    case (Some x)
    then have "e = Some x" "w' = w1"
      using run m by (simp_all add: bw_seq_def)
    with M Some show ?thesis by auto
  qed
qed

lemma bw_Flush_end:
  assumes "wrote p c b w" "bw_Flush b w = ((e, b'), w')"
  shows "only_touches p w w'" "e = None \<Longrightarrow> wrote p c b' w' \<and> bw_buf b' = []" "e \<noteq> Some Panic"
    "faults w = [] \<Longrightarrow> e = None \<and> faults w' = []"
proof -
  obtain f where b: "bw_err b = None" "bw_path b = p" "fs_get w p = Some f" "bw_off b = Some (length (fdata f))"
    "c = fdata f @ bw_buf b"
    using assms(1) by (auto simp: wrote_def)
  have "only_touches p w w' \<and> (e = None \<longrightarrow> wrote p c b' w' \<and> bw_buf b' = []) \<and> e \<noteq> Some Panic \<and>
    (faults w = [] \<longrightarrow> e = None \<and> faults w' = [])"
  proof (cases "bw_buf b = []")
    case True
    with assms b show ?thesis by (auto simp: bw_Flush_def)
  next
    case False
    obtain n b1 where r: "bw_raw b (bw_buf b) w = ((n, b1), w')"
      and b': "e = bw_err b1" "b' = b1\<lparr>bw_buf := drop n (bw_buf b)\<rparr>"
      using assms(2) b False by (auto simp: bw_Flush_def split: prod.splits)
    note R = bw_raw_end [OF r b(2-4)]
    show ?thesis
      using R b by (auto simp: b' wrote_def)
  qed
  then show "only_touches p w w'" "e = None \<Longrightarrow> wrote p c b' w' \<and> bw_buf b' = []" "e \<noteq> Some Panic"
    "faults w = [] \<Longrightarrow> e = None \<and> faults w' = []"
    by blast+
qed

lemma bw_Write_fit_end:
  assumes "wrote p c b w" "bw_buf b = [] \<or> length q \<le> bw_Available b" "bw_Write_fit b q w = ((e, b'), w')"
  shows "only_touches p w w' \<and> (e = None \<longrightarrow> wrote p (c @ q) b' w') \<and>
    (faults w = [] \<longrightarrow> e = None \<and> faults w' = []) \<and> e \<noteq> Some Panic"
proof -
  obtain f where b: "bw_err b = None" "bw_path b = p" "fs_get w p = Some f" "bw_off b = Some (length (fdata f))"
    "c = fdata f @ bw_buf b" "length (bw_buf b) \<le> bw_size"
    using assms(1) by (auto simp: wrote_def)
  show ?thesis
  proof (cases "length q > bw_Available b")
    case True
    obtain n where r: "bw_raw b q w = ((n, b'), w')" and e: "e = bw_err b'"
      using assms(3) True by (auto simp: bw_Write_fit_def split: prod.splits)
    note R = bw_raw_end [OF r b(2-4)]
    have "bw_buf b = []"
      using True assms(2) by simp
    then show ?thesis
      using R b by (auto simp: e wrote_def)
  next
    case False
    then show ?thesis
      using assms b by (auto simp: bw_Write_fit_def bw_Available_def wrote_def)
  qed
qed

lemma outputs_put: "outputs p q (bw_put q)"
proof (rule outputsI)
  fix c b w e b' w'
  assume wr: "wrote p c b w" and run: "bw_put q b w = ((e, b'), w')"
  let ?k = "bw_Available b" and ?goal = "only_touches p w w' \<and> (e = None \<longrightarrow> wrote p (c @ q) b' w') \<and>
    (faults w = [] \<longrightarrow> e = None \<and> faults w' = []) \<and> e \<noteq> Some Panic"
  have ok: "bw_err b = None" "length (bw_buf b) \<le> bw_size"
    using wr by (auto simp: wrote_def)
  show ?goal
  proof (cases "bw_buf b = [] \<or> length q \<le> ?k")
    case True
    then have "bw_Write_fit b q w = ((e, b'), w')"
      using run ok by (simp add: bw_put_def bw_Write_def)
    from bw_Write_fit_end [OF wr True this] show ?thesis .
  next
    case False
    let ?b = "b\<lparr>bw_buf := bw_buf b @ take ?k q\<rparr>"
    have wr': "wrote p (c @ take ?k q) ?b w"
      using wr ok by (auto simp: wrote_def bw_Available_def)
    obtain e1 b1 w1 where fl: "bw_Flush ?b w = ((e1, b1), w1)"
      by (metis surj_pair)
    note F = bw_Flush_end [OF wr' fl]
    show ?thesis
    proof (cases e1)
      case None
      then have fit: "bw_Write_fit b1 (drop ?k q) w1 = ((e, b'), w')"
        using run ok False fl by (simp add: bw_put_def bw_Write_def Let_def)
      have w1: "wrote p (c @ take ?k q) b1 w1" "bw_buf b1 = []"
        using F(2) None by auto
      show ?thesis
        using bw_Write_fit_end [OF w1(1) _ fit] w1(2) F(1,4) only_touches_trans [OF F(1)] by auto
    next
      case (Some x)
      then have "e = Some x" "w' = w1"
        using run ok False fl by (simp_all add: bw_put_def bw_Write_def Let_def)
      with F Some show ?thesis by auto
    qed
  qed
qed

end
