(* ===== verification/Wal_Durability.thy ===== *)
theory Wal_Durability
  imports Wal Buffered_Output "HOL-Library.Sublist"
begin

text \<open>
  What the log file holds after a sequence of writes, for every schedule of storage faults. A step
  of the buffered writer is summarised by \<open>log_step\<close>: the file grows, nothing else changes, and
  file and buffer together hold what was asked for, or the file holds a prefix of it and the
  writer's error sticks. \<open>wal_inv\<close> lifts this to whole entries and to the sync counter.
\<close>

section \<open>Definitions\<close>

definition log_step :: "BufWriter \<Rightarrow> world \<Rightarrow> bytes \<Rightarrow> BufWriter \<Rightarrow> world \<Rightarrow> bool" where
  "log_step b w p b' w' \<longleftrightarrow>
     (\<forall>f. fs_get w (bw_path b) = Some f \<longrightarrow> durable f \<le> length (fdata f) \<longrightarrow>
        bw_path b' = bw_path b \<and> bw_off b' = None \<and>
        (\<forall>q. q \<noteq> bw_path b \<longrightarrow> fs_get w' q = fs_get w q) \<and>
        (\<exists>f'. fs_get w' (bw_path b) = Some f' \<and> durable f' = durable f \<and> prefix (fdata f) (fdata f') \<and>
           (if bw_err b' = None then fdata f' @ bw_buf b' = fdata f @ bw_buf b @ p
            else prefix (fdata f') (fdata f @ bw_buf b @ p))))"

text \<open>
  The log after the entries \<open>es\<close> were handed to it: with no sticky error the file and the buffer
  hold exactly them and all but the last \<open>putCounter\<close> are durable; with one the file holds a prefix.
\<close>

definition wal_inv :: "Entry list \<Rightarrow> WAL \<Rightarrow> world \<Rightarrow> bool" where
  "wal_inv es l w \<longleftrightarrow>
     bw_off (BufWriter l) = None \<and>
     (\<exists>f. fs_get w (bw_path (BufWriter l)) = Some f \<and> durable f \<le> length (fdata f) \<and>
        (if bw_err (BufWriter l) = None
         then fdata f @ bw_buf (BufWriter l) = encode_log es \<and>
              length (encode_log (take (length es - putCounter l) es)) \<le> durable f
         else prefix (fdata f) (encode_log es)))"

text \<open>A run of writes: the result of each one, and the final state.\<close>

fun wal_writes :: "Entry list \<Rightarrow> WAL \<Rightarrow> world \<Rightarrow> go_error option list \<times> WAL \<times> world" where
  "wal_writes [] l w = ([], l, w)"
| "wal_writes (e # es) l w =
     (case wal_write (Key e) (Value e) l w of
        ((err, l'), w') \<Rightarrow> (case wal_writes es l' w' of (errs, r) \<Rightarrow> (err # errs, r)))"

section \<open>The buffered writer\<close>

lemma log_stepE:
  assumes "log_step b w p b' w'" "fs_get w (bw_path b) = Some f" "durable f \<le> length (fdata f)"
  obtains f' where "bw_path b' = bw_path b" "bw_off b' = None"
    "\<And>q. q \<noteq> bw_path b \<Longrightarrow> fs_get w' q = fs_get w q"
    "fs_get w' (bw_path b) = Some f'" "durable f' = durable f" "prefix (fdata f) (fdata f')"
    "bw_err b' = None \<Longrightarrow> fdata f' @ bw_buf b' = fdata f @ bw_buf b @ p"
    "bw_err b' \<noteq> None \<Longrightarrow> prefix (fdata f') (fdata f @ bw_buf b @ p)"
    "durable f' \<le> length (fdata f')"
proof -
  from assms obtain f' where *: "bw_path b' = bw_path b" "bw_off b' = None"
    "\<forall>q. q \<noteq> bw_path b \<longrightarrow> fs_get w' q = fs_get w q"
    "fs_get w' (bw_path b) = Some f'" "durable f' = durable f" "prefix (fdata f) (fdata f')"
    "if bw_err b' = None then fdata f' @ bw_buf b' = fdata f @ bw_buf b @ p
     else prefix (fdata f') (fdata f @ bw_buf b @ p)"
    unfolding log_step_def by blast
  moreover have "durable f' \<le> length (fdata f')"
    using *(5,6) assms(3) by (metis order.trans prefix_length_le)
  ultimately show thesis
    by (intro that [of f']) (auto split: if_splits)
qed

lemma bw_raw_meta:
  assumes "bw_raw b p w = ((n, b'), w')"
  shows "bw_path b' = bw_path b" "bw_buf b' = bw_buf b" "bw_off b = None \<Longrightarrow> bw_off b' = None"
    and "bw_err b' = None \<Longrightarrow> n = length p"
  using assms
  by (auto simp: bw_raw_def file_Write_def Let_def split: prod.splits option.splits)

lemma bw_raw_append:
  assumes "bw_off b = None" "fs_get w (bw_path b) = Some f" "durable f \<le> length (fdata f)"
    and "bw_raw b p w = ((n, b'), w')"
  shows "fs_get w' (bw_path b) = Some \<lparr>fdata = fdata f @ take n p, durable = durable f\<rparr>"
    and "q \<noteq> bw_path b \<Longrightarrow> fs_get w' q = fs_get w q"
  using assms
  by (auto simp: bw_raw_def file_Write_def Let_def min_absorb1 sys_fault_fs
      split: prod.splits option.splits)

lemma bw_raw_log_step:
  assumes "bw_off b = None" "bw_raw b p w = ((n, b'), w')"
  shows "log_step (b\<lparr>bw_buf := p\<rparr>) w [] (b'\<lparr>bw_buf := drop n p\<rparr>) w'"
  using bw_raw_append [OF assms(1) _ _ assms(2)] bw_raw_meta [OF assms(2)] assms(1)
  by (auto simp: log_step_def take_is_prefix)

lemma bw_Flush_log_step:
  assumes "bw_off b = None" "bw_Flush b w = ((e, b'), w')"
  shows "log_step b w [] b' w' \<and> e = bw_err b' \<and> (e = None \<longrightarrow> bw_buf b' = []) \<and> bw_off b' = None"
proof (cases "bw_err b \<noteq> None \<or> bw_buf b = []")
  case True
  with assms show ?thesis
    by (auto simp: bw_Flush_def log_step_def split: if_splits)
next
  case False
  obtain n b1 w1 where r: "bw_raw b (bw_buf b) w = ((n, b1), w1)"
    by (metis surj_pair)
  with False assms have "b' = b1\<lparr>bw_buf := drop n (bw_buf b)\<rparr>" "w' = w1" "e = bw_err b1"
    by (auto simp: bw_Flush_def)
  then show ?thesis
    using bw_raw_log_step [OF assms(1) r] bw_raw_meta [OF r] assms(1) by simp
qed

lemma bw_Write_fit_log_step:
  assumes "bw_off b = None" "bw_err b = None" "bw_buf b = [] \<or> length p \<le> bw_Available b"
    and "bw_Write_fit b p w = ((e, b'), w')"
  shows "log_step b w p b' w' \<and> e = bw_err b'"
proof (cases "length p > bw_Available b")
  case True
  obtain n b1 w1 where r: "bw_raw b p w = ((n, b1), w1)"
    by (metis surj_pair)
  with True assms have "b' = b1" "w' = w1" "e = bw_err b1" "bw_buf b = []"
    by (auto simp: bw_Write_fit_def)
  then show ?thesis
    using bw_raw_append [OF assms(1) _ _ r] bw_raw_meta [OF r] assms(1)
    by (auto simp: log_step_def take_is_prefix)
next
  case False
  with assms show ?thesis
    by (auto simp: bw_Write_fit_def log_step_def)
qed

lemma log_step_trans:
  assumes s1: "log_step b w p b1 w1" and e1: "bw_err b1 = None" and s2: "log_step b1 w1 q b2 w2"
  shows "log_step b w (p @ q) b2 w2"
  unfolding log_step_def
proof (intro allI impI)
  fix f
  assume "fs_get w (bw_path b) = Some f" "durable f \<le> length (fdata f)"
  with s1 obtain f1 where 1: "bw_path b1 = bw_path b"
    "\<And>q. q \<noteq> bw_path b \<Longrightarrow> fs_get w1 q = fs_get w q" "fs_get w1 (bw_path b) = Some f1"
    "durable f1 = durable f" "prefix (fdata f) (fdata f1)"
    "fdata f1 @ bw_buf b1 = fdata f @ bw_buf b @ p" "durable f1 \<le> length (fdata f1)"
    using e1 by (elim log_stepE) auto
  from s2 1(3,7) obtain f2 where 2: "bw_path b2 = bw_path b" "bw_off b2 = None"
    "\<And>q. q \<noteq> bw_path b \<Longrightarrow> fs_get w2 q = fs_get w1 q"
    "fs_get w2 (bw_path b) = Some f2" "durable f2 = durable f" "prefix (fdata f1) (fdata f2)"
    "bw_err b2 = None \<Longrightarrow> fdata f2 @ bw_buf b2 = (fdata f1 @ bw_buf b1) @ q"
    "bw_err b2 \<noteq> None \<Longrightarrow> prefix (fdata f2) ((fdata f1 @ bw_buf b1) @ q)"
    unfolding 1(1) [symmetric] 1(4) [symmetric] append.assoc by (elim log_stepE) auto
  moreover have "prefix (fdata f) (fdata f2)"
    using 1(5) 2(6) by (rule prefix_order.trans)
  ultimately show "bw_path b2 = bw_path b \<and> bw_off b2 = None \<and>
      (\<forall>q. q \<noteq> bw_path b \<longrightarrow> fs_get w2 q = fs_get w q) \<and>
      (\<exists>f'. fs_get w2 (bw_path b) = Some f' \<and> durable f' = durable f \<and> prefix (fdata f) (fdata f') \<and>
        (if bw_err b2 = None then fdata f' @ bw_buf b2 = fdata f @ bw_buf b @ p @ q
         else prefix (fdata f') (fdata f @ bw_buf b @ p @ q)))"
    using 1(2) unfolding 1(6) by auto
qed

lemma log_step_weaken:
  assumes s: "log_step b w p b1 w1" and e: "bw_err b1 \<noteq> None"
  shows "log_step b w (p @ q) b1 w1"
  unfolding log_step_def
proof (intro allI impI)
  fix f
  assume "fs_get w (bw_path b) = Some f" "durable f \<le> length (fdata f)"
  with s obtain f1 where 1: "bw_path b1 = bw_path b" "bw_off b1 = None"
    "\<And>q. q \<noteq> bw_path b \<Longrightarrow> fs_get w1 q = fs_get w q" "fs_get w1 (bw_path b) = Some f1"
    "durable f1 = durable f" "prefix (fdata f) (fdata f1)"
    "prefix (fdata f1) (fdata f @ bw_buf b @ p)"
    using e by (elim log_stepE) auto
  have "prefix (fdata f1) (fdata f @ bw_buf b @ p @ q)"
    using prefix_prefix [OF 1(7), of q] by simp
  then show "bw_path b1 = bw_path b \<and> bw_off b1 = None \<and>
      (\<forall>q. q \<noteq> bw_path b \<longrightarrow> fs_get w1 q = fs_get w q) \<and>
      (\<exists>f'. fs_get w1 (bw_path b) = Some f' \<and> durable f' = durable f \<and> prefix (fdata f) (fdata f') \<and>
        (if bw_err b1 = None then fdata f' @ bw_buf b1 = fdata f @ bw_buf b @ p @ q
         else prefix (fdata f') (fdata f @ bw_buf b @ p @ q)))"
    using 1 e by auto
qed

lemma bw_Write_log_step:
  assumes off: "bw_off b = None" and err: "bw_err b = None"
    and r: "bw_Write b p w = ((e, b'), w')"
  shows "log_step b w p b' w' \<and> e = bw_err b'"
proof (cases "bw_buf b = [] \<or> length p \<le> bw_Available b")
  case True
  with assms bw_Write_fit_log_step [OF off err True] show ?thesis
    by (simp add: bw_Write_def)
next
  case False
  let ?k = "bw_Available b"
  let ?b0 = "b\<lparr>bw_buf := bw_buf b @ take ?k p\<rparr>"
  have 0: "log_step b w (take ?k p) ?b0 w"
    using off err by (auto simp: log_step_def)
  obtain e1 b1 w1 where fl: "bw_Flush ?b0 w = ((e1, b1), w1)"
    by (metis surj_pair)
  then have 1: "log_step ?b0 w [] b1 w1" "e1 = bw_err b1" "e1 = None \<Longrightarrow> bw_buf b1 = []" "bw_off b1 = None"
    using bw_Flush_log_step [OF _ fl] off by auto
  have 01: "log_step b w (take ?k p) b1 w1"
    using log_step_trans [OF 0 _ 1(1)] err by simp
  show ?thesis
  proof (cases e1)
    case None
    with False r err fl have r': "bw_Write_fit b1 (drop ?k p) w1 = ((e, b'), w')"
      by (simp add: bw_Write_def Let_def)
    have "log_step b1 w1 (drop ?k p) b' w' \<and> e = bw_err b'"
      using bw_Write_fit_log_step [OF 1(4) _ _ r'] None 1 by auto
    then show ?thesis
      using log_step_trans [OF 01, of "drop ?k p"] None 1(2) by simp
  next
    case (Some x)
    with False r err fl have "e = bw_err b'" "b' = b1" "w' = w1"
      using 1(2) by (auto simp: bw_Write_def Let_def)
    then show ?thesis
      using log_step_weaken [OF 01, of "drop ?k p"] Some 1(2) by simp
  qed
qed

section \<open>Whole entries\<close>

lemma bw_Write_sticky: "bw_err b = Some x \<Longrightarrow> bw_Write b p w = ((Some x, b), w)"
  by (simp add: bw_Write_def)

lemma Append_sticky:
  "bw_err (BufWriter l) = Some x \<Longrightarrow> Append e l w = ((Some x, l), w)"
  by (simp add: Append_def wal_buf_write_def bw_Write_sticky Let_def)

lemma wal_buf_write_log_step:
  assumes "bw_off (BufWriter l) = None" "bw_err (BufWriter l) = None"
    and "wal_buf_write p l w = ((e, l'), w')"
  shows "log_step (BufWriter l) w p (BufWriter l') w'" "e = bw_err (BufWriter l')"
    "putCounter l' = putCounter l"
  using assms bw_Write_log_step [OF assms(1,2)]
  by (auto simp: wal_buf_write_def split: prod.splits)

lemma Append_log_step:
  assumes f: "fs_get w (bw_path (BufWriter l)) = Some f" "durable f \<le> length (fdata f)"
    and off: "bw_off (BufWriter l) = None" and err: "bw_err (BufWriter l) = None"
    and r: "Append e l w = ((x, l'), w')"
  shows "log_step (BufWriter l) w (encode_record e) (BufWriter l') w' \<and>
    x = bw_err (BufWriter l') \<and> putCounter l' = putCounter l"
proof -
  let ?a = "PutUint32 (word_of_nat (length (writeDataBuff e)) + 4)"
  let ?d = "writeDataBuff e" and ?c = "PutUint32 (ChecksumIEEE (writeDataBuff e))"
  obtain x1 l1 w1 where r1: "wal_buf_write ?a l w = ((x1, l1), w1)"
    by (metis surj_pair)
  note s1 = wal_buf_write_log_step [OF off err r1]
  show ?thesis
  proof (cases x1)
    case (Some y)
    with r r1 have "x = x1" "l' = l1" "w' = w1"
      by (auto simp: Append_def Let_def)
    moreover have "bw_err (BufWriter l1) \<noteq> None"
      using s1(2) [symmetric] Some by simp
    ultimately show ?thesis
      using log_step_weaken [OF s1(1), of "?d @ ?c"] s1(2,3) by (simp add: encode_record_def)
  next
    case None
    obtain x2 l2 w2 where r2: "wal_buf_write ?d l1 w1 = ((x2, l2), w2)"
      by (metis surj_pair)
    have off1: "bw_off (BufWriter l1) = None"
      using s1(1) f by (elim log_stepE)
    have err1: "bw_err (BufWriter l1) = None"
      using s1(2) None by simp
    note s2 = wal_buf_write_log_step [OF off1 err1 r2]
    note s12 = log_step_trans [OF s1(1) err1 s2(1)]
    show ?thesis
    proof (cases x2)
      case (Some y)
      with r r1 r2 None have "x = x2" "l' = l2" "w' = w2"
        by (auto simp: Append_def Let_def)
      moreover have "bw_err (BufWriter l2) \<noteq> None"
        using s2(2) [symmetric] Some by simp
      ultimately show ?thesis
        using log_step_weaken [OF s12, of ?c] s1(3) s2(2,3) by (simp add: encode_record_def)
    next
      case x2: None
      with r r1 r2 None have r3: "wal_buf_write ?c l2 w2 = ((x, l'), w')"
        by (auto simp: Append_def Let_def)
      have off2: "bw_off (BufWriter l2) = None"
        using s12 f by (elim log_stepE)
      have err2: "bw_err (BufWriter l2) = None"
        using s2(2) x2 by simp
      note s3 = wal_buf_write_log_step [OF off2 err2 r3]
      show ?thesis
        using log_step_trans [OF s12 err2 s3(1)] s1 s2 s3 by (simp add: encode_record_def)
    qed
  qed
qed

lemma encode_log_take_drop: "encode_log es = encode_log (take n es) @ encode_log (drop n es)"
  by (metis append_take_drop_id encode_log_simps(3))

lemma length_encode_log_le: "length (encode_log (take n es)) \<le> length (encode_log es)"
  by (subst (2) encode_log_take_drop [of _ n]) simp

lemma wal_inv_Append:
  assumes inv: "wal_inv es l w" and err: "bw_err (BufWriter l) = None"
    and r: "Append e l w = ((x, l'), w')"
  shows "wal_inv (es @ [e]) (l'\<lparr>putCounter := putCounter l' + 1\<rparr>) w' \<and>
    x = bw_err (BufWriter l') \<and> putCounter l' = putCounter l \<and> (x \<noteq> None \<longrightarrow> wal_inv (es @ [e]) l' w')"
proof -
  from inv err obtain f where f: "fs_get w (bw_path (BufWriter l)) = Some f"
    "durable f \<le> length (fdata f)" and off: "bw_off (BufWriter l) = None"
    and es: "fdata f @ bw_buf (BufWriter l) = encode_log es"
    and dur: "length (encode_log (take (length es - putCounter l) es)) \<le> durable f"
    by (auto simp: wal_inv_def)
  note s = Append_log_step [OF f off err r]
  then obtain f' where f': "bw_path (BufWriter l') = bw_path (BufWriter l)"
    "bw_off (BufWriter l') = None" "fs_get w' (bw_path (BufWriter l)) = Some f'"
    "durable f' = durable f" "durable f' \<le> length (fdata f')"
    "bw_err (BufWriter l') = None \<Longrightarrow>
      fdata f' @ bw_buf (BufWriter l') = (fdata f @ bw_buf (BufWriter l)) @ encode_record e"
    "bw_err (BufWriter l') \<noteq> None \<Longrightarrow>
      prefix (fdata f') ((fdata f @ bw_buf (BufWriter l)) @ encode_record e)"
    using f unfolding append.assoc by (elim conjE log_stepE) auto
  show ?thesis
    using s f' dur unfolding es by (auto simp: wal_inv_def)
qed

lemma wal_inv_Sync:
  assumes inv: "wal_inv es l w" and err: "bw_err (BufWriter l) = None"
    and r: "wal_Sync l w = ((x, l'), w')"
  shows "wal_inv es l' w' \<and> putCounter l' = putCounter l \<and>
    (x = None \<longrightarrow> wal_inv es (l'\<lparr>putCounter := 0\<rparr>) w' \<and> bw_err (BufWriter l') = None)"
proof -
  from inv err obtain f where f: "fs_get w (bw_path (BufWriter l)) = Some f"
    "durable f \<le> length (fdata f)" and off: "bw_off (BufWriter l) = None"
    and es: "fdata f @ bw_buf (BufWriter l) = encode_log es"
    and dur: "length (encode_log (take (length es - putCounter l) es)) \<le> durable f"
    by (auto simp: wal_inv_def)
  obtain x1 b1 w1 where fl: "bw_Flush (BufWriter l) w = ((x1, b1), w1)"
    by (metis surj_pair)
  note s = bw_Flush_log_step [OF off fl]
  then obtain f1 where f1: "bw_path b1 = bw_path (BufWriter l)" "bw_off b1 = None"
    "fs_get w1 (bw_path (BufWriter l)) = Some f1" "durable f1 = durable f"
    "durable f1 \<le> length (fdata f1)"
    "bw_err b1 = None \<Longrightarrow> fdata f1 @ bw_buf b1 = fdata f @ bw_buf (BufWriter l)"
    "bw_err b1 \<noteq> None \<Longrightarrow> prefix (fdata f1) (fdata f @ bw_buf (BufWriter l))"
    using f by (elim conjE log_stepE) auto
  have inv1: "wal_inv es (l\<lparr>BufWriter := b1\<rparr>) w1"
    using f1 dur unfolding es by (auto simp: wal_inv_def)
  show ?thesis
  proof (cases x1)
    case (Some y)
    with fl r inv1 show ?thesis by (auto simp: wal_Sync_def)
  next
    case None
    then have full: "bw_err b1 = None" "bw_buf b1 = []" "fdata f1 = encode_log es"
      using s f1(6) es by auto
    show ?thesis
    proof (cases "sys_fault w1")
      case (Pair flt w2)
      then have "\<And>p. fs_get w2 p = fs_get w1 p"
        by (rule sys_fault_fs)
      with Pair fl r None inv1 f1(1,2,3) full show ?thesis
        by (cases flt) (auto simp: wal_Sync_def file_Sync_def wal_inv_def length_encode_log_le)
    qed
  qed
qed

lemma wal_inv_write:
  assumes inv: "wal_inv es l w" and r: "wal_write (Key e) (Value e) l w = ((x, l'), w')"
  shows "wal_inv (es @ [e]) l' w' \<and>
    (x = None \<longrightarrow> bw_err (BufWriter l') = None \<and> putCounter l' < DEFAULT_SYNC_THRESHOLD)"
proof (cases "bw_err (BufWriter l)")
  case (Some y)
  with inv r show ?thesis
    by (auto simp: wal_write_def Append_sticky wal_inv_def prefix_prefix)
next
  case None
  obtain x1 l1 w1 where a: "Append e l w = ((x1, l1), w1)"
    by (metis surj_pair)
  note i1 = wal_inv_Append [OF inv None a]
  show ?thesis
  proof (cases "x1 = None \<and> putCounter l1 + 1 \<ge> DEFAULT_SYNC_THRESHOLD")
    case True
    let ?l2 = "l1\<lparr>putCounter := putCounter l1 + 1\<rparr>"
    obtain x3 l3 w3 where sy: "wal_Sync ?l2 w1 = ((x3, l3), w3)"
      by (metis surj_pair)
    have "wal_inv (es @ [e]) ?l2 w1" "bw_err (BufWriter ?l2) = None"
      using i1 True by auto
    note i3 = wal_inv_Sync [OF this sy]
    show ?thesis
      using True r a sy i3
      by (cases x3) (auto simp: wal_write_def Let_def DEFAULT_SYNC_THRESHOLD_def)
  next
    case False
    then show ?thesis
    proof (cases x1)
      case (Some y)
      with r a have "x = Some y" "l' = l1" "w' = w1"
        by (auto simp: wal_write_def)
      with i1 Some show ?thesis by auto
    next
      case None
      with False r a have "x = None" "l' = l1\<lparr>putCounter := putCounter l1 + 1\<rparr>" "w' = w1"
        by (auto simp: wal_write_def Let_def)
      with i1 None False show ?thesis by auto
    qed
  qed
qed

lemma wal_inv_writes:
  assumes "wal_inv es l w" "wal_writes ns l w = (errs, l', w')"
  shows "wal_inv (es @ ns) l' w' \<and>
    (ns \<noteq> [] \<longrightarrow> last errs = None \<longrightarrow>
      bw_err (BufWriter l') = None \<and> putCounter l' < DEFAULT_SYNC_THRESHOLD)"
  using assms
proof (induction ns arbitrary: es l w errs)
  case Nil
  then show ?case by simp
next
  case (Cons e ns)
  obtain x1 l1 w1 where a: "wal_write (Key e) (Value e) l w = ((x1, l1), w1)"
    by (metis surj_pair)
  obtain errs1 where b: "wal_writes ns l1 w1 = (errs1, l', w')" "errs = x1 # errs1"
    using Cons.prems a by (auto split: prod.splits)
  note i = wal_inv_write [OF Cons.prems(1) a]
  have len: "errs1 = [] \<longleftrightarrow> ns = []"
    using b(1) by (cases ns) (auto split: prod.splits)
  show ?case
    using Cons.IH [OF conjunct1 [OF i] b(1)] i b len by (cases "ns = []") auto
qed

section \<open>Damaged logs\<close>

lemma complete_records_prefix: "prefix (complete_records n es) es"
  by (induction n es rule: complete_records.induct) auto

lemma complete_records_all: "length (encode_log es) \<le> n \<Longrightarrow> complete_records n es = es"
  by (induction n es rule: complete_records.induct) auto

lemma complete_records_ge:
  "length (encode_log (take k es)) \<le> n \<Longrightarrow> k \<le> length es \<Longrightarrow> k \<le> length (complete_records n es)"
proof (induction n es arbitrary: k rule: complete_records.induct)
  case (2 n e es)
  show ?case
  proof (cases k)
    case (Suc j)
    with 2 show ?thesis by auto
  qed simp
qed simp

lemma replay_record_local:
  assumes "replay_record s = ReplayOk e s'"
  shows "\<exists>r. s = r @ s' \<and> (\<forall>t. replay_record (r @ t) = ReplayOk e t)"
proof -
  from assms obtain tl s1 where 1: "read_u32 s = Inr (tl, s1)"
    by (auto simp: replay_record_def split: sum.splits go_error.splits prod.splits)
  with assms obtain rb where 2: "ReadFull (unat tl) s1 = Inr (rb, s')"
    by (auto simp: replay_record_def Let_def split: sum.splits prod.splits if_splits option.splits)
  have s: "s = PutUint32 tl @ rb @ s'" "length rb = unat tl"
    using read_u32_Inr [OF 1] ReadFull_Inr [OF 2] by auto
  have "replay_record ((PutUint32 tl @ rb) @ t) = ReplayOk e t" for t
    using assms s(2) unfolding s(1)
    by (auto simp: replay_record_def read_u32_append ReadFull_append Let_def
        split: if_splits option.splits)
  with s(1) show ?thesis by (intro exI [of _ "PutUint32 tl @ rb"]) simp
qed

lemma replay_loop_truncated:
  "replay_loop s pos acc = (es, Some off) \<Longrightarrow>
    pos \<le> off \<and> off \<le> pos + length s \<and> replay_loop (take (off - pos) s) pos acc = (es, None)"
proof (induction s pos acc rule: replay_loop.induct)
  case (1 s pos acc)
  show ?case
  proof (cases "replay_record s")
    case ReplayEOF
    with "1.prems" show ?thesis by (simp add: replay_loop.simps [of s])
  next
    case ReplayBad
    with "1.prems" show ?thesis by (simp add: replay_loop.simps [of s] replay_loop_Nil)
  next
    case (ReplayOk e s')
    then obtain r where r: "s = r @ s'" "\<And>t. replay_record (r @ t) = ReplayOk e t"
      using replay_record_local by blast
    from "1.prems" ReplayOk r(1) have "replay_loop s' (pos + length r) (acc @ [e]) = (es, Some off)"
      by (simp add: replay_loop.simps [of "r @ s'"])
    with "1.IH" [OF ReplayOk] r(1) have IH: "pos + length r \<le> off" "off \<le> pos + length r + length s'"
      "replay_loop (take (off - (pos + length r)) s') (pos + length r) (acc @ [e]) = (es, None)"
      by auto
    have "take (off - pos) s = r @ take (off - (pos + length r)) s'"
      using r(1) IH(1) by simp
    then have "replay_loop (take (off - pos) s) pos acc = (es, None)"
      using IH(3) by (simp add: replay_loop.simps [of "r @ _"] r(2))
    with IH r(1) show ?thesis by simp
  qed
qed

lemma replay_record_corrupt:
  assumes e: "wf_entry e" and i: "4 \<le> i" "i < length (encode_record e)" "b \<noteq> encode_record e ! i"
  shows "replay_record ((encode_record e)[i := b] @ rest) = ReplayBad"
proof -
  let ?d = "writeDataBuff e" and ?c = "PutUint32 (ChecksumIEEE (writeDataBuff e))"
  let ?j = "i - 4"
  have upd: "(encode_record e)[i := b] = PutUint32 (word_of_nat (length ?d) + 4) @ (?d @ ?c)[?j := b]"
    using i(1) by (simp add: encode_record_def list_update_append)
  have nth: "encode_record e ! i = (?d @ ?c) ! ?j" and j: "?j < length ?d + 4"
    using i by (auto simp: encode_record_def nth_append)
  have rf: "ReadFull (length ?d + 4) ((?d @ ?c)[?j := b] @ rest) = Inr ((?d @ ?c)[?j := b], rest)"
    by (simp add: ReadFull_append)
  have "ChecksumIEEE (take (length ?d) ((?d @ ?c)[?j := b])) \<noteq>
      Uint32 (drop (length ?d) ((?d @ ?c)[?j := b]))"
    using sealed_corrupt [OF j] i(3) unfolding nth by simp
  with rf show ?thesis
    unfolding upd by (simp add: replay_record_def read_u32_append total_length_unat [OF e])
qed

section \<open>Replay of a file\<close>

lemma length_complete_records: "length (encode_log (complete_records n es)) \<le> n"
  by (induction n es rule: complete_records.induct) auto

lemma take_complete_records:
  "take (length (encode_log (complete_records n es))) (encode_log es) = encode_log (complete_records n es)"
  by (induction n es rule: complete_records.induct) auto

text \<open>A log that is open for reading: nothing in the buffer, and what is durable of the file is in it.\<close>

definition log_file :: "WAL \<Rightarrow> File \<Rightarrow> world \<Rightarrow> bool" where
  "log_file l f w \<longleftrightarrow>
     bw_err (BufWriter l) = None \<and> bw_buf (BufWriter l) = [] \<and> fs_get w (bw_path (BufWriter l)) = Some f \<and>
     durable f \<le> length (fdata f) \<and> faults w = []"

text \<open>What \<^verbatim>\<open>Replay\<close> leaves: the file holds the records of the entries it returned, and no other file changed.\<close>

definition replays_to :: "WAL \<Rightarrow> File \<Rightarrow> world \<Rightarrow> Entry list \<Rightarrow> bool" where
  "replays_to l f w es \<longleftrightarrow>
     (\<exists>w'. Replay l w = (Inr es, l, w') \<and> only_touches (bw_path (BufWriter l)) w w' \<and> faults w' = [] \<and>
        fs_get w' (bw_path (BufWriter l)) =
          Some \<lparr>fdata = encode_log es, durable = min (length (encode_log es)) (durable f)\<rparr>)"

lemma Replay_file:
  assumes "log_file l f w" "fdata f = encode_log es @ rest"
    and "replay_loop (fdata f) 0 [] = (es, if rest = [] then None else Some (length (encode_log es)))"
  shows "replays_to l f w es"
proof -
  let ?p = "bw_path (BufWriter l)" and ?k = "length (encode_log es)"
  have f: "fs_get w ?p = Some f" "durable f \<le> length (fdata f)" "faults w = []"
    and fl: "bw_Flush (BufWriter l) w = ((None, BufWriter l), w)"
    using assms(1) by (simp_all add: log_file_def bw_Flush_def)
  show ?thesis
  proof (cases "rest = []")
    case True
    then have "Replay l w = (Inr es, l, w)"
      using assms(3) f(1) fl by (simp add: Replay_def os_ReadFile_def)
    moreover have "f = \<lparr>fdata = encode_log es, durable = min ?k (durable f)\<rparr>"
      using True assms(2) f(2) by (cases f) simp
    ultimately show ?thesis
      using f(1,3) by (auto simp: replays_to_def)
  next
    case False
    then have "Replay l w = (Inr es, l, fs_put ?p \<lparr>fdata = encode_log es, durable = min ?k (durable f)\<rparr> w)"
      using assms(2,3) f(1,3) fl by (simp add: Replay_def os_ReadFile_def file_Truncate_def)
    then show ?thesis
      using f(3) by (auto simp: replays_to_def)
  qed
qed

lemma Replay_torn:
  assumes "\<forall>e \<in> set es. wf_entry e" "log_file l f w" "fdata f = take n (encode_log es)"
  shows "replays_to l f w (complete_records n es)"
proof (rule Replay_file [OF assms(2)])
  let ?rs = "complete_records n es"
  let ?rest = "drop (length (encode_log ?rs)) (take n (encode_log es))"
  show "fdata f = encode_log ?rs @ ?rest"
    using append_take_drop_id [of "length (encode_log ?rs)" "take n (encode_log es)"] length_complete_records [of n es]
    by (simp add: assms(3) min_absorb1 take_complete_records)
  have "?rest = [] \<longleftrightarrow> length (encode_log ?rs) = min n (length (encode_log es))"
    using arg_cong [OF \<open>fdata f = encode_log ?rs @ ?rest\<close>, of length] by (auto simp: assms(3) min_def)
  then show "replay_loop (fdata f) 0 [] = (?rs, if ?rest = [] then None else Some (length (encode_log ?rs)))"
    using replay_loop_torn [OF assms(1), of n 0 "[]"] by (simp add: assms(3))
qed

section \<open>Properties\<close>

text \<open>C18: Crash recovery of the log. Whatever number of bytes of a log of admissible entries reaches
  the disk, \<^verbatim>\<open>Replay\<close> returns exactly the entries whose records are complete, in order, and leaves a
  file that holds exactly their records: the bytes of a torn record are cut off. No other file
  changes. The log has nothing in its write buffer and no storage fault occurs during replay.\<close>

theorem replay_torn_log:
  assumes "\<forall>e \<in> set es. wf_entry e" "log_file l f w" "fdata f = take n (encode_log es)"
  shows "\<exists>w'. Replay l w = (Inr (complete_records n es), l, w') \<and> only_touches (bw_path (BufWriter l)) w w' \<and>
    fs_get w' (bw_path (BufWriter l)) =
      Some \<lparr>fdata = encode_log (complete_records n es),
            durable = min (length (encode_log (complete_records n es))) (durable f)\<rparr>"
  using Replay_torn [OF assms] by (auto simp: replays_to_def)

text \<open>A log with a path, opened on a file with given contents.\<close>

abbreviation sample_log :: WAL where
  "sample_log \<equiv> \<lparr>BufWriter = bw_new [1] None, putCounter = 0\<rparr>"

lemma sample_log_file: "log_file sample_log \<lparr>fdata = c, durable = 0\<rparr> (world_of [([1], \<lparr>fdata = c, durable = 0\<rparr>)])"
  by (simp add: log_file_def bw_new_def world_of_def fs_get_def)

theorem replay_torn_log_witness:
  "\<exists>w'. Replay sample_log (world_of [([1], \<lparr>fdata = take 20 (encode_log [Entry [1] [2], Entry [3] []]), durable = 0\<rparr>)]) =
     (Inr [Entry [1] [2]], sample_log, w') \<and>
   fs_get w' [1] = Some \<lparr>fdata = encode_record (Entry [1] [2]), durable = 0\<rparr>"
proof -
  have wf: "\<forall>e \<in> set [Entry [1] [2], Entry [3] []]. wf_entry e"
    by (simp add: wal_limits)
  have "complete_records 20 [Entry [1] [2], Entry [3] []] = [Entry [1] [2]]"
    by (simp add: length_encode_record)
  then show ?thesis
    using replay_torn_log [OF wf sample_log_file [of "take 20 (encode_log [Entry [1] [2], Entry [3] []])"], of 20] by (auto simp: bw_new_def)
qed

text \<open>C19: Corruption is detected and contained. If any one byte of a record's body or checksum is
  changed, \<^verbatim>\<open>Replay\<close> returns exactly the entries before that record and leaves a file that holds exactly
  their records, whatever bytes followed. No other file changes. The log has nothing in its write
  buffer and no storage fault occurs during replay.\<close>

theorem replay_corrupt_byte:
  assumes "\<forall>e \<in> set es. wf_entry e" "wf_entry e"
    and "4 \<le> i" "i < length (encode_record e)" "b \<noteq> encode_record e ! i"
    and "log_file l f w" "fdata f = encode_log es @ (encode_record e)[i := b] @ rest"
  shows "\<exists>w'. Replay l w = (Inr es, l, w') \<and> only_touches (bw_path (BufWriter l)) w w' \<and>
    fs_get w' (bw_path (BufWriter l)) =
      Some \<lparr>fdata = encode_log es, durable = min (length (encode_log es)) (durable f)\<rparr>"
proof -
  have "replay_loop (fdata f) 0 [] = (es, Some (length (encode_log es)))"
    using replay_loop_encode [OF assms(1)] replay_record_corrupt [OF assms(2-5)] by (simp add: assms(7) replay_loop_bad)
  moreover have "(encode_record e)[i := b] @ rest \<noteq> []"
    using assms(4) by auto
  ultimately show ?thesis
    using Replay_file [OF assms(6,7)] by (auto simp: replays_to_def)
qed

theorem replay_corrupt_byte_witness:
  "\<exists>w'. Replay sample_log
       (world_of [([1], \<lparr>fdata = encode_log [Entry [7] []] @ (encode_record (Entry [1] [2]))[12 := 9] @ [0, 0], durable = 0\<rparr>)]) =
     (Inr [Entry [7] []], sample_log, w') \<and>
   fs_get w' [1] = Some \<lparr>fdata = encode_record (Entry [7] []), durable = 0\<rparr>"
proof -
  have 1: "\<forall>e \<in> set [Entry [7] []]. wf_entry e" and 2: "wf_entry (Entry [1] [2])"
    by (simp_all add: wal_limits)
  have 3: "(12 :: nat) < length (encode_record (Entry [1] [2]))"
    by (simp add: length_encode_record)
  have "encode_record (Entry [1] [2]) ! 12 = 1"
    by (simp add: encode_record_def writeDataBuff_def nth_append)
  then have 4: "9 \<noteq> encode_record (Entry [1] [2]) ! 12"
    by simp
  show ?thesis
    using replay_corrupt_byte [OF 1 2 _ 3 4
        sample_log_file [of "encode_log [Entry [7] []] @ (encode_record (Entry [1] [2]))[12 := 9] @ [0, 0]"], of "[0, 0]"]
    by (auto simp: bw_new_def)
qed

text \<open>C20: Replay is idempotent. On a log with nothing left in its write buffer and no storage fault,
  a second replay after the first (which may have truncated a damaged tail) returns the same entries
  and changes nothing.\<close>

theorem Replay_idempotent:
  assumes "faults w = []" "bw_err (BufWriter l) = None" "bw_buf (BufWriter l) = []"
    and "Replay l w = (Inr es, l', w')"
  shows "Replay l' w' = (Inr es, l', w')"
proof -
  let ?b = "BufWriter l"
  have fl: "bw_Flush ?b v = ((None, ?b), v)" for v
    using assms(2,3) by (simp add: bw_Flush_def)
  from assms(4) obtain f where f: "fs_get w (bw_path ?b) = Some f"
    by (auto simp: Replay_def fl os_ReadFile_def split: option.splits)
  obtain off where r: "replay_loop (fdata f) 0 [] = (es, off)" and l': "l' = l"
    using assms(4) f by (auto simp: Replay_def fl os_ReadFile_def split: prod.splits option.splits)
  show ?thesis
  proof (cases off)
    case None
    with assms(4) f r have "w' = w"
      by (simp add: Replay_def fl os_ReadFile_def)
    with assms(4) l' show ?thesis by simp
  next
    case (Some n)
    with r have t: "n \<le> length (fdata f)" "replay_loop (take n (fdata f)) 0 [] = (es, None)"
      using replay_loop_truncated [of "fdata f" 0 "[]" es n] by auto
    with assms(1,4) f r Some have "w' = fs_put (bw_path ?b) \<lparr>fdata = take n (fdata f), durable = min n (durable f)\<rparr> w"
      by (auto simp: Replay_def fl os_ReadFile_def file_Truncate_def)
    with t l' show ?thesis
      by (simp add: Replay_def fl os_ReadFile_def)
  qed
qed

theorem Replay_idempotent_witness:
  "let w = world_of [([1], \<lparr>fdata = [9], durable = 1\<rparr>)];
       l = \<lparr>BufWriter = bw_new [1] None, putCounter = 0\<rparr>;
       w' = snd (snd (Replay l w))
   in w' \<noteq> w \<and> Replay l w' = (Inr [], l, w')"
proof -
  let ?w = "world_of [([1], \<lparr>fdata = [9], durable = 1\<rparr>)]"
  let ?l = "\<lparr>BufWriter = bw_new [1] None, putCounter = 0\<rparr>"
  let ?w' = "world_of [([1], \<lparr>fdata = [], durable = 0\<rparr>)]"
  have "replay_record [9] = ReplayBad"
    by (simp add: replay_record_def read_u32_def ReadFull_def)
  then have r: "Replay ?l ?w = (Inr [], ?l, ?w')"
    by (simp add: Replay_def bw_Flush_def bw_new_def os_ReadFile_def fs_get_def file_Truncate_def
        replay_loop_bad fs_put_def world_of_def)
  have "Replay ?l ?w' = (Inr [], ?l, ?w')"
    using Replay_idempotent [OF _ _ _ r] by (simp add: bw_new_def world_of_def)
  then show ?thesis
    unfolding Let_def r by (simp add: world_of_def)
qed

text \<open>C21: Bounded loss. Take any run of writes to a fresh log, under any schedule of storage faults,
  whose last write was acknowledged. If the machine then loses power, so that only some prefix of
  the file survives that contains everything synced, replay recovers a prefix of the written entries
  that misses at most the last nine (fewer than \<open>DEFAULT_SYNC_THRESHOLD\<close>).\<close>

theorem acknowledged_writes_survive:
  assumes "wal_inv [] l w" "\<forall>e \<in> set es. wf_entry e" "es \<noteq> []"
    and "wal_writes es l w = (errs, l', w')" "last errs = None"
    and "fs_get w' (bw_path (BufWriter l')) = Some f" "durable f \<le> n"
  shows "\<exists>rs off. replay_loop (take n (fdata f)) 0 [] = (rs, off) \<and> prefix rs es \<and>
    length es < length rs + DEFAULT_SYNC_THRESHOLD"
proof -
  have inv: "wal_inv es l' w'" "bw_err (BufWriter l') = None" "putCounter l' < DEFAULT_SYNC_THRESHOLD"
    using wal_inv_writes [OF assms(1,4)] assms(3,5) by auto
  with assms(6) have log: "fdata f @ bw_buf (BufWriter l') = encode_log es"
    and dur: "length (encode_log (take (length es - putCounter l') es)) \<le> durable f"
    "durable f \<le> length (fdata f)"
    by (auto simp: wal_inv_def)
  let ?m = "min n (length (fdata f))"
  have "take n (fdata f) = take ?m (encode_log es)"
    unfolding log [symmetric] by (simp add: min_def)
  then have "\<exists>off. replay_loop (take n (fdata f)) 0 [] = (complete_records ?m es, off)"
    using replay_loop_torn [OF assms(2), of ?m 0 "[]"] by simp
  moreover have "length es - putCounter l' \<le> length (complete_records ?m es)"
    using dur assms(7) by (intro complete_records_ge) auto
  ultimately show ?thesis
    using complete_records_prefix inv(3) by fastforce
qed

theorem acknowledged_writes_survive_witness:
  "let w = world_of [([1], \<lparr>fdata = [], durable = 0\<rparr>)];
       l = \<lparr>BufWriter = bw_new [1] None, putCounter = 0\<rparr>;
       (errs, l', w') = wal_writes [Entry [5] [6]] l w
   in errs = [None] \<and>
      (\<exists>rs off. replay_loop (take 3 (fdata (the (fs_get w' [1])))) 0 [] = (rs, off) \<and>
        prefix rs [Entry [5] [6]] \<and> length [Entry [5] [6]] < length rs + DEFAULT_SYNC_THRESHOLD)"
proof -
  let ?w = "world_of [([1], \<lparr>fdata = [], durable = 0\<rparr>)]"
  let ?l = "\<lparr>BufWriter = bw_new [1] None, putCounter = 0\<rparr>"
  obtain errs l' w' where r: "wal_writes [Entry [5] [6]] ?l ?w = (errs, l', w')"
    by (metis surj_pair)
  then have e: "errs = [None]" and f: "fs_get w' (bw_path (BufWriter l')) = Some \<lparr>fdata = [], durable = 0\<rparr>"
    and p: "bw_path (BufWriter l') = [1]"
    by (auto simp: wal_write_def Append_def wal_buf_write_def bw_Write_def bw_Write_fit_def bw_new_def
        bw_Available_def bw_size_def DEFAULT_SYNC_THRESHOLD_def world_of_def fs_get_def Let_def
        length_writeDataBuff)
  have i: "wal_inv [] ?l ?w"
    by (simp add: wal_inv_def bw_new_def world_of_def fs_get_def)
  have "\<forall>e \<in> set [Entry [5] [6]]. wf_entry e"
    by (simp add: wal_limits)
  note acknowledged_writes_survive [OF i this _ r _ f, of 3]
  with e f p show ?thesis
    unfolding Let_def r by simp
qed

text \<open>C22: No fault corrupts the log. After any run of writes to a fresh log under any schedule of
  storage faults (torn writes, failing syncs, a process that dies), replay of the file returns a
  prefix of the entries handed to it: never a reordered, invented or partial entry.\<close>

theorem log_replays_prefix_under_faults:
  assumes "wal_inv [] l w" "\<forall>e \<in> set es. wf_entry e"
    and "wal_writes es l w = (errs, l', w')"
    and "fs_get w' (bw_path (BufWriter l')) = Some f"
  shows "\<exists>rs off. replay_loop (fdata f) 0 [] = (rs, off) \<and> prefix rs es"
proof -
  have "wal_inv es l' w'"
    using wal_inv_writes [OF assms(1,3)] by simp
  with assms(4) have "prefix (fdata f) (encode_log es)"
    by (auto simp: wal_inv_def split: if_splits) (metis prefixI)
  then obtain n where "fdata f = take n (encode_log es)"
    by (metis append_eq_conv_conj prefix_def)
  then show ?thesis
    using replay_loop_torn [OF assms(2), of n 0 "[]"] complete_records_prefix by simp
qed

theorem log_replays_prefix_under_faults_witness:
  "let w = (world_of [([1], \<lparr>fdata = [], durable = 0\<rparr>)])\<lparr>faults := [Some 5]\<rparr>;
       l = \<lparr>BufWriter = bw_new [1] None, putCounter = 9\<rparr>;
       (errs, l', w') = wal_writes [Entry [5] [6]] l w
   in errs = [Some ErrIO] \<and> length (fdata (the (fs_get w' [1]))) = 5 \<and>
      (\<exists>rs off. replay_loop (fdata (the (fs_get w' [1]))) 0 [] = (rs, off) \<and> prefix rs [Entry [5] [6]])"
proof -
  let ?w = "(world_of [([1], \<lparr>fdata = [], durable = 0\<rparr>)])\<lparr>faults := [Some 5]\<rparr>"
  let ?l = "\<lparr>BufWriter = bw_new [1] None, putCounter = 9\<rparr>"
  obtain errs l' w' where r: "wal_writes [Entry [5] [6]] ?l ?w = (errs, l', w')"
    by (metis surj_pair)
  let ?f = "\<lparr>fdata = take 5 (encode_record (Entry [5] [6])), durable = 0\<rparr>"
  from r have e: "errs = [Some ErrIO]" and f: "fs_get w' (bw_path (BufWriter l')) = Some ?f"
    and p: "bw_path (BufWriter l') = [1]"
    by (auto simp: wal_write_def Append_def wal_buf_write_def bw_Write_def bw_Write_fit_def bw_new_def
        bw_Available_def bw_size_def DEFAULT_SYNC_THRESHOLD_def world_of_def fs_get_def Let_def
        length_writeDataBuff wal_Sync_def bw_Flush_def bw_raw_def file_Write_def sys_fault_def
        fs_put_def encode_record_def min_def overwrite_def)
  have i: "wal_inv [] ?l ?w"
    by (simp add: wal_inv_def bw_new_def world_of_def fs_get_def)
  have "\<forall>e \<in> set [Entry [5] [6]]. wf_entry e"
    by (simp add: wal_limits)
  note log_replays_prefix_under_faults [OF i this r f]
  with e f p show ?thesis
    unfolding Let_def r by (simp add: length_encode_record)
qed

end
