(* ===== verification/Watermark.thy ===== *)
theory Watermark
  imports Internal_Key "HOL-Library.AList"
begin

text \<open>
  Model of \<^verbatim>\<open>internal/base/watermark.go\<close>: the reference-counted registry of pinned snapshots. The Go map
  is an association list, whose order stands for Go's unspecified map iteration order. The locale
  \<open>snapshot_registry\<close> is the contract compaction relies on; it is interpreted on the model.
\<close>

section \<open>Definitions\<close>

record Watermark =
  active :: "(SeqNum \<times> int) list"

definition NewWatermark :: Watermark where
  "NewWatermark = \<lparr>active = []\<rparr>"

text \<open>Reading a missing key of a Go map gives the zero value.\<close>

definition refcount :: "Watermark \<Rightarrow> SeqNum \<Rightarrow> int" where
  "refcount w seq = (case map_of (active w) seq of None \<Rightarrow> 0 | Some n \<Rightarrow> n)"

definition Begin :: "SeqNum \<Rightarrow> Watermark \<Rightarrow> Watermark" where
  "Begin seq w = w\<lparr>active := AList.update seq (refcount w seq + 1) (active w)\<rparr>"

definition Done :: "SeqNum \<Rightarrow> Watermark \<Rightarrow> Watermark" where
  "Done seq w =
     (if refcount w seq \<le> 1 then w\<lparr>active := AList.delete seq (active w)\<rparr>
      else w\<lparr>active := AList.update seq (refcount w seq - 1) (active w)\<rparr>)"

definition Floor :: "Watermark \<Rightarrow> SeqNum" where
  "Floor w = foldl (\<lambda>floor seq. if seq < floor then seq else floor) SeqNumMax (map fst (active w))"

text \<open>Invariant: one entry per sequence number, every stored count positive.\<close>

definition watermark_inv :: "Watermark \<Rightarrow> bool" where
  "watermark_inv w \<longleftrightarrow> distinct (map fst (active w)) \<and> (\<forall>(s, n) \<in> set (active w). 1 \<le> n)"

datatype pin_event = PinEv SeqNum | UnpinEv SeqNum

fun wm_step :: "pin_event \<Rightarrow> Watermark \<Rightarrow> Watermark" where
  "wm_step (PinEv s) w = Begin s w"
| "wm_step (UnpinEv s) w = Done s w"

section \<open>The interface compaction relies on\<close>

locale snapshot_registry =
  fixes empty :: 'w
    and pin :: "SeqNum \<Rightarrow> 'w \<Rightarrow> 'w"
    and unpin :: "SeqNum \<Rightarrow> 'w \<Rightarrow> 'w"
    and floor :: "'w \<Rightarrow> SeqNum"
    and pins :: "'w \<Rightarrow> SeqNum \<Rightarrow> nat"
    and invar :: "'w \<Rightarrow> bool"
  assumes invar_empty: "invar empty"
    and invar_pin: "invar w \<Longrightarrow> invar (pin s w)"
    and invar_unpin: "invar w \<Longrightarrow> invar (unpin s w)"
    and pins_empty: "pins empty t = 0"
    and pins_pin: "invar w \<Longrightarrow> pins (pin s w) t = (if t = s then Suc (pins w t) else pins w t)"
    and pins_unpin: "invar w \<Longrightarrow> pins (unpin s w) t = (if t = s then pins w t - 1 else pins w t)"
    and floor_le_pinned: "invar w \<Longrightarrow> 0 < pins w s \<Longrightarrow> floor w \<le> s"
    and floor_attained: "invar w \<Longrightarrow> floor w \<noteq> SeqNumMax \<Longrightarrow> 0 < pins w (floor w)"
begin

definition reg_step :: "pin_event \<Rightarrow> 'w \<Rightarrow> 'w" where
  "reg_step e w = (case e of PinEv s \<Rightarrow> pin s w | UnpinEv s \<Rightarrow> unpin s w)"

definition reg_run :: "pin_event list \<Rightarrow> 'w \<Rightarrow> 'w" where
  "reg_run es w = fold reg_step es w"

lemma invar_run: "invar w \<Longrightarrow> invar (reg_run es w)"
  by (induction es arbitrary: w)
    (auto simp: reg_run_def reg_step_def invar_pin invar_unpin split: pin_event.splits)

lemma pins_run:
  assumes "invar w"
  shows "pins w s + count_list es (PinEv s) \<le> pins (reg_run es w) s + count_list es (UnpinEv s)"
  using assms
proof (induction es arbitrary: w)
  case Nil
  then show ?case by (simp add: reg_run_def)
next
  case (Cons e es)
  have "invar (reg_step e w)"
    using Cons.prems by (auto simp: reg_step_def invar_pin invar_unpin split: pin_event.splits)
  note IH = Cons.IH [OF this]
  have "reg_run (e # es) w = reg_run es (reg_step e w)"
    by (simp add: reg_run_def)
  with IH Cons.prems show ?case
    by (cases e) (auto simp: reg_step_def pins_pin pins_unpin split: if_splits)
qed

lemma floor_run:
  assumes "count_list es (UnpinEv s) < count_list es (PinEv s)"
  shows "floor (reg_run es empty) \<le> s"
proof -
  have "0 < pins (reg_run es empty) s"
    using pins_run [OF invar_empty, of s es] assms by (simp add: pins_empty)
  then show ?thesis
    by (intro floor_le_pinned invar_run invar_empty)
qed

end

section \<open>Lemmas\<close>

lemma refcount_Begin [simp]:
  "refcount (Begin s w) t = (if t = s then refcount w t + 1 else refcount w t)"
  by (simp add: refcount_def Begin_def update_conv')

lemma refcount_nonneg: "watermark_inv w \<Longrightarrow> 0 \<le> refcount w s"
  by (fastforce simp: refcount_def watermark_inv_def split: option.splits dest: map_of_SomeD)

lemma refcount_Done:
  assumes "watermark_inv w"
  shows "nat (refcount (Done s w) t) = (if t = s then nat (refcount w t) - 1 else nat (refcount w t))"
  using refcount_nonneg [OF assms, of s]
  by (auto simp: refcount_def Done_def update_conv' delete_conv')

lemma watermark_inv_iff:
  "watermark_inv w \<longleftrightarrow>
     distinct (map fst (active w)) \<and> (\<forall>s n. map_of (active w) s = Some n \<longrightarrow> 1 \<le> n)"
  by (auto simp: watermark_inv_def)

lemma watermark_inv_NewWatermark: "watermark_inv NewWatermark"
  by (simp add: watermark_inv_def NewWatermark_def)

lemma watermark_inv_Begin:
  assumes "watermark_inv w"
  shows "watermark_inv (Begin s w)"
  using assms refcount_nonneg [OF assms, of s]
  by (auto simp: watermark_inv_iff Begin_def distinct_update update_conv')

lemma watermark_inv_Done:
  assumes "watermark_inv w"
  shows "watermark_inv (Done s w)"
  using assms
  by (auto simp: watermark_inv_iff Done_def distinct_update update_conv' distinct_delete
      delete_conv' simp del: map_of_eq_Some_iff split: if_splits)

lemma refcount_pos_iff:
  assumes "watermark_inv w"
  shows "0 < refcount w s \<longleftrightarrow> s \<in> fst ` set (active w)"
proof (cases "map_of (active w) s")
  case None
  then show ?thesis
    using map_of_eq_None_iff [of "active w" s] by (simp add: refcount_def)
next
  case (Some n)
  then have "1 \<le> n" and "s \<in> fst ` set (active w)"
    using assms by (auto simp: watermark_inv_iff rev_image_eqI dest: map_of_SomeD)
  with Some show ?thesis by (simp add: refcount_def)
qed

lemma foldl_min:
  "foldl (\<lambda>floor seq. if seq < floor then seq else floor) (a :: 'a::linorder) xs = Min (insert a (set xs))"
proof (induction xs arbitrary: a)
  case (Cons x xs)
  have "(if x < a then x else a) = min x a"
    by (simp add: min_def less_le)
  with Cons show ?case
    by (cases "set xs = {}") (simp_all add: insert_commute min.assoc min.commute min.left_commute)
qed simp

lemma Floor_eq_Min: "Floor w = Min (insert SeqNumMax (fst ` set (active w)))"
  by (simp add: Floor_def foldl_min)

interpretation wm: snapshot_registry NewWatermark Begin Done Floor "\<lambda>w s. nat (refcount w s)" watermark_inv
proof (unfold_locales, goal_cases)
  case 1
  show ?case by (rule watermark_inv_NewWatermark)
next
  case (2 w s)
  then show ?case by (rule watermark_inv_Begin)
next
  case (3 w s)
  then show ?case by (rule watermark_inv_Done)
next
  case (4 t)
  show ?case by (simp add: refcount_def NewWatermark_def)
next
  case (5 w s t)
  then show ?case using refcount_nonneg [of w s] by auto
next
  case (6 w s t)
  then show ?case by (rule refcount_Done)
next
  case (7 w s)
  then show ?case by (auto simp: Floor_eq_Min refcount_pos_iff intro: Min_le)
next
  case (8 w)
  have "Floor w \<in> insert SeqNumMax (fst ` set (active w))"
    unfolding Floor_eq_Min by (rule Min_in) auto
  with 8 show ?case by (auto simp: refcount_pos_iff)
qed

section \<open>Properties\<close>

text \<open>C25: A pinned snapshot holds the floor down. After any sequence of pins and unpins, in any
  interleaving, a sequence number that has been pinned more often than unpinned is at or above the
  floor, so compaction never treats it as unobserved; and the floor is never lower than needed: it
  is a pinned sequence number or, with nothing pinned, the greatest one.\<close>

theorem Floor_protects_snapshots:
  "(count_list es (UnpinEv s) < count_list es (PinEv s) \<longrightarrow> Floor (fold wm_step es NewWatermark) \<le> s) \<and>
   (Floor (fold wm_step es NewWatermark) = SeqNumMax \<or>
    refcount (fold wm_step es NewWatermark) (Floor (fold wm_step es NewWatermark)) > 0)"
proof -
  have "wm.reg_step = wm_step"
    by (intro ext) (auto simp: wm.reg_step_def split: pin_event.splits)
  then have run: "wm.reg_run es NewWatermark = fold wm_step es NewWatermark"
    by (simp add: wm.reg_run_def)
  show ?thesis
    using wm.floor_run [of es s] wm.floor_attained [OF wm.invar_run [OF wm.invar_empty], of es]
    unfolding run by auto
qed

theorem Floor_protects_snapshots_witness:
  "Floor (fold wm_step [PinEv 7, PinEv 5, PinEv 5, UnpinEv 5] NewWatermark) = 5"
proof -
  let ?es = "[PinEv 7, PinEv 5, PinEv 5, UnpinEv 5]"
  have "Floor (fold wm_step ?es NewWatermark) \<le> 5"
    using Floor_protects_snapshots [of ?es 5] by simp
  moreover have "5 \<le> Floor (fold wm_step ?es NewWatermark)"
    by (simp add: Floor_def NewWatermark_def Begin_def Done_def refcount_def SeqNumMax_def)
  ultimately show ?thesis by simp
qed

end
