(* ===== verification/Sstable_Format.thy ===== *)
theory Sstable_Format
  imports Internal_Key Go_Hash Hcdb_Config Buffered_Output
begin

text \<open>
  Model of \<^verbatim>\<open>sstable/block.go\<close>, \<^verbatim>\<open>sstable/index.go\<close> and the entry types: the encodings of blocks, index and
  footer, and the binary search of the index. Writing into a \<^verbatim>\<open>bytes.Buffer\<close> never fails; writing to the
  buffered file writer is a \<open>bw_prog\<close>. Offsets and lengths are the signed machine integers of the
  Go code, kept as words; a \<^verbatim>\<open>Seek\<close> to a negative offset fails.
\<close>

section \<open>Definitions\<close>

type_synonym i64 = "64 word"
type_synonym i32 = "32 word"

datatype BlockEntry = BlockEntry (be_Key: bytes) (be_Value: bytes)

datatype IndexEntry = IndexEntry (FirstKey: bytes) (Offset: i64) (Length: i32)

subsection \<open>Blocks\<close>

definition writeBlockEntry :: "BlockEntry \<Rightarrow> bytes \<Rightarrow> bytes" where
  "writeBlockEntry e buf =
     buf @ PutUint32 (word_of_nat (length (be_Key e))) @ PutUint32 (word_of_nat (length (be_Value e))) @
     be_Key e @ be_Value e"

definition encodeBlock :: "BlockEntry list \<Rightarrow> bytes" where
  "encodeBlock entries =
     (let buf = fold writeBlockEntry entries (PutUint32 (word_of_nat (length entries)));
          crc = ChecksumIEEE buf
      in buf @ PutUint32 crc)"

definition readBlockEntry :: "BlockEntry reader" where
  "readBlockEntry r =
     (case read_u32 r of
        Inl e \<Rightarrow> Inl e
      | Inr (keyLen, r1) \<Rightarrow>
          (case read_u32 r1 of
             Inl e \<Rightarrow> Inl e
           | Inr (valLen, r2) \<Rightarrow>
               (case ReadFull (unat keyLen) r2 of
                  Inl e \<Rightarrow> Inl e
                | Inr (key, r3) \<Rightarrow>
                    (case ReadFull (unat valLen) r3 of
                       Inl e \<Rightarrow> Inl e
                     | Inr (val, r4) \<Rightarrow> Inr (BlockEntry key val, r4)))))"

text \<open>The loop that reads a given number of items and gives up at the first error.\<close>

fun read_many :: "'a reader \<Rightarrow> nat \<Rightarrow> 'a list \<Rightarrow> 'a list reader" where
  "read_many rd 0 acc r = Inr (acc, r)"
| "read_many rd (Suc n) acc r =
     (case rd r of Inl e \<Rightarrow> Inl e | Inr (x, r') \<Rightarrow> read_many rd n (acc @ [x]) r')"

definition decodeBlock :: "bytes \<Rightarrow> go_error + BlockEntry list" where
  "decodeBlock blockBytes =
     (if length blockBytes < 4 then Inl (ErrMsg (lit ''block too small''))
      else
        (let data = take (length blockBytes - 4) blockBytes;
             storedCRC = Uint32 (drop (length blockBytes - 4) blockBytes)
         in if ChecksumIEEE data \<noteq> storedCRC then Inl (ErrMsg (lit ''block CRC mismatch''))
            else (case read_u32 data of
                    Inl e \<Rightarrow> Inl e
                  | Inr (numEntries, reader) \<Rightarrow>
                      (case read_many readBlockEntry (unat numEntries) [] reader of
                         Inl e \<Rightarrow> Inl e
                       | Inr (entries, _) \<Rightarrow> Inr entries))))"

subsection \<open>Index and footer\<close>

fun encodeIndex :: "IndexEntry list \<Rightarrow> bw_prog" where
  "encodeIndex [] = bw_skip"
| "encodeIndex (idx # entries) =
     bw_seq (bw_put (PutUint32 (word_of_nat (length (FirstKey idx)))))
       (bw_seq (bw_put (FirstKey idx))
         (bw_seq (bw_put (PutUint64 (Offset idx)))
           (bw_seq (bw_put (PutUint32 (Length idx))) (encodeIndex entries))))"

definition readIndexEntry :: "IndexEntry reader" where
  "readIndexEntry r =
     (case read_u32 r of
        Inl e \<Rightarrow> Inl e
      | Inr (keyLen, r1) \<Rightarrow>
          (case ReadFull (unat keyLen) r1 of
             Inl e \<Rightarrow> Inl e
           | Inr (key, r2) \<Rightarrow>
               (case read_u64 r2 of
                  Inl e \<Rightarrow> Inl e
                | Inr (offset, r3) \<Rightarrow>
                    (case read_u32 r3 of
                       Inl e \<Rightarrow> Inl e
                     | Inr (len, r4) \<Rightarrow> Inr (IndexEntry key offset len, r4)))))"

definition seek_start :: "bytes \<Rightarrow> i64 \<Rightarrow> go_error + bytes" where
  "seek_start content off = (if sint off < 0 then Inl ErrIO else Inr (drop (nat (sint off)) content))"

definition seek_end :: "bytes \<Rightarrow> nat \<Rightarrow> go_error + bytes" where
  "seek_end content n = (if length content < n then Inl ErrIO else Inr (drop (length content - n) content))"

definition decodeIndex :: "bytes \<Rightarrow> i64 \<Rightarrow> u32 \<Rightarrow> go_error + IndexEntry list" where
  "decodeIndex content indexOffset numEntries =
     (case seek_start content indexOffset of
        Inl e \<Rightarrow> Inl e
      | Inr r \<Rightarrow>
          (case read_many readIndexEntry (unat numEntries) [] r of
             Inl e \<Rightarrow> Inl e
           | Inr (index, _) \<Rightarrow> Inr index))"

definition encodeFooter :: "i64 \<Rightarrow> u32 \<Rightarrow> bw_prog" where
  "encodeFooter indexOffset numEntries =
     bw_seq (bw_put (PutUint64 indexOffset)) (bw_put (PutUint32 numEntries))"

definition readFooter :: "bytes \<Rightarrow> go_error + i64 \<times> u32" where
  "readFooter content =
     (case seek_end content 12 of
        Inl e \<Rightarrow> Inl e
      | Inr r \<Rightarrow>
          (case read_u64 r of
             Inl e \<Rightarrow> Inl e
           | Inr (indexOffset, r1) \<Rightarrow>
               (case read_u32 r1 of Inl e \<Rightarrow> Inl e | Inr (numEntries, _) \<Rightarrow> Inr (indexOffset, numEntries))))"

definition encodeFooterWithBloom :: "i64 \<Rightarrow> u32 \<Rightarrow> i64 \<Rightarrow> bw_prog" where
  "encodeFooterWithBloom indexOffset numEntries bloomOffset =
     bw_seq (bw_put (PutUint64 indexOffset))
       (bw_seq (bw_put (PutUint32 numEntries)) (bw_put (PutUint64 bloomOffset)))"

definition readFooterWithBloom :: "bytes \<Rightarrow> go_error + i64 \<times> u32 \<times> i64" where
  "readFooterWithBloom content =
     (case seek_end content 20 of
        Inl e \<Rightarrow> Inl e
      | Inr r \<Rightarrow>
          (case read_u64 r of
             Inl e \<Rightarrow> Inl e
           | Inr (indexOffset, r1) \<Rightarrow>
               (case read_u32 r1 of
                  Inl e \<Rightarrow> Inl e
                | Inr (numEntries, r2) \<Rightarrow>
                    (case read_u64 r2 of
                       Inl e \<Rightarrow> Inl e
                     | Inr (bloomOffset, _) \<Rightarrow> Inr (indexOffset, numEntries, bloomOffset)))))"

text \<open>The loop of \<^verbatim>\<open>searchIndex\<close>; \<open>hi\<close> and \<open>result\<close> can be \<open>-1\<close>.\<close>

function search_loop :: "IndexEntry list \<Rightarrow> InternalKey \<Rightarrow> int \<Rightarrow> int \<Rightarrow> int \<Rightarrow> int" where
  "search_loop index target lo hi result =
     (if lo \<le> hi
      then (let mid = (lo + hi) div 2;
                firstKey = DecodeInternalKey (FirstKey (index ! nat mid))
            in if InternalCompare bytes_Compare firstKey target \<le> 0
               then search_loop index target (mid + 1) hi mid
               else search_loop index target lo (mid - 1) result)
      else result)"
  by pat_completeness auto
termination
  by (relation "measure (\<lambda>(index, target, lo, hi, result). nat (hi + 1 - lo))") auto

declare search_loop.simps [simp del]

definition searchIndex :: "IndexEntry list \<Rightarrow> bytes \<Rightarrow> int" where
  "searchIndex index key =
     (let target = DecodeInternalKey key
      in search_loop index target 0 (int (length index) - 1) (-1))"

subsection \<open>Byte images\<close>

definition entry_bytes :: "BlockEntry \<Rightarrow> bytes" where
  "entry_bytes e = writeBlockEntry e []"

definition index_bytes :: "IndexEntry \<Rightarrow> bytes" where
  "index_bytes idx =
     PutUint32 (word_of_nat (length (FirstKey idx))) @ FirstKey idx @ PutUint64 (Offset idx) @ PutUint32 (Length idx)"

text \<open>Lengths that fit the 32-bit fields.\<close>

definition entry_fits :: "BlockEntry \<Rightarrow> bool" where
  "entry_fits e \<longleftrightarrow> length (be_Key e) < 2 ^ 32 \<and> length (be_Value e) < 2 ^ 32"

section \<open>Lemmas\<close>

lemma unat_of_nat_u32 [simp]: "n < 2 ^ 32 \<Longrightarrow> unat (word_of_nat n :: u32) = n"
  by (simp add: unat_of_nat)

subsection \<open>Reading what was written\<close>

lemma read_many_append:
  assumes "\<And>x s. x \<in> set xs \<Longrightarrow> rd (enc x @ s) = Inr (x, s)"
  shows "read_many rd (length xs) acc (concat (map enc xs) @ s) = Inr (acc @ xs, s)"
  using assms by (induction xs arbitrary: acc) simp_all

lemma readBlockEntry_append:
  "entry_fits e \<Longrightarrow> readBlockEntry (entry_bytes e @ s) = Inr (e, s)"
  by (cases e) (simp add: readBlockEntry_def entry_bytes_def writeBlockEntry_def entry_fits_def enc_simps)

lemma readIndexEntry_append:
  "length (FirstKey idx) < 2 ^ 32 \<Longrightarrow> readIndexEntry (index_bytes idx @ s) = Inr (idx, s)"
  by (cases idx) (simp add: readIndexEntry_def index_bytes_def enc_simps)

lemma fold_writeBlockEntry: "fold writeBlockEntry es buf = buf @ concat (map entry_bytes es)"
  by (induction es arbitrary: buf) (simp_all add: entry_bytes_def writeBlockEntry_def)

lemma encodeBlock_eq:
  "encodeBlock es =
    (let d = PutUint32 (word_of_nat (length es)) @ concat (map entry_bytes es) in d @ PutUint32 (ChecksumIEEE d))"
  by (simp add: encodeBlock_def fold_writeBlockEntry Let_def)

lemma decodeBlock_sealed:
  "decodeBlock (d @ PutUint32 (ChecksumIEEE d)) =
    (case read_u32 d of
       Inl e \<Rightarrow> Inl e
     | Inr (numEntries, reader) \<Rightarrow>
         (case read_many readBlockEntry (unat numEntries) [] reader of Inl e \<Rightarrow> Inl e | Inr (entries, _) \<Rightarrow> Inr entries))"
  by (simp add: decodeBlock_def)

lemma decodeBlock_encodeBlock:
  assumes "list_all entry_fits es" "length es < 2 ^ 32"
  shows "decodeBlock (encodeBlock es) = Inr es"
proof -
  have "read_many readBlockEntry (length es) [] (concat (map entry_bytes es) @ []) = Inr ([] @ es, [])"
    using assms(1) by (intro read_many_append) (simp add: readBlockEntry_append list_all_iff)
  then show ?thesis
    using assms(2) by (simp add: encodeBlock_eq Let_def decodeBlock_sealed enc_simps del: append_assoc)
qed

lemma decodeIndex_append:
  assumes "sint off = int (length pre)" "list_all (\<lambda>idx. length (FirstKey idx) < 2 ^ 32) index" "length index < 2 ^ 32"
  shows "decodeIndex (pre @ concat (map index_bytes index) @ s) off (word_of_nat (length index)) = Inr index"
proof -
  have "read_many readIndexEntry (length index) [] (concat (map index_bytes index) @ s) = Inr ([] @ index, s)"
    using assms(2) by (intro read_many_append) (simp add: readIndexEntry_append list_all_iff)
  then show ?thesis
    using assms(1,3) by (simp add: decodeIndex_def seek_start_def)
qed

lemma readFooterWithBloom_append:
  "readFooterWithBloom (s @ PutUint64 i @ PutUint32 n @ PutUint64 b) = Inr (i, n, b)"
  by (simp add: readFooterWithBloom_def seek_end_def enc_simps)
    (metis append_Nil2 read_u64_append sum.case(2) prod.case)

lemma readFooter_append: "readFooter (s @ PutUint64 i @ PutUint32 n) = Inr (i, n)"
  by (simp add: readFooter_def seek_end_def enc_simps)
    (metis append_Nil2 read_u32_append sum.case(2) prod.case)

subsection \<open>Writing\<close>

lemma outputs_encodeIndex: "outputs p (concat (map index_bytes index)) (encodeIndex index)"
proof (induction index)
  case Nil
  show ?case by (simp add: outputs_skip)
next
  case (Cons idx index)
  show ?case
    unfolding encodeIndex.simps list.map concat.simps index_bytes_def [of idx] append_assoc
    by (intro outputs_seq outputs_put Cons.IH)
qed

lemma outputs_encodeFooterWithBloom:
  "outputs p (PutUint64 i @ PutUint32 n @ PutUint64 b) (encodeFooterWithBloom i n b)"
  unfolding encodeFooterWithBloom_def by (intro outputs_seq outputs_put)

subsection \<open>Binary search\<close>

text \<open>What the loop establishes for any index sorted by first key.\<close>

definition index_sorted :: "IndexEntry list \<Rightarrow> bool" where
  "index_sorted index \<longleftrightarrow> sorted_wrt (<) (map (\<lambda>idx. DecodeInternalKey (FirstKey idx)) index)"

lemma index_sorted_nth:
  "index_sorted index \<Longrightarrow> i < j \<Longrightarrow> j < length index \<Longrightarrow>
    DecodeInternalKey (FirstKey (index ! i)) < DecodeInternalKey (FirstKey (index ! j))"
  unfolding index_sorted_def sorted_wrt_map by (rule sorted_wrt_nth_less)

lemma search_loop_spec:
  assumes "index_sorted index" "0 \<le> lo" "hi < int (length index)" "result = lo - 1"
    and "\<And>i. 0 \<le> i \<Longrightarrow> i < lo \<Longrightarrow> DecodeInternalKey (FirstKey (index ! nat i)) \<le> target"
    and "\<And>i. hi < i \<Longrightarrow> i < int (length index) \<Longrightarrow> target < DecodeInternalKey (FirstKey (index ! nat i))"
    and "lo \<le> hi + 1"
  shows "let r = search_loop index target lo hi result
    in -1 \<le> r \<and> r < int (length index) \<and>
       (\<forall>i < length index. DecodeInternalKey (FirstKey (index ! i)) \<le> target \<longleftrightarrow> int i \<le> r)"
  using assms
proof (induction index target lo hi result rule: search_loop.induct)
  case (1 index target lo hi result)
  let ?key = "\<lambda>i. DecodeInternalKey (FirstKey (index ! nat i))"
  show ?case
  proof (cases "lo \<le> hi")
    case False
    then have "search_loop index target lo hi result = lo - 1"
      using 1(6) by (subst search_loop.simps) simp
    moreover have "hi = lo - 1"
      using False 1(9) by simp
    moreover have "?key (int i) \<le> target \<longleftrightarrow> int i \<le> lo - 1" if "i < length index" for i
      using 1(7) [of "int i"] 1(8) [of "int i"] that \<open>hi = lo - 1\<close> by (cases "int i < lo") auto
    ultimately show ?thesis
      using 1(4,5) by simp
  next
    case True
    define mid where "mid = (lo + hi) div 2"
    have mid: "lo \<le> mid" "mid \<le> hi"
      using True by (auto simp: mid_def)
    then have bound: "0 \<le> mid" "nat mid < length index"
      using 1(4,5) by auto
    show ?thesis
    proof (cases "?key mid \<le> target")
      case le: True
      have step: "search_loop index target lo hi result = search_loop index target (mid + 1) hi mid"
        using True le by (subst search_loop.simps) (simp add: Let_def mid_def order_simps)
      have low: "?key i \<le> target" if "0 \<le> i" "i < mid + 1" for i
      proof (cases "i = mid")
        case False
        then have "nat i < nat mid"
          using that bound by auto
        then show ?thesis
          using index_sorted_nth [OF 1(3) _ bound(2)] le by (meson less_imp_le order_trans)
      qed (use le in simp)
      have cmp: "InternalCompare bytes_Compare (?key mid) target \<le> 0"
        using le by (simp add: order_simps)
      show ?thesis
        unfolding step by (rule 1(1) [OF True mid_def refl cmp 1(3) _ 1(5) _ low 1(8)]) (use bound mid in auto)
    next
      case gt: False
      have step: "search_loop index target lo hi result = search_loop index target lo (mid - 1) result"
        using True gt by (subst search_loop.simps) (simp add: Let_def mid_def order_simps)
      have high: "target < ?key i" if "mid - 1 < i" "i < int (length index)" for i
      proof (cases "i = mid")
        case False
        then have "nat mid < nat i" "nat i < length index"
          using that bound by auto
        then show ?thesis
          using index_sorted_nth [OF 1(3)] gt by (meson less_trans not_le)
      qed (use gt in simp)
      have cmp: "\<not> InternalCompare bytes_Compare (?key mid) target \<le> 0"
        using gt by (simp add: order_simps)
      show ?thesis
        unfolding step by (rule 1(2) [OF True mid_def refl cmp 1(3,4) _ 1(6,7) high]) (use bound mid 1(5) in auto)
    qed
  qed
qed

lemma searchIndex_spec:
  assumes "index_sorted index"
  shows "-1 \<le> searchIndex index key" "searchIndex index key < int (length index)"
    "i < length index \<Longrightarrow>
      DecodeInternalKey (FirstKey (index ! i)) \<le> DecodeInternalKey key \<longleftrightarrow> int i \<le> searchIndex index key"
proof -
  have "-1 \<le> searchIndex index key \<and> searchIndex index key < int (length index) \<and>
      (\<forall>i < length index.
        DecodeInternalKey (FirstKey (index ! i)) \<le> DecodeInternalKey key \<longleftrightarrow> int i \<le> searchIndex index key)"
    unfolding searchIndex_def Let_def by (rule search_loop_spec [unfolded Let_def, OF assms]) auto
  then show "-1 \<le> searchIndex index key" "searchIndex index key < int (length index)"
    "i < length index \<Longrightarrow>
      DecodeInternalKey (FirstKey (index ! i)) \<le> DecodeInternalKey key \<longleftrightarrow> int i \<le> searchIndex index key"
    by blast+
qed

section \<open>Properties\<close>

text \<open>C39: Blocks survive the disk. Decoding an encoded block returns its entries, and a block in which any
  one byte has been changed, in the entries or in the checksum, is rejected with the checksum error
  instead of yielding entries.\<close>

theorem block_roundtrip_and_detection:
  assumes "list_all entry_fits es" "length es < 2 ^ 32"
    and "i < length (encodeBlock es)" "b \<noteq> encodeBlock es ! i"
  shows "decodeBlock (encodeBlock es) = Inr es \<and>
    decodeBlock ((encodeBlock es)[i := b]) = Inl (ErrMsg (lit ''block CRC mismatch''))"
proof -
  define d where "d = PutUint32 (word_of_nat (length es)) @ concat (map entry_bytes es)"
  have e: "encodeBlock es = d @ PutUint32 (ChecksumIEEE d)"
    by (simp add: encodeBlock_eq d_def Let_def)
  have i: "i < length d + 4"
    using assms(3) by (simp add: e)
  have "decodeBlock ((encodeBlock es)[i := b]) = Inl (ErrMsg (lit ''block CRC mismatch''))"
    using sealed_corrupt [OF i assms(4) [unfolded e]] by (simp add: decodeBlock_def e)
  with decodeBlock_encodeBlock [OF assms(1,2)] show ?thesis by blast
qed

theorem block_roundtrip_and_detection_witness:
  "decodeBlock (encodeBlock [BlockEntry [1] [2]]) = Inr [BlockEntry [1] [2]] \<and>
   decodeBlock ((encodeBlock [BlockEntry [1] [2]])[12 := 9]) = Inl (ErrMsg (lit ''block CRC mismatch''))"
proof -
  have "encodeBlock [BlockEntry [1] [2]] ! 12 = 1"
    by (simp add: encodeBlock_eq Let_def entry_bytes_def writeBlockEntry_def nth_append)
  then show ?thesis
    by (intro block_roundtrip_and_detection)
      (simp_all add: entry_fits_def encodeBlock_eq Let_def entry_bytes_def writeBlockEntry_def)
qed

text \<open>C38: The binary search of the index finds the right block. For an index sorted by first key it
  returns what a linear scan returns: the position of the last block whose first key is at or before
  the key, and -1 when the key sorts before every block.\<close>

theorem searchIndex_is_linear_search:
  assumes "index_sorted index"
  shows "searchIndex index key =
    int (length (takeWhile (\<lambda>idx. InternalCompare bytes_Compare (DecodeInternalKey (FirstKey idx)) (DecodeInternalKey key) \<le> 0) index)) - 1"
proof -
  note S = searchIndex_spec [OF assms, where key = key]
  let ?n = "nat (searchIndex index key + 1)"
  have "takeWhile (\<lambda>idx. InternalCompare bytes_Compare (DecodeInternalKey (FirstKey idx)) (DecodeInternalKey key) \<le> 0) index =
      take ?n index"
    using S by (intro takeWhile_eq_take_P_nth) (auto simp: order_simps)
  then show ?thesis
    using S(1,2) by simp
qed

theorem searchIndex_is_linear_search_witness:
  "searchIndex [IndexEntry (encode_key (MakeSearchKeyAt [1] 9)) 0 0, IndexEntry (encode_key (MakeSearchKeyAt [5] 9)) 0 0,
     IndexEntry (encode_key (MakeSearchKeyAt [8] 9)) 0 0] (encode_key (MakeSearchKeyAt [6] 9)) = 1"
proof -
  have "index_sorted [IndexEntry (encode_key (MakeSearchKeyAt [1] 9)) 0 0, IndexEntry (encode_key (MakeSearchKeyAt [5] 9)) 0 0,
     IndexEntry (encode_key (MakeSearchKeyAt [8] 9)) 0 0]"
    by (simp add: index_sorted_def less_InternalKey_def MakeSearchKeyAt_def MakeInternalKey_def)
  from searchIndex_is_linear_search [OF this, of "encode_key (MakeSearchKeyAt [6] 9)"] show ?thesis
    by (simp add: order_simps less_eq_InternalKey_def MakeSearchKeyAt_def MakeInternalKey_def)
qed

end
