(* ===== verification/Bloom_Filter.thy ===== *)
theory Bloom_Filter
  imports Hcdb_Config Go_Hash
begin

text \<open>
  Model of the package \<^verbatim>\<open>bloomfilter\<close>: sizing, double hashing, insertion, membership and the packed
  on-disk form. A division by a zero size, an index out of range and a slice out of range are the
  run-time panics of the Go code and give \<open>None\<close>. \<^verbatim>\<open>math.Log\<close> and \<^verbatim>\<open>math.Ceil\<close> are taken over the reals.
  The locale \<open>membership_filter\<close> is what an SSTable relies on.
\<close>

section \<open>Definitions\<close>

record BloomFilter =
  bits :: "bool list"
  numHash :: nat
  bf_size :: nat

definition findOptimalParamsValues :: "nat \<Rightarrow> real \<Rightarrow> nat \<times> nat" where
  "findOptimalParamsValues n p =
     (let m = - real n * ln p / (ln 2 * ln 2);
          k = (m / real n) * ln 2
      in (nat \<lceil>m\<rceil>, nat \<lceil>k\<rceil>))"

definition NewBloomFilter :: "nat \<Rightarrow> BloomFilter" where
  "NewBloomFilter expectedKeys =
     (let (sz, nh) = findOptimalParamsValues expectedKeys DEFAULT_BLOOM_FALSE_POSITIVE_RATE
      in \<lparr>bits = replicate sz False, numHash = nh, bf_size = sz\<rparr>)"

definition hashPosition :: "bytes \<Rightarrow> nat \<Rightarrow> nat \<Rightarrow> nat option" where
  "hashPosition key seed sz =
     (let h1 = fnv64a key;
          h2 = fnv32a key;
          m = (word_of_nat sz :: u64)
      in if m = 0 then None
         else Some (unat ((h1 + word_of_nat seed * ucast h2) mod m)))"

fun add_loop :: "bytes \<Rightarrow> nat list \<Rightarrow> BloomFilter \<Rightarrow> BloomFilter option" where
  "add_loop key [] bf = Some bf"
| "add_loop key (i # is) bf =
     (case hashPosition key i (bf_size bf) of
        None \<Rightarrow> None
      | Some pos \<Rightarrow>
          if pos < length (bits bf) then add_loop key is (bf\<lparr>bits := (bits bf)[pos := True]\<rparr>)
          else None)"

definition bloom_Add :: "bytes \<Rightarrow> BloomFilter \<Rightarrow> BloomFilter option" where
  "bloom_Add key bf = add_loop key [0..<numHash bf] bf"

fun check_loop :: "bytes \<Rightarrow> nat list \<Rightarrow> BloomFilter \<Rightarrow> bool option" where
  "check_loop key [] bf = Some True"
| "check_loop key (i # is) bf =
     (case hashPosition key i (bf_size bf) of
        None \<Rightarrow> None
      | Some pos \<Rightarrow>
          if pos < length (bits bf)
          then (if \<not> bits bf ! pos then Some False else check_loop key is bf)
          else None)"

definition MightContain :: "bytes \<Rightarrow> BloomFilter \<Rightarrow> bool option" where
  "MightContain key bf = check_loop key [0..<numHash bf] bf"

fun set_bits :: "nat \<Rightarrow> bool list \<Rightarrow> bytes \<Rightarrow> bytes" where
  "set_bits i [] out = out"
| "set_bits i (b # bs) out =
     set_bits (Suc i) bs
       (if b then out[8 + i div 8 := out ! (8 + i div 8) OR push_bit (i mod 8) 1] else out)"

definition Serialize :: "BloomFilter \<Rightarrow> bytes" where
  "Serialize bf =
     (let numBytes = (length (bits bf) + 7) div 8
      in set_bits 0 (bits bf)
           (PutUint32 (word_of_nat (bf_size bf)) @ PutUint32 (word_of_nat (numHash bf)) @ replicate numBytes 0))"

definition Deserialize :: "bytes \<Rightarrow> BloomFilter option" where
  "Deserialize d =
     (if length d < 8 then None
      else (let sz = unat (Uint32 (take 4 d)); nh = unat (Uint32 (take 4 (drop 4 d)))
            in Some \<lparr>bits = map (\<lambda>i. 8 + i div 8 < length d \<and> drop_bit (i mod 8) (d ! (8 + i div 8)) AND 1 = 1)
                              [0..<sz],
                     numHash = nh, bf_size = sz\<rparr>))"

text \<open>A filter whose bit array has the recorded size, which fits the on-disk fields.\<close>

definition bloom_inv :: "BloomFilter \<Rightarrow> bool" where
  "bloom_inv bf \<longleftrightarrow> length (bits bf) = bf_size bf \<and> 0 < bf_size bf \<and> bf_size bf < 2 ^ 32 \<and> numHash bf < 2 ^ 32"

section \<open>The interface SSTables rely on\<close>

locale membership_filter =
  fixes add :: "'k \<Rightarrow> 'f \<Rightarrow> 'f option"
    and check :: "'k \<Rightarrow> 'f \<Rightarrow> bool option"
    and invar :: "'f \<Rightarrow> bool"
  assumes add_ok: "invar f \<Longrightarrow> \<exists>f'. add k f = Some f' \<and> invar f'"
    and check_ok: "invar f \<Longrightarrow> check k f \<noteq> None"
    and check_added: "invar f \<Longrightarrow> add k f = Some f' \<Longrightarrow> check k f' = Some True"
    and check_mono: "invar f \<Longrightarrow> add j f = Some f' \<Longrightarrow> check k f = Some True \<Longrightarrow> check k f' = Some True"
begin

fun add_all :: "'k list \<Rightarrow> 'f \<Rightarrow> 'f option" where
  "add_all [] f = Some f"
| "add_all (k # ks) f = (case add k f of None \<Rightarrow> None | Some f' \<Rightarrow> add_all ks f')"

lemma add_all_ok: "invar f \<Longrightarrow> \<exists>f'. add_all ks f = Some f' \<and> invar f'"
proof (induction ks arbitrary: f)
  case (Cons k ks)
  obtain g where "add k f = Some g" "invar g"
    using add_ok [OF Cons.prems] by blast
  with Cons.IH show ?case by simp
qed simp

lemma add_all_mono:
  "invar f \<Longrightarrow> add_all ks f = Some f' \<Longrightarrow> check k f = Some True \<Longrightarrow> check k f' = Some True"
proof (induction ks arbitrary: f)
  case (Cons j ks)
  obtain g where "add j f = Some g" "invar g"
    using add_ok [OF Cons.prems(1)] by blast
  with Cons show ?case using check_mono by auto
qed simp

lemma no_false_negative:
  "invar f \<Longrightarrow> add_all ks f = Some f' \<Longrightarrow> k \<in> set ks \<Longrightarrow> check k f' = Some True"
proof (induction ks arbitrary: f)
  case (Cons j ks)
  obtain g where g: "add j f = Some g" "invar g"
    using add_ok [OF Cons.prems(1)] by blast
  then have r: "add_all ks g = Some f'"
    using Cons.prems(2) by simp
  show ?case
  proof (cases "k \<in> set ks")
    case True
    with Cons.IH g(2) r show ?thesis by blast
  next
    case False
    then have "check k g = Some True"
      using Cons.prems g check_added by auto
    with add_all_mono [OF g(2) r] show ?thesis .
  qed
qed simp

end

section \<open>Lemmas\<close>

lemma hashPosition_ok:
  assumes "0 < sz" "sz < 2 ^ 32"
  shows "\<exists>pos. hashPosition key i sz = Some pos \<and> pos < sz"
proof -
  have m: "unat (word_of_nat sz :: u64) = sz"
    using assms(2) by (simp add: unat_of_nat)
  then have "(word_of_nat sz :: u64) \<noteq> 0"
    using assms(1) by (metis unsigned_0 less_irrefl)
  moreover have "unat (x mod (word_of_nat sz :: u64)) < sz" for x
    using assms(1) m by (simp add: unat_mod_distrib)
  ultimately show ?thesis
    by (simp add: hashPosition_def Let_def)
qed

lemma add_loop_ok:
  assumes "bloom_inv bf"
  shows "\<exists>bf'. add_loop key is bf = Some bf' \<and> bloom_inv bf' \<and> bf_size bf' = bf_size bf \<and> numHash bf' = numHash bf \<and>
    (\<forall>pos. pos < bf_size bf \<longrightarrow> bits bf ! pos \<longrightarrow> bits bf' ! pos) \<and>
    (\<forall>i \<in> set is. \<forall>pos. hashPosition key i (bf_size bf) = Some pos \<longrightarrow> bits bf' ! pos)"
  using assms
proof (induction "is" arbitrary: bf)
  case (Cons i "is")
  obtain pos where pos: "hashPosition key i (bf_size bf) = Some pos" "pos < bf_size bf"
    using hashPosition_ok [of "bf_size bf" key i] Cons.prems by (auto simp: bloom_inv_def)
  let ?bf = "bf\<lparr>bits := (bits bf)[pos := True]\<rparr>"
  have inv: "bloom_inv ?bf"
    using Cons.prems by (simp add: bloom_inv_def)
  obtain bf' where bf': "add_loop key is ?bf = Some bf'" "bloom_inv bf'" "bf_size bf' = bf_size bf"
    "numHash bf' = numHash bf" "\<forall>q. q < bf_size bf \<longrightarrow> bits ?bf ! q \<longrightarrow> bits bf' ! q"
    "\<forall>i \<in> set is. \<forall>pos. hashPosition key i (bf_size bf) = Some pos \<longrightarrow> bits bf' ! pos"
    using Cons.IH [OF inv] by auto
  have len: "length (bits bf) = bf_size bf"
    using Cons.prems by (simp add: bloom_inv_def)
  have "bits bf' ! pos"
    using bf'(5) pos(2) len by auto
  moreover have "\<forall>q. q < bf_size bf \<longrightarrow> bits bf ! q \<longrightarrow> bits bf' ! q"
    using bf'(5) len by (metis BloomFilter.select_convs(1) BloomFilter.update_convs(1) BloomFilter.surjective
        nth_list_update_eq nth_list_update_neq)
  ultimately show ?case
    using bf' pos len by auto
qed simp

lemma check_loop_iff:
  assumes "bloom_inv bf"
  shows "check_loop key is bf =
    Some (\<forall>i \<in> set is. \<forall>pos. hashPosition key i (bf_size bf) = Some pos \<longrightarrow> bits bf ! pos)"
proof (induction "is")
  case (Cons i "is")
  obtain pos where "hashPosition key i (bf_size bf) = Some pos" "pos < bf_size bf"
    using hashPosition_ok [of "bf_size bf" key i] assms by (auto simp: bloom_inv_def)
  with Cons assms show ?case
    by (auto simp: bloom_inv_def)
qed simp

interpretation bloom: membership_filter bloom_Add MightContain bloom_inv
proof (unfold_locales, goal_cases)
  case (1 f k)
  then show ?case using add_loop_ok by (fastforce simp: bloom_Add_def)
next
  case (2 f k)
  then show ?case by (simp add: MightContain_def check_loop_iff)
next
  case (3 f k f')
  then show ?case
    using add_loop_ok [of f k "[0..<numHash f]"]
    by (auto simp: bloom_Add_def MightContain_def check_loop_iff)
next
  case (4 f j f' k)
  have "hashPosition k i (bf_size f) = Some pos \<Longrightarrow> pos < bf_size f" for i pos
    using hashPosition_ok [of "bf_size f" k i] 4(1) by (auto simp: bloom_inv_def)
  with 4 show ?case
    using add_loop_ok [of f j "[0..<numHash f]"]
    by (auto simp: bloom_Add_def MightContain_def check_loop_iff)
qed

subsection \<open>Sizing\<close>

lemma NewBloomFilter_default:
  "bloom_inv (NewBloomFilter DEFAULT_BLOOM_EXPECTED_KEYS)"
  "length (bits (NewBloomFilter DEFAULT_BLOOM_EXPECTED_KEYS)) \<le> 39600000"
proof -
  define m where "m = - 100000 * ln (1 / 100 :: real) / (ln 2 * ln 2)"
  have l100: "ln (1 / 100 :: real) = - ln 100"
    by (simp add: ln_div)
  have b100: "0 < ln (100 :: real)" "ln (100 :: real) \<le> 99"
    using ln_le_minus_one [of "100 :: real"] by simp_all
  have l2: "1 / 2 \<le> ln (2 :: real)" "ln (2 :: real) \<le> 1"
    using ln_le_minus_one [of "1 / 2 :: real"] ln_le_minus_one [of "2 :: real"] by (simp_all add: ln_div)
  then have sq: "1 / 4 \<le> ln 2 * ln (2 :: real)"
    using mult_mono [of "1 / 2" "ln 2" "1 / 2" "ln (2 :: real)"] by simp
  have m_eq: "m = 100000 * ln 100 / (ln 2 * ln 2)"
    by (simp add: m_def l100)
  have m0: "0 < m"
    using b100 sq by (simp add: m_eq)
  have "m \<le> 9900000 / (1 / 4)"
    unfolding m_eq by (rule frac_le) (use b100 sq in auto)
  then have m1: "m \<le> 39600000"
    by simp
  have k0: "0 \<le> m / 100000 * ln 2" and k1: "m / 100000 * ln 2 \<le> 396"
    using m0 m1 l2 mult_mono [of "m / 100000" 396 "ln 2" 1] by auto
  have "0 < nat \<lceil>m\<rceil>" "nat \<lceil>m\<rceil> < 4294967296" "nat \<lceil>m\<rceil> \<le> 39600000" "nat \<lceil>m / 100000 * ln 2\<rceil> < 4294967296"
    using m0 m1 k0 k1 by linarith+
  then show "bloom_inv (NewBloomFilter DEFAULT_BLOOM_EXPECTED_KEYS)"
    "length (bits (NewBloomFilter DEFAULT_BLOOM_EXPECTED_KEYS)) \<le> 39600000"
    by (simp_all add: bloom_inv_def NewBloomFilter_def findOptimalParamsValues_def Let_def
        DEFAULT_BLOOM_EXPECTED_KEYS_def DEFAULT_BLOOM_FALSE_POSITIVE_RATE_def m_def)
qed

subsection \<open>Serialisation\<close>

lemma length_set_bits [simp]: "length (set_bits i bs out) = length out"
  by (induction i bs out rule: set_bits.induct) auto

lemma take8_set_bits: "take 8 (set_bits i bs out) = take 8 out"
  by (induction i bs out rule: set_bits.induct) auto

lemma bit_set_bits:
  assumes "8 + j div 8 < length out"
  shows "bit (set_bits i bs out ! (8 + j div 8)) (j mod 8) \<longleftrightarrow>
    bit (out ! (8 + j div 8)) (j mod 8) \<or> (i \<le> j \<and> j < i + length bs \<and> bs ! (j - i))"
  using assms
proof (induction bs arbitrary: i out)
  case (Cons b bs)
  let ?p = "8 + i div 8"
  let ?out = "if b then out[?p := out ! ?p OR push_bit (i mod 8) 1] else out"
  have "bit (?out ! (8 + j div 8)) (j mod 8) \<longleftrightarrow> bit (out ! (8 + j div 8)) (j mod 8) \<or> b \<and> i = j"
  proof (cases "j div 8 = i div 8")
    case True
    have "j mod 8 = i mod 8 \<longleftrightarrow> i = j"
      using True by (metis mod_div_mult_eq)
    with True Cons.prems show ?thesis
      by (auto simp: bit_simps)
  next
    case False
    then show ?thesis by auto
  qed
  then show ?case
    using Cons.IH [of ?out "Suc i"] Cons.prems
    by (cases "i = j") (auto simp: nth_Cons' Suc_le_eq simp del: mult_Suc_right)
qed auto

lemma Deserialize_Serialize:
  assumes "bloom_inv bf"
  shows "Deserialize (Serialize bf) = Some bf"
proof -
  let ?hd = "PutUint32 (word_of_nat (bf_size bf)) @ PutUint32 (word_of_nat (numHash bf))"
  let ?nb = "(length (bits bf) + 7) div 8"
  let ?out = "?hd @ replicate ?nb (0 :: u8)"
  let ?s = "set_bits 0 (bits bf) ?out"
  have s: "Serialize bf = ?s"
    by (simp add: Serialize_def)
  have t: "take 8 ?s = ?hd"
    by (simp add: take8_set_bits)
  have t4: "take 4 ?s = PutUint32 (word_of_nat (bf_size bf))"
    using arg_cong [OF t, of "take 4"] by (simp add: min_def)
  have t48: "take 4 (drop 4 ?s) = PutUint32 (word_of_nat (numHash bf))"
    using arg_cong [OF t, of "drop 4"] by (simp add: drop_take)
  have sz: "unat (word_of_nat (bf_size bf) :: u32) = bf_size bf" "unat (word_of_nat (numHash bf) :: u32) = numHash bf"
    using assms by (simp_all add: bloom_inv_def unat_of_nat)
  have "map (\<lambda>i. 8 + i div 8 < length ?s \<and> drop_bit (i mod 8) (?s ! (8 + i div 8)) AND 1 = 1) [0..<bf_size bf] = bits bf"
  proof (rule nth_equalityI)
    show "length (map (\<lambda>i. 8 + i div 8 < length ?s \<and> drop_bit (i mod 8) (?s ! (8 + i div 8)) AND 1 = 1)
        [0..<bf_size bf]) = length (bits bf)"
      using assms by (simp add: bloom_inv_def)
  next
    fix j
    assume "j < length (map (\<lambda>i. 8 + i div 8 < length ?s \<and> drop_bit (i mod 8) (?s ! (8 + i div 8)) AND 1 = 1)
        [0..<bf_size bf])"
    then have j: "j < bf_size bf" "j < length (bits bf)"
      using assms by (simp_all add: bloom_inv_def)
    then have in_range: "j div 8 < ?nb"
      by linarith
    have "drop_bit (j mod 8) (?s ! (8 + j div 8)) AND 1 = 1 \<longleftrightarrow> bit (?s ! (8 + j div 8)) (j mod 8)"
      by (simp add: and_one_eq bit_iff_odd_drop_bit mod_2_eq_odd)
    also have "\<dots> \<longleftrightarrow> bits bf ! j"
      using bit_set_bits [of j ?out 0 "bits bf"] in_range j by (simp add: nth_append)
    finally show "map (\<lambda>i. 8 + i div 8 < length ?s \<and> drop_bit (i mod 8) (?s ! (8 + i div 8)) AND 1 = 1)
        [0..<bf_size bf] ! j = bits bf ! j"
      using j in_range by simp
  qed
  then show ?thesis
    using t4 t48 sz unfolding s by (simp add: Deserialize_def Let_def)
qed

lemma length_Serialize: "length (Serialize bf) = 8 + (length (bits bf) + 7) div 8"
  by (simp add: Serialize_def Let_def)

section \<open>Properties\<close>

fun bloom_Add_all :: "bytes list \<Rightarrow> BloomFilter \<Rightarrow> BloomFilter option" where
  "bloom_Add_all [] bf = Some bf"
| "bloom_Add_all (k # ks) bf = (case bloom_Add k bf of None \<Rightarrow> None | Some bf' \<Rightarrow> bloom_Add_all ks bf')"

lemma bloom_add_all_eq: "bloom.add_all ks bf = bloom_Add_all ks bf"
  by (induction ks arbitrary: bf) (auto split: option.splits)

lemma bloom_Add_all_ok:
  assumes "bloom_inv bf"
  shows "\<exists>bf'. bloom_Add_all ks bf = Some bf' \<and> bloom_inv bf' \<and> list_all (\<lambda>k. MightContain k bf' = Some True) ks"
proof -
  obtain bf' where "bloom.add_all ks bf = Some bf'" "bloom_inv bf'"
    using bloom.add_all_ok [OF assms] by blast
  with bloom.no_false_negative [OF assms] show ?thesis
    by (auto simp: bloom_add_all_eq list_all_iff)
qed

lemma bloom_Add_length: "bloom_Add k bf = Some bf' \<Longrightarrow> length (bits bf') = length (bits bf)"
proof -
  have "add_loop k is bf = Some bf' \<Longrightarrow> length (bits bf') = length (bits bf)" for "is"
    by (induction k "is" bf rule: add_loop.induct) (auto split: option.splits if_splits)
  then show "bloom_Add k bf = Some bf' \<Longrightarrow> length (bits bf') = length (bits bf)"
    by (simp add: bloom_Add_def)
qed

lemma bloom_Add_all_length: "bloom_Add_all ks bf = Some bf' \<Longrightarrow> length (bits bf') = length (bits bf)"
  by (induction ks arbitrary: bf) (auto split: option.splits dest: bloom_Add_length)

text \<open>C26: A key that was added is never reported missing, also after the filter has been written to
  disk and read back. For the filter every SSTable starts with, adding any keys succeeds (no division
  by zero, no index out of range), its serialised form decodes to the same filter, and the decoded
  filter answers yes for each of the keys.\<close>

theorem bloom_no_false_negatives:
  "\<exists>bf'. bloom_Add_all ks (NewBloomFilter DEFAULT_BLOOM_EXPECTED_KEYS) = Some bf' \<and>
     Deserialize (Serialize bf') = Some bf' \<and> list_all (\<lambda>k. MightContain k bf' = Some True) ks"
  using bloom_Add_all_ok [OF NewBloomFilter_default(1), of ks] Deserialize_Serialize by blast

end
