(* ===== verification/Mvcc_Spec.thy ===== *)
theory Mvcc_Spec
  imports Internal_Key
begin

text \<open>
  The specification of multi-version reads that the memtable, the SSTables and the database are
  measured against. A store is a list of versions, each an internal key with a value. The answer to
  a point lookup is the newest version of the user key visible at the snapshot; a tombstone answers
  \<open>KEY_DELETED\<close>. The lemmas relate this to seeking in a list sorted by internal key.
\<close>

section \<open>Definitions\<close>

type_synonym version = "InternalKey \<times> bytes"

definition matches :: "bytes \<Rightarrow> SeqNum \<Rightarrow> version \<Rightarrow> bool" where
  "matches u snapshot kv \<longleftrightarrow> UserKey (fst kv) = u \<and> Visible (fst kv) snapshot"

text \<open>The newest matching version of a set of versions: the least internal key.\<close>

definition newest :: "bytes \<Rightarrow> SeqNum \<Rightarrow> version list \<Rightarrow> version option" where
  "newest u snapshot kvs =
     (case filter (matches u snapshot) kvs of [] \<Rightarrow> None | kv # r \<Rightarrow> Some (foldl (\<lambda>a b. if fst b < fst a then b else a) kv r))"

definition answer :: "version option \<Rightarrow> bytes \<times> KEY_LOOKUP_ENUM" where
  "answer r =
     (case r of
        None \<Rightarrow> ([], KEY_ABSENT)
      | Some kv \<Rightarrow> if key_Kind (fst kv) = InternalKeyKindDelete then ([], KEY_DELETED) else (snd kv, KEY_FOUND))"

definition lookup_spec :: "bytes \<Rightarrow> SeqNum \<Rightarrow> version list \<Rightarrow> bytes \<times> KEY_LOOKUP_ENUM" where
  "lookup_spec u snapshot kvs = answer (newest u snapshot kvs)"

text \<open>Versions in a range of user keys that a snapshot sees; no upper bound is \<^verbatim>\<open>nil\<close>.\<close>

definition below :: "bytes option \<Rightarrow> bytes \<Rightarrow> bool" where
  "below upper u \<longleftrightarrow> (case upper of None \<Rightarrow> True | Some b \<Rightarrow> u \<le> b)"

definition in_range :: "bytes \<Rightarrow> bytes option \<Rightarrow> SeqNum \<Rightarrow> version \<Rightarrow> bool" where
  "in_range lower upper snapshot kv \<longleftrightarrow>
     lower \<le> UserKey (fst kv) \<and> below upper (UserKey (fst kv)) \<and> Visible (fst kv) snapshot"

text \<open>Sorted by internal key without duplicates, every kind valid.\<close>

definition sorted_versions :: "version list \<Rightarrow> bool" where
  "sorted_versions kvs \<longleftrightarrow> sorted_wrt (<) (map fst kvs) \<and> (\<forall>kv \<in> set kvs. key_Valid (fst kv))"

section \<open>Lemmas\<close>

lemma foldl_least:
  fixes kv :: version
  shows "foldl (\<lambda>a b. if fst b < fst a then b else a) kv r \<in> set (kv # r) \<and>
    (\<forall>x \<in> set (kv # r). fst (foldl (\<lambda>a b. if fst b < fst a then b else a) kv r) \<le> fst x)"
proof (induction r arbitrary: kv)
  case (Cons x r)
  let ?m = "if fst x < fst kv then x else kv"
  have "fst ?m \<le> fst x" "fst ?m \<le> fst kv"
    by auto
  with Cons.IH [of ?m] show ?case
    by (auto intro: order.trans split: if_splits)
qed simp

lemma newest_None_iff: "newest u s kvs = None \<longleftrightarrow> (\<forall>kv \<in> set kvs. \<not> matches u s kv)"
  by (auto simp: newest_def filter_empty_conv split: list.splits) (metis filter_empty_conv list.distinct(1))

lemma newest_Some:
  assumes "newest u s kvs = Some kv"
  shows "kv \<in> set kvs" "matches u s kv" "\<And>x. x \<in> set kvs \<Longrightarrow> matches u s x \<Longrightarrow> fst kv \<le> fst x"
proof -
  from assms obtain a r where f: "filter (matches u s) kvs = a # r"
    and kv: "kv = foldl (\<lambda>a b. if fst b < fst a then b else a) a r"
    by (auto simp: newest_def split: list.splits)
  have mem: "x \<in> set (a # r) \<longleftrightarrow> x \<in> set kvs \<and> matches u s x" for x
    unfolding f [symmetric] by auto
  show "kv \<in> set kvs" "matches u s kv" "\<And>x. x \<in> set kvs \<Longrightarrow> matches u s x \<Longrightarrow> fst kv \<le> fst x"
    using foldl_least [of a r] mem unfolding kv by blast+
qed

text \<open>The newest version has the greatest visible sequence number.\<close>

lemma newest_seqnum:
  assumes "newest u s kvs = Some kv" "x \<in> set kvs" "matches u s x"
  shows "key_SeqNum (fst x) \<le> key_SeqNum (fst kv)"
proof -
  have "fst kv \<le> fst x" "UserKey (fst kv) = UserKey (fst x)"
    using newest_Some [OF assms(1)] assms(2,3) by (auto simp: matches_def)
  then have "Trailer (fst x) \<le> Trailer (fst kv)"
    by (auto simp: less_eq_InternalKey_def)
  then show ?thesis
    by (auto simp: key_SeqNum_def trailer_le_iff [of "Trailer (fst x)"])
qed

lemma newest_unique:
  assumes "kv \<in> set kvs" "matches u s kv" "\<And>x. x \<in> set kvs \<Longrightarrow> matches u s x \<Longrightarrow> fst kv \<le> fst x"
    and "\<And>x y. x \<in> set kvs \<Longrightarrow> y \<in> set kvs \<Longrightarrow> fst x = fst y \<Longrightarrow> x = y"
  shows "newest u s kvs = Some kv"
proof -
  obtain kv' where n: "newest u s kvs = Some kv'"
    using assms(1,2) newest_None_iff by (metis not_None_eq)
  have "fst kv = fst kv'"
    using newest_Some [OF n] assms(1-3) by (meson order.antisym)
  with n newest_Some(1) [OF n] assms(1,4) show ?thesis by blast
qed

text \<open>Only the set of versions matters when a key determines its value.\<close>

lemma newest_cong:
  assumes "set kvs = set kvs'"
    and "\<And>x y. x \<in> set kvs \<Longrightarrow> y \<in> set kvs \<Longrightarrow> fst x = fst y \<Longrightarrow> x = y"
  shows "newest u s kvs = newest u s kvs'"
proof (cases "newest u s kvs'")
  case None
  then show ?thesis using assms(1) by (metis newest_None_iff)
next
  case (Some kv)
  note n = newest_Some [OF Some]
  show ?thesis
    unfolding Some using n assms by (intro newest_unique) auto
qed

subsection \<open>Seeking in a sorted list\<close>

lemma sorted_versions_Cons:
  "sorted_versions (kv # kvs) \<longleftrightarrow>
    key_Valid (fst kv) \<and> (\<forall>x \<in> set kvs. fst kv < fst x) \<and> sorted_versions kvs"
  by (auto simp: sorted_versions_def)

lemma sorted_versions_append:
  "sorted_versions (xs @ ys) \<longleftrightarrow>
    sorted_versions xs \<and> sorted_versions ys \<and> (\<forall>x \<in> set xs. \<forall>y \<in> set ys. fst x < fst y)"
  by (auto simp: sorted_versions_def sorted_wrt_append)

lemma sorted_versions_fun:
  "sorted_versions kvs \<Longrightarrow> x \<in> set kvs \<Longrightarrow> y \<in> set kvs \<Longrightarrow> fst x = fst y \<Longrightarrow> x = y"
  by (induction kvs) (auto simp: sorted_versions_Cons)

lemma UserKey_mono: "a \<le> b \<Longrightarrow> UserKey a \<le> UserKey (b :: InternalKey)"
  by (auto simp: less_eq_InternalKey_def)

lemma dropWhile_sorted:
  assumes "sorted_versions kvs"
  shows "dropWhile (\<lambda>kv. fst kv < k) kvs = filter (\<lambda>kv. k \<le> fst kv) kvs"
  using assms
proof (induction kvs)
  case (Cons kv kvs)
  show ?case
  proof (cases "fst kv < k")
    case True
    with Cons show ?thesis by (auto simp: sorted_versions_Cons)
  next
    case False
    with Cons.prems have "\<forall>x \<in> set kvs. k \<le> fst x"
      by (auto simp: sorted_versions_Cons not_less intro: order.trans less_imp_le)
    then have "filter (\<lambda>kv. k \<le> fst kv) kvs = kvs"
      by (simp add: filter_id_conv)
    with False show ?thesis by simp
  qed
qed simp

lemma seek_lookup:
  assumes "sorted_versions kvs" "snapshot \<le> SeqNumMax"
  shows "newest u snapshot kvs =
    (case dropWhile (\<lambda>kv. fst kv < MakeSearchKeyAt u snapshot) kvs of
       [] \<Rightarrow> None
     | kv # _ \<Rightarrow> if UserKey (fst kv) = u then Some kv else None)"
proof -
  let ?k = "MakeSearchKeyAt u snapshot"
  have le: "?k \<le> fst kv \<longleftrightarrow> u < UserKey (fst kv) \<or> matches u snapshot kv" if "kv \<in> set kvs" for kv
    using search_key_le_iff [OF _ assms(2), of "fst kv" u] assms(1) that
    by (auto simp: sorted_versions_def matches_def)
  show ?thesis
  proof (cases "filter (\<lambda>kv. ?k \<le> fst kv) kvs")
    case Nil
    then have "newest u snapshot kvs = None"
      using le by (auto simp: newest_None_iff filter_empty_conv)
    then show ?thesis
      unfolding dropWhile_sorted [OF assms(1)] Nil by simp
  next
    case (Cons kv r)
    then have "kv \<in> set (filter (\<lambda>kv. ?k \<le> fst kv) kvs)"
      by simp
    then have kv: "kv \<in> set kvs" "?k \<le> fst kv"
      by simp_all
    have least: "fst kv \<le> fst x" if "x \<in> set kvs" "?k \<le> fst x" for x
    proof -
      have "sorted_wrt (<) (map fst (filter (\<lambda>kv. ?k \<le> fst kv) kvs))"
        using assms(1) by (auto simp: sorted_versions_def sorted_wrt_map sorted_wrt_filter)
      moreover have "x \<in> set (kv # r)"
        using that unfolding Cons [symmetric] by simp
      ultimately show ?thesis
        unfolding Cons by auto
    qed
    show ?thesis
    proof (cases "UserKey (fst kv) = u")
      case True
      then have "matches u snapshot kv"
        using le [OF kv(1)] kv(2) by auto
      then have "newest u snapshot kvs = Some kv"
        using kv(1) le least sorted_versions_fun [OF assms(1)] by (intro newest_unique) auto
      then show ?thesis
        unfolding dropWhile_sorted [OF assms(1)] Cons using True by simp
    next
      case False
      have "\<not> matches u snapshot x" if x: "x \<in> set kvs" for x
      proof
        assume m: "matches u snapshot x"
        then have "UserKey (fst kv) \<le> u"
          using least [OF x] le [OF x] UserKey_mono by (auto simp: matches_def)
        moreover have "u < UserKey (fst kv)"
          using le [OF kv(1)] kv(2) False by (auto simp: matches_def)
        ultimately show False by simp
      qed
      then have "newest u snapshot kvs = None"
        by (simp add: newest_None_iff)
      then show ?thesis
        unfolding dropWhile_sorted [OF assms(1)] Cons using False by simp
    qed
  qed
qed

lemma takeWhile_below:
  assumes "sorted_versions kvs"
  shows "takeWhile (\<lambda>kv. below upper (UserKey (fst kv))) kvs = filter (\<lambda>kv. below upper (UserKey (fst kv))) kvs"
  using assms
proof (induction kvs)
  case (Cons kv kvs)
  have "\<not> below upper (UserKey (fst kv)) \<Longrightarrow> x \<in> set kvs \<Longrightarrow> \<not> below upper (UserKey (fst x))" for x
    using Cons.prems UserKey_mono [of "fst kv" "fst x"]
    by (force simp: below_def sorted_versions_Cons split: option.splits)
  with Cons show ?case
    by (auto simp: sorted_versions_Cons filter_empty_conv)
qed simp

lemma sorted_versions_filter: "sorted_versions kvs \<Longrightarrow> sorted_versions (filter P kvs)"
  by (auto simp: sorted_versions_def sorted_wrt_map sorted_wrt_filter)

text \<open>A scan from the seek position: bounded above, skipping what the snapshot cannot see.\<close>

lemma seek_range:
  assumes "sorted_versions kvs" "snapshot \<le> SeqNumMax"
  shows "filter (\<lambda>kv. Visible (fst kv) snapshot)
      (takeWhile (\<lambda>kv. below upper (UserKey (fst kv)))
        (dropWhile (\<lambda>kv. fst kv < MakeSearchKeyAt lower snapshot) kvs)) =
    filter (in_range lower upper snapshot) kvs"
proof -
  have "MakeSearchKeyAt lower snapshot \<le> fst kv \<and> Visible (fst kv) snapshot \<longleftrightarrow>
      lower \<le> UserKey (fst kv) \<and> Visible (fst kv) snapshot" if "kv \<in> set kvs" for kv
    using search_key_le_iff [OF _ assms(2), of "fst kv" lower] assms(1) that
    by (auto simp: sorted_versions_def)
  then show ?thesis
    unfolding dropWhile_sorted [OF assms(1)]
      takeWhile_below [OF sorted_versions_filter [OF assms(1)]] filter_filter
    by (intro filter_cong) (auto simp: in_range_def)
qed

end
