(* ===== verification/Memtable.thy ===== *)
theory Memtable
  imports Mvcc_Spec Hcdb_Config "HOL-Library.RBT"
begin

text \<open>
  Model of the package \<^verbatim>\<open>memtable\<close>. The ordered tree is the third-party package \<^verbatim>\<open>github.com/google/btree\<close>:
  the memtable operations take its operations as an argument (\<open>btree\<close>), and the locale
  \<open>google_btree\<close> states what its documentation promises for items ordered by \<^verbatim>\<open>Less\<close>: \<^verbatim>\<open>Ascend\<close> visits
  every item in ascending order, \<^verbatim>\<open>ReplaceOrInsert\<close> replaces the equal item or adds one, and
  \<^verbatim>\<open>AscendGreaterOrEqual\<close> visits the items not below the pivot. The visits are given as lists; the Go
  callbacks that stop an iteration early are run by \<open>iterate\<close>. A red-black tree keyed by the
  decoded internal key is an instance.
\<close>

section \<open>Definitions\<close>

datatype Item = Item (i_Key: bytes) (i_Value: bytes)

definition item_Less :: "Item \<Rightarrow> Item \<Rightarrow> bool" where
  "item_Less a b \<longleftrightarrow>
     InternalCompare bytes_Compare (DecodeInternalKey (i_Key a)) (DecodeInternalKey (i_Key b)) < 0"

record 't btree =
  bt_New :: "nat \<Rightarrow> 't"
  bt_ReplaceOrInsert :: "Item \<Rightarrow> 't \<Rightarrow> 't"
  bt_Ascend :: "'t \<Rightarrow> Item list"
  bt_AscendGreaterOrEqual :: "Item \<Rightarrow> 't \<Rightarrow> Item list"

fun iterate :: "('i \<Rightarrow> 's \<Rightarrow> bool \<times> 's) \<Rightarrow> 'i list \<Rightarrow> 's \<Rightarrow> 's" where
  "iterate f [] s = s"
| "iterate f (x # xs) s = (case f x s of (go, s') \<Rightarrow> if go then iterate f xs s' else s')"

definition DEFAULT_BTREE_DEGREE :: nat where "DEFAULT_BTREE_DEGREE = 32"

record 't MemTable =
  tree :: 't
  mt_size :: nat

definition NewMemTable :: "'t btree \<Rightarrow> 't MemTable" where
  "NewMemTable bt = \<lparr>tree = bt_New bt DEFAULT_BTREE_DEGREE, mt_size = 0\<rparr>"

definition memtable_insert :: "'t btree \<Rightarrow> bytes \<Rightarrow> bytes \<Rightarrow> 't MemTable \<Rightarrow> 't MemTable" where
  "memtable_insert bt internalKey value mt =
     (let newItem = Item internalKey value
      in mt\<lparr>tree := bt_ReplaceOrInsert bt newItem (tree mt),
            mt_size := mt_size mt + (length (i_Key newItem) + length (i_Value newItem))\<rparr>)"

definition memtable_Put :: "'t btree \<Rightarrow> bytes \<Rightarrow> bytes \<Rightarrow> 't MemTable \<Rightarrow> 't MemTable" where
  "memtable_Put bt internalKey value mt = memtable_insert bt internalKey value mt"

definition memtable_Delete :: "'t btree \<Rightarrow> bytes \<Rightarrow> 't MemTable \<Rightarrow> 't MemTable" where
  "memtable_Delete bt internalKey mt = memtable_insert bt internalKey [] mt"

definition encodeSearchKey :: "bytes \<Rightarrow> SeqNum \<Rightarrow> bytes" where
  "encodeSearchKey userKey snapshot = encode_key (MakeSearchKeyAt userKey snapshot)"

definition memtable_Get :: "'t btree \<Rightarrow> bytes \<Rightarrow> SeqNum \<Rightarrow> 't MemTable \<Rightarrow> bytes \<times> KEY_LOOKUP_ENUM" where
  "memtable_Get bt userKey snapshot mt =
     (let found =
        iterate (\<lambda>item found.
            if UserKey (DecodeInternalKey (i_Key item)) \<noteq> userKey then (False, found)
            else (False, Some item))
          (bt_AscendGreaterOrEqual bt (Item (encodeSearchKey userKey snapshot) []) (tree mt)) None
      in case found of
           None \<Rightarrow> ([], KEY_ABSENT)
         | Some item \<Rightarrow>
             if key_Kind (DecodeInternalKey (i_Key item)) = InternalKeyKindDelete then ([], KEY_DELETED)
             else (i_Value item, KEY_FOUND))"

definition memtable_Size :: "'t MemTable \<Rightarrow> nat" where
  "memtable_Size mt = mt_size mt"

definition memtable_Ascend :: "'t btree \<Rightarrow> (bytes \<Rightarrow> bytes \<Rightarrow> 's \<Rightarrow> bool \<times> 's) \<Rightarrow> 't MemTable \<Rightarrow> 's \<Rightarrow> 's" where
  "memtable_Ascend bt fn mt s = iterate (\<lambda>item. fn (i_Key item) (i_Value item)) (bt_Ascend bt (tree mt)) s"

subsection \<open>Iterator\<close>

record mem_Iterator =
  mi_entries :: "Item list"
  mi_pos :: nat

definition mem_NewIterator ::
  "'t btree \<Rightarrow> 't MemTable \<Rightarrow> bytes \<Rightarrow> bytes option \<Rightarrow> SeqNum \<Rightarrow> mem_Iterator" where
  "mem_NewIterator bt mt lowerBound upperBound snapshot =
     (let pivot = Item (encodeSearchKey lowerBound snapshot) []
      in \<lparr>mi_entries =
            iterate (\<lambda>item entries.
                let ik = DecodeInternalKey (i_Key item)
                in if (case upperBound of None \<Rightarrow> False | Some b \<Rightarrow> bytes_Compare (UserKey ik) b > 0)
                   then (False, entries)
                   else if \<not> Visible ik snapshot then (True, entries)
                   else (True, entries @ [item]))
              (bt_AscendGreaterOrEqual bt pivot (tree mt)) [],
          mi_pos = 0\<rparr>)"

definition mem_Valid :: "mem_Iterator \<Rightarrow> bool" where
  "mem_Valid it \<longleftrightarrow> mi_pos it < length (mi_entries it)"

definition mem_Key :: "mem_Iterator \<Rightarrow> bytes" where
  "mem_Key it = i_Key (mi_entries it ! mi_pos it)"

definition mem_Value :: "mem_Iterator \<Rightarrow> bytes" where
  "mem_Value it = i_Value (mi_entries it ! mi_pos it)"

definition mem_Next :: "mem_Iterator \<Rightarrow> mem_Iterator" where
  "mem_Next it = it\<lparr>mi_pos := mi_pos it + 1\<rparr>"

subsection \<open>Abstraction\<close>

definition ikey :: "Item \<Rightarrow> InternalKey" where
  "ikey i = DecodeInternalKey (i_Key i)"

definition item_version :: "Item \<Rightarrow> version" where
  "item_version i = (ikey i, i_Value i)"

definition mt_versions :: "'t btree \<Rightarrow> 't MemTable \<Rightarrow> version list" where
  "mt_versions bt mt = map item_version (bt_Ascend bt (tree mt))"

text \<open>Every stored key is an encoded internal key with a valid kind.\<close>

definition item_ok :: "Item \<Rightarrow> bool" where
  "item_ok i \<longleftrightarrow> 8 \<le> length (i_Key i) \<and> key_Valid (ikey i)"

definition mt_inv :: "'t btree \<Rightarrow> ('t \<Rightarrow> bool) \<Rightarrow> 't MemTable \<Rightarrow> bool" where
  "mt_inv bt ok mt \<longleftrightarrow> ok (tree mt) \<and> (\<forall>i \<in> set (bt_Ascend bt (tree mt)). item_ok i)"

text \<open>A red-black tree as the ordered tree.\<close>

definition rbt_btree :: "(InternalKey, Item) rbt btree" where
  "rbt_btree =
     \<lparr>bt_New = (\<lambda>_. RBT.empty),
      bt_ReplaceOrInsert = (\<lambda>x t. RBT.insert (ikey x) x t),
      bt_Ascend = (\<lambda>t. map snd (RBT.entries t)),
      bt_AscendGreaterOrEqual = (\<lambda>p t. filter (\<lambda>x. \<not> item_Less x p) (map snd (RBT.entries t)))\<rparr>"

definition rbt_ok :: "(InternalKey, Item) rbt \<Rightarrow> bool" where
  "rbt_ok t \<longleftrightarrow> (\<forall>kx \<in> set (RBT.entries t). fst kx = ikey (snd kx))"

section \<open>What the memtable relies on\<close>

lemma item_Less_iff: "item_Less a b \<longleftrightarrow> ikey a < ikey b"
  by (simp add: item_Less_def ikey_def order_simps)

lemma item_Less_eq: "item_Less = (\<lambda>a b. ikey a < ikey b)"
  by (intro ext) (rule item_Less_iff)

lemma iterate_scan:
  assumes "\<And>x acc. \<not> P x \<Longrightarrow> f x acc = (False, acc)"
    and "\<And>x acc. P x \<Longrightarrow> f x acc = (True, if Q x then acc @ [x] else acc)"
  shows "iterate f xs acc = acc @ filter Q (takeWhile P xs)"
  by (induction xs arbitrary: acc) (auto simp: assms)

locale google_btree =
  fixes bt :: "'t btree" and ok :: "'t \<Rightarrow> bool"
  assumes New_ok: "ok (bt_New bt d)"
    and New_items: "bt_Ascend bt (bt_New bt d) = []"
    and insert_ok: "ok t \<Longrightarrow> ok (bt_ReplaceOrInsert bt x t)"
    and insert_items: "ok t \<Longrightarrow> set (bt_Ascend bt (bt_ReplaceOrInsert bt x t)) =
      insert x {y \<in> set (bt_Ascend bt t). item_Less x y \<or> item_Less y x}"
    and ascending: "ok t \<Longrightarrow> sorted_wrt item_Less (bt_Ascend bt t)"
    and ascend_ge: "ok t \<Longrightarrow> bt_AscendGreaterOrEqual bt p t = filter (\<lambda>x. \<not> item_Less x p) (bt_Ascend bt t)"
begin

lemma mt_inv_New: "mt_inv bt ok (NewMemTable bt)"
  by (simp add: mt_inv_def NewMemTable_def New_ok New_items)

lemma mt_versions_New: "mt_versions bt (NewMemTable bt) = []"
  by (simp add: mt_versions_def NewMemTable_def New_items)

lemma sorted_mt_versions: "mt_inv bt ok mt \<Longrightarrow> sorted_versions (mt_versions bt mt)"
  using ascending [of "tree mt"]
  by (auto simp: sorted_versions_def mt_versions_def mt_inv_def item_ok_def item_version_def
      sorted_wrt_map item_Less_eq)

lemma mt_inv_insert:
  assumes "mt_inv bt ok mt" "item_ok (Item k v)"
  shows "mt_inv bt ok (memtable_insert bt k v mt)"
  using assms by (auto simp: mt_inv_def memtable_insert_def insert_ok insert_items)

lemma mt_versions_insert:
  assumes "mt_inv bt ok mt"
  shows "set (mt_versions bt (memtable_insert bt k v mt)) =
    insert (DecodeInternalKey k, v) {kv \<in> set (mt_versions bt mt). fst kv \<noteq> DecodeInternalKey k}"
proof -
  have "set (mt_versions bt (memtable_insert bt k v mt)) =
      item_version ` insert (Item k v) {y \<in> set (bt_Ascend bt (tree mt)). ikey y \<noteq> ikey (Item k v)}"
    using assms by (auto simp: mt_inv_def mt_versions_def memtable_insert_def insert_items item_Less_iff neq_iff)
  then show ?thesis
    by (auto simp: mt_versions_def item_version_def ikey_def)
qed

lemma ascend_ge_versions:
  assumes "mt_inv bt ok mt"
  shows "map item_version (bt_AscendGreaterOrEqual bt (Item (encodeSearchKey u s) []) (tree mt)) =
    dropWhile (\<lambda>kv. fst kv < MakeSearchKeyAt u s) (mt_versions bt mt)"
  unfolding dropWhile_sorted [OF sorted_mt_versions [OF assms]]
  using assms
  by (simp add: mt_inv_def ascend_ge mt_versions_def filter_map comp_def item_version_def item_Less_iff
      not_less ikey_def encodeSearchKey_def)

lemma memtable_Get_spec:
  assumes "mt_inv bt ok mt" "snapshot \<le> SeqNumMax"
  shows "memtable_Get bt u snapshot mt = lookup_spec u snapshot (mt_versions bt mt)"
proof -
  let ?is = "bt_AscendGreaterOrEqual bt (Item (encodeSearchKey u snapshot) []) (tree mt)"
  have "lookup_spec u snapshot (mt_versions bt mt) =
      answer (case map item_version ?is of [] \<Rightarrow> None | kv # _ \<Rightarrow> if UserKey (fst kv) = u then Some kv else None)"
    unfolding lookup_spec_def seek_lookup [OF sorted_mt_versions [OF assms(1)] assms(2)]
      ascend_ge_versions [OF assms(1)] ..
  then show ?thesis
    by (cases ?is) (auto simp: memtable_Get_def answer_def item_version_def ikey_def)
qed

lemma mem_NewIterator_spec:
  assumes "mt_inv bt ok mt" "snapshot \<le> SeqNumMax"
  shows "map item_version (mi_entries (mem_NewIterator bt mt lower upper snapshot)) =
    filter (in_range lower upper snapshot) (mt_versions bt mt)"
proof -
  let ?is = "bt_AscendGreaterOrEqual bt (Item (encodeSearchKey lower snapshot) []) (tree mt)"
  have "mi_entries (mem_NewIterator bt mt lower upper snapshot) =
      filter (\<lambda>i. Visible (ikey i) snapshot) (takeWhile (\<lambda>i. below upper (UserKey (ikey i))) ?is)"
    unfolding mem_NewIterator_def Let_def mem_Iterator.simps
    by (subst iterate_scan [where P = "\<lambda>i. below upper (UserKey (ikey i))" and
          Q = "\<lambda>i. Visible (ikey i) snapshot"])
      (auto simp: below_def ikey_def order_simps not_less split: option.splits)
  then have "map item_version (mi_entries (mem_NewIterator bt mt lower upper snapshot)) =
      filter (\<lambda>kv. Visible (fst kv) snapshot)
        (takeWhile (\<lambda>kv. below upper (UserKey (fst kv))) (map item_version ?is))"
    by (simp add: filter_map takeWhile_map comp_def item_version_def)
  then show ?thesis
    unfolding ascend_ge_versions [OF assms(1)] seek_range [OF sorted_mt_versions [OF assms(1)] assms(2)] .
qed

end

section \<open>The red-black tree instance\<close>

lemma rbt_entries_lookup: "(k, x) \<in> set (RBT.entries t) \<longleftrightarrow> RBT.lookup t k = Some x"
  using map_of_eq_Some_iff [OF RBT.distinct_entries, of t k x] unfolding RBT.map_of_entries by blast

lemma rbt_ok_lookup: "rbt_ok t \<longleftrightarrow> (\<forall>k x. RBT.lookup t k = Some x \<longrightarrow> k = ikey x)"
  by (simp add: rbt_ok_def Ball_def rbt_entries_lookup)

lemma rbt_items:
  "rbt_ok t \<Longrightarrow> x \<in> set (bt_Ascend rbt_btree t) \<longleftrightarrow> RBT.lookup t (ikey x) = Some x"
  by (auto simp: rbt_ok_lookup rbt_btree_def image_iff Bex_def rbt_entries_lookup)

lemma rbt_ok_insert: "rbt_ok t \<Longrightarrow> rbt_ok (bt_ReplaceOrInsert rbt_btree x t)"
  by (simp add: rbt_ok_lookup rbt_btree_def)

lemma rbt_entries_empty: "RBT.entries RBT.empty = ([] :: (InternalKey \<times> Item) list)"
proof -
  have "kx \<notin> set (RBT.entries RBT.empty)" for kx :: "InternalKey \<times> Item"
    by (cases kx) (simp add: rbt_entries_lookup)
  then show ?thesis by (metis list.set_intros(1) neq_Nil_conv)
qed

interpretation rbt: google_btree rbt_btree rbt_ok
proof (unfold_locales, goal_cases)
  case (1 d)
  show ?case by (simp add: rbt_btree_def rbt_ok_lookup)
next
  case (2 d)
  show ?case by (simp add: rbt_btree_def rbt_entries_empty)
next
  case (3 t x)
  then show ?case by (rule rbt_ok_insert)
next
  case (4 t x)
  have "y \<in> set (bt_Ascend rbt_btree (bt_ReplaceOrInsert rbt_btree x t)) \<longleftrightarrow>
      y = x \<or> y \<in> set (bt_Ascend rbt_btree t) \<and> ikey y \<noteq> ikey x" for y
    unfolding rbt_items [OF rbt_ok_insert [OF 4]] rbt_items [OF 4] by (auto simp: rbt_btree_def)
  then show ?case by (auto simp: item_Less_iff neq_iff)
next
  case (5 t)
  have "sorted_wrt (<) (map fst (RBT.entries t))"
    using RBT.sorted_entries RBT.distinct_entries strict_sorted_iff by blast
  moreover have "map fst (RBT.entries t) = map ikey (map snd (RBT.entries t))"
    using 5 by (auto simp: rbt_ok_def)
  ultimately show ?case
    by (simp add: rbt_btree_def item_Less_eq sorted_wrt_map)
next
  case (6 t p)
  show ?case by (simp add: rbt_btree_def)
qed

section \<open>Properties\<close>

text \<open>A run of writes: each is an internal key with a value, a tombstone going through \<^verbatim>\<open>Delete\<close>.\<close>

definition mem_apply :: "'t btree \<Rightarrow> version \<Rightarrow> 't MemTable \<Rightarrow> 't MemTable" where
  "mem_apply bt kv mt =
     (if key_Kind (fst kv) = InternalKeyKindDelete then memtable_Delete bt (encode_key (fst kv)) mt
      else memtable_Put bt (encode_key (fst kv)) (snd kv) mt)"

definition wf_version :: "version \<Rightarrow> bool" where
  "wf_version kv \<longleftrightarrow> key_Valid (fst kv) \<and> (key_Kind (fst kv) = InternalKeyKindDelete \<longrightarrow> snd kv = [])"

lemma mem_apply_eq: "wf_version kv \<Longrightarrow> mem_apply bt kv mt = memtable_insert bt (encode_key (fst kv)) (snd kv) mt"
  by (auto simp: mem_apply_def memtable_Delete_def memtable_Put_def wf_version_def)

context google_btree
begin

lemma mem_apply_run:
  assumes "list_all wf_version kvs" "distinct (map fst kvs)"
  shows "mt_inv bt ok (fold (mem_apply bt) kvs (NewMemTable bt)) \<and>
    set (mt_versions bt (fold (mem_apply bt) kvs (NewMemTable bt))) = set kvs"
  using assms
proof (induction kvs rule: rev_induct)
  case Nil
  show ?case by (simp add: mt_inv_New mt_versions_New)
next
  case (snoc kv kvs)
  let ?mt = "fold (mem_apply bt) kvs (NewMemTable bt)"
  have IH: "mt_inv bt ok ?mt" "set (mt_versions bt ?mt) = set kvs"
    using snoc by simp_all
  have wf: "wf_version kv" "item_ok (Item (encode_key (fst kv)) (snd kv))"
    using snoc.prems(1) by (auto simp: wf_version_def item_ok_def ikey_def)
  have "set (mt_versions bt (mem_apply bt kv ?mt)) = insert kv {x \<in> set kvs. fst x \<noteq> fst kv}"
    unfolding mem_apply_eq [OF wf(1)] mt_versions_insert [OF IH(1)] IH(2) by simp
  also have "\<dots> = set (kvs @ [kv])"
    using snoc.prems(2) by (auto simp: image_iff)
  finally show ?case
    using mt_inv_insert [OF IH(1) wf(2)] mem_apply_eq [OF wf(1), of bt ?mt] by simp
qed

lemma mem_apply_lookup:
  assumes "list_all wf_version kvs" "distinct (map fst kvs)" "snapshot \<le> SeqNumMax"
  shows "memtable_Get bt u snapshot (fold (mem_apply bt) kvs (NewMemTable bt)) = lookup_spec u snapshot kvs"
proof -
  let ?mt = "fold (mem_apply bt) kvs (NewMemTable bt)"
  note run = mem_apply_run [OF assms(1,2)]
  have "newest u snapshot (mt_versions bt ?mt) = newest u snapshot kvs"
    using run sorted_versions_fun [OF sorted_mt_versions] by (intro newest_cong) auto
  then show ?thesis
    using memtable_Get_spec [of ?mt snapshot u] run assms(3) by (simp add: lookup_spec_def)
qed

end

text \<open>C23: The memtable is a multi-version map. After any run of puts and deletes with distinct internal
  keys on a new memtable, whatever tree implements the ordered map, a lookup at a snapshot returns
  the newest version of the key written at or before the snapshot, reports a tombstone as deleted
  and a key without such a version as absent.\<close>

theorem memtable_lookup_newest_visible:
  assumes "google_btree bt ok"
    and "list_all wf_version kvs" "distinct (map fst kvs)" "snapshot \<le> SeqNumMax"
  shows "memtable_Get bt u snapshot (fold (mem_apply bt) kvs (NewMemTable bt)) = lookup_spec u snapshot kvs"
  using google_btree.mem_apply_lookup [OF assms] .

theorem memtable_lookup_newest_visible_witness:
  "memtable_Get rbt_btree [7] 4
     (fold (mem_apply rbt_btree)
        [(MakeInternalKey [7] 3 InternalKeyKindSet, [1]), (MakeInternalKey [7] 5 InternalKeyKindDelete, [])]
        (NewMemTable rbt_btree)) = ([1], KEY_FOUND)"
  using memtable_lookup_newest_visible [OF rbt.google_btree_axioms,
      of "[(MakeInternalKey [7] 3 InternalKeyKindSet, [1]), (MakeInternalKey [7] 5 InternalKeyKindDelete, [])]" 4 "[7]"]
  by (simp add: wf_version_def key_Valid_def SeqNumMax_eq InternalKeyKindMax_def lookup_spec_def newest_def
      answer_def matches_def Visible_def InternalKeyKindSet_def InternalKeyKindDelete_def MakeInternalKey_def
      MakeTrailer_def key_Kind_def key_SeqNum_def trailer_Kind_def trailer_SeqNum_def)

text \<open>C24: A memtable scan is exact. The iterator collects, in key order, exactly the versions whose user
  key lies between the bounds and that the snapshot sees; sizes count every write.\<close>

theorem mem_iterator_exact:
  assumes "google_btree bt ok" "mt_inv bt ok mt" "snapshot \<le> SeqNumMax"
  shows "map item_version (mi_entries (mem_NewIterator bt mt lower upper snapshot)) =
      filter (in_range lower upper snapshot) (mt_versions bt mt) \<and>
    sorted_versions (mt_versions bt mt)"
  using google_btree.mem_NewIterator_spec [OF assms] google_btree.sorted_mt_versions [OF assms(1,2)] by blast

theorem mem_iterator_exact_witness:
  "map item_version (mi_entries (mem_NewIterator rbt_btree
      (memtable_Put rbt_btree (encode_key (MakeInternalKey [7] 3 InternalKeyKindSet)) [1] (NewMemTable rbt_btree))
      [] None 9)) =
    [(MakeInternalKey [7] 3 InternalKeyKindSet, [1])]"
proof -
  let ?k = "MakeInternalKey [7] 3 InternalKeyKindSet"
  let ?mt = "memtable_insert rbt_btree (encode_key ?k) [1] (NewMemTable rbt_btree)"
  have inv: "mt_inv rbt_btree rbt_ok ?mt"
    by (intro rbt.mt_inv_insert rbt.mt_inv_New)
      (simp add: item_ok_def ikey_def key_Valid_def InternalKeyKindMax_def InternalKeyKindSet_def)
  have vs: "set (mt_versions rbt_btree ?mt) = {(?k, [1])}"
    unfolding rbt.mt_versions_insert [OF rbt.mt_inv_New] rbt.mt_versions_New by simp
  have "sorted_versions (mt_versions rbt_btree ?mt)"
    using mem_iterator_exact [OF rbt.google_btree_axioms inv, of 9 "[]" None] by (simp add: SeqNumMax_eq)
  then have "distinct (mt_versions rbt_btree ?mt)"
    unfolding sorted_versions_def by (auto simp: strict_sorted_iff distinct_map)
  with vs have "mt_versions rbt_btree ?mt = [(?k, [1])]"
    by (cases "mt_versions rbt_btree ?mt") (auto simp: insert_eq_iff subset_singleton_iff)
  moreover have "in_range [] None 9 (?k, [1])"
    by (simp add: in_range_def below_def Visible_def SeqNumMax_eq)
  ultimately show ?thesis
    using mem_iterator_exact [OF rbt.google_btree_axioms inv, of 9 "[]" None]
    by (simp add: memtable_Put_def SeqNumMax_eq)
qed

end
