(* ===== verification/Sstable_Writer.thy ===== *)
theory Sstable_Writer
  imports Sstable_Format Bloom_Filter Memtable
begin

text \<open>
  Model of \<^verbatim>\<open>sstable/writer.go\<close>, \<^verbatim>\<open>write_from_entries.go\<close>, \<^verbatim>\<open>write_block_collector.go\<close> and \<^verbatim>\<open>atomic_install.go\<close>:
  both writers, block by block through the buffered writer into a temporary file, then sync, rename
  and directory sync. \<open>table_bytes\<close> is the image of a table as a pure function of its entries; the
  lemmas show that a writer that reports success has installed exactly this image, that a writer
  that fails leaves the final path as it was or complete, and that \<^verbatim>\<open>Flush\<close> writes what
  \<^verbatim>\<open>WriteSSTableFromBlockEntries\<close> writes for the memtable's entries.
\<close>

section \<open>Definitions\<close>

record SSTable =
  FilePath :: gostring
  sst_index :: "IndexEntry list"
  sst_bloom :: "BloomFilter option"
  sst_cache :: bool

text \<open>The cache is shared; a table only records whether it has been attached.\<close>

definition SetCache :: "SSTable \<Rightarrow> SSTable" where
  "SetCache sst = sst\<lparr>sst_cache := True\<rparr>"

subsection \<open>Block collector\<close>

record blockCollector =
  bc_entries :: "BlockEntry list"
  sizeEstimate :: nat
  lastFirstKey :: bytes

definition newBlockCollector :: blockCollector where
  "newBlockCollector = \<lparr>bc_entries = [], sizeEstimate = 0, lastFirstKey = []\<rparr>"

definition collector_add :: "BlockEntry \<Rightarrow> blockCollector \<Rightarrow> blockCollector" where
  "collector_add e bc =
     \<lparr>bc_entries = bc_entries bc @ [e],
      sizeEstimate = sizeEstimate bc + (length (be_Key e) + length (be_Value e) + 8),
      lastFirstKey = (if length (bc_entries bc) = 0 then be_Key e else lastFirstKey bc)\<rparr>"

definition collector_size :: "blockCollector \<Rightarrow> nat" where
  "collector_size bc = sizeEstimate bc"

definition collector_len :: "blockCollector \<Rightarrow> nat" where
  "collector_len bc = length (bc_entries bc)"

definition drain :: "blockCollector \<Rightarrow> BlockEntry list \<times> blockCollector" where
  "drain bc = (bc_entries bc, \<lparr>bc_entries = [], sizeEstimate = 0, lastFirstKey = []\<rparr>)"

subsection \<open>Writing blocks\<close>

definition flushBlock ::
  "BlockEntry list \<Rightarrow> i64 \<Rightarrow> BufWriter \<Rightarrow> world \<Rightarrow> ((i64 \<times> go_error option) \<times> BufWriter) \<times> world" where
  "flushBlock entries currentOffset b w =
     (let blockBytes = encodeBlock entries
      in case bw_put blockBytes b w of
           ((Some e, b'), w') \<Rightarrow> (((currentOffset, Some e), b'), w')
         | ((None, b'), w') \<Rightarrow> (((currentOffset + word_of_nat (length blockBytes), None), b'), w'))"

fun indexSize :: "IndexEntry list \<Rightarrow> i64" where
  "indexSize [] = 0"
| "indexSize (e # entries) = 4 + word_of_nat (length (FirstKey e)) + 8 + 4 + indexSize entries"

text \<open>The local variables of the two writers.\<close>

record builder =
  bl_writer :: BufWriter
  bl_bloom :: BloomFilter
  bl_coll :: blockCollector
  bl_index :: "IndexEntry list"
  bl_offset :: i64

definition new_builder :: "gostring \<Rightarrow> BloomFilter \<Rightarrow> builder" where
  "new_builder tmpPath bloom =
     \<lparr>bl_writer = bw_new tmpPath (Some 0), bl_bloom = bloom, bl_coll = newBlockCollector, bl_index = [], bl_offset = 0\<rparr>"

definition emitBlock :: "builder \<Rightarrow> world \<Rightarrow> (go_error option \<times> builder) \<times> world" where
  "emitBlock st w =
     (let firstKey = lastFirstKey (bl_coll st)
      in case drain (bl_coll st) of (drained, coll) \<Rightarrow>
         (case flushBlock drained (bl_offset st) (bl_writer st) w of
            (((newOffset, Some e), b), w') \<Rightarrow> ((Some e, st\<lparr>bl_coll := coll, bl_writer := b\<rparr>), w')
          | (((newOffset, None), b), w') \<Rightarrow>
              ((None, st\<lparr>bl_coll := coll, bl_writer := b,
                        bl_index := bl_index st @ [IndexEntry firstKey (bl_offset st) (ucast (newOffset - bl_offset st))],
                        bl_offset := newOffset\<rparr>), w')))"

text \<open>The closure \<^verbatim>\<open>flushCurrent\<close> of the other writer, which has its own copy of this code.\<close>

definition flushCurrent :: "builder \<Rightarrow> world \<Rightarrow> (go_error option \<times> builder) \<times> world" where
  "flushCurrent st w =
     (if collector_len (bl_coll st) = 0 then ((None, st), w)
      else
        (let firstKey = lastFirstKey (bl_coll st);
             drained = fst (drain (bl_coll st));
             st1 = st\<lparr>bl_coll := snd (drain (bl_coll st))\<rparr>
         in case flushBlock drained (bl_offset st1) (bl_writer st1) w of
              (((_, Some err), b), w') \<Rightarrow> ((Some err, st1\<lparr>bl_writer := b\<rparr>), w')
            | (((newOffset, None), b), w') \<Rightarrow>
                (let e = IndexEntry firstKey (bl_offset st1) (ucast (newOffset - bl_offset st1))
                 in ((None, st1\<lparr>bl_writer := b, bl_index := bl_index st1 @ [e], bl_offset := newOffset\<rparr>), w'))))"

subsection \<open>Installing the file\<close>

definition atomicInstall :: "gostring \<Rightarrow> gostring \<Rightarrow> unit io" where
  "atomicInstall tmpPath finalPath = bind_io (os_Rename tmpPath finalPath) (\<lambda>_. dir_Sync)"

definition finishTable :: "gostring \<Rightarrow> gostring \<Rightarrow> builder \<Rightarrow> SSTable io" where
  "finishTable tmpPath finalPath st w =
     (let indexOffset = bl_offset st;
          bloomBytes = Serialize (bl_bloom st);
          bloomOffset = indexOffset + indexSize (bl_index st);
          output =
            bw_seq (encodeIndex (bl_index st))
              (bw_seq (bw_put (PutUint32 (word_of_nat (length bloomBytes))))
                (bw_seq (bw_put bloomBytes)
                  (bw_seq (encodeFooterWithBloom indexOffset (word_of_nat (length (bl_index st))) bloomOffset) bw_Flush)))
      in case output (bl_writer st) w of
           ((Some e, _), w') \<Rightarrow> (Inl e, w')
         | ((None, _), w') \<Rightarrow>
             bind_io (file_Sync tmpPath) (\<lambda>_.
               bind_io (atomicInstall tmpPath finalPath) (\<lambda>_.
                 return_io \<lparr>FilePath = finalPath, sst_index = bl_index st, sst_bloom = Some (bl_bloom st),
                            sst_cache = False\<rparr>)) w')"

text \<open>The deferred clean-up; it does not run its body when the function panics.\<close>

definition removeOnError :: "gostring \<Rightarrow> (go_error + 'a) \<times> world \<Rightarrow> (go_error + 'a) \<times> world" where
  "removeOnError tmpPath rw =
     (case rw of
        (Inl e, w) \<Rightarrow> (Inl e, if e = Panic then w else snd (os_Remove tmpPath w))
      | (Inr x, w) \<Rightarrow> (Inr x, w))"

subsection \<open>The compaction-side writer\<close>

fun write_loop :: "BlockEntry list \<Rightarrow> builder \<Rightarrow> world \<Rightarrow> (go_error option \<times> builder) \<times> world" where
  "write_loop [] st w = ((None, st), w)"
| "write_loop (e # entries) st w =
     (let st1 = st\<lparr>bl_coll := collector_add e (bl_coll st)\<rparr>
      in if collector_size (bl_coll st1) \<ge> DEFAULT_BLOCK_SIZE
         then (case flushCurrent st1 w of
                 ((Some err, st2), w2) \<Rightarrow> ((Some err, st2), w2)
               | ((None, st2), w2) \<Rightarrow> write_loop entries st2 w2)
         else write_loop entries st1 w)"

text \<open>The end of the function, from the index to the installed table.\<close>

definition finishEntries :: "gostring \<Rightarrow> gostring \<Rightarrow> builder \<Rightarrow> SSTable io" where
  "finishEntries tmpPath finalPath st w =
     (let indexOffset = bl_offset st;
          indexEntries = bl_index st;
          bloomBytes = Serialize (bl_bloom st);
          bloomOffset = indexOffset + indexSize indexEntries
      in case encodeIndex indexEntries (bl_writer st) w of
           ((Some e, _), w1) \<Rightarrow> (Inl e, w1)
         | ((None, b1), w1) \<Rightarrow>
             (case bw_put (PutUint32 (word_of_nat (length bloomBytes))) b1 w1 of
                ((Some e, _), w2) \<Rightarrow> (Inl e, w2)
              | ((None, b2), w2) \<Rightarrow>
                  (case bw_put bloomBytes b2 w2 of
                     ((Some e, _), w3) \<Rightarrow> (Inl e, w3)
                   | ((None, b3), w3) \<Rightarrow>
                       (case encodeFooterWithBloom indexOffset (word_of_nat (length indexEntries)) bloomOffset b3 w3 of
                          ((Some e, _), w4) \<Rightarrow> (Inl e, w4)
                        | ((None, b4), w4) \<Rightarrow>
                            (case bw_Flush b4 w4 of
                               ((Some e, _), w5) \<Rightarrow> (Inl e, w5)
                             | ((None, b5), w5) \<Rightarrow>
                                 (case file_Sync tmpPath w5 of
                                    (Inl e, w6) \<Rightarrow> (Inl e, w6)
                                  | (Inr _, w6) \<Rightarrow>
                                      (case atomicInstall tmpPath finalPath w6 of
                                         (Inl e, w7) \<Rightarrow> (Inl e, w7)
                                       | (Inr _, w7) \<Rightarrow>
                                           (Inr \<lparr>FilePath = finalPath, sst_index = indexEntries,
                                                 sst_bloom = Some (bl_bloom st), sst_cache = False\<rparr>, w7))))))))"

definition WriteSSTableFromBlockEntries :: "gostring \<Rightarrow> BlockEntry list \<Rightarrow> SSTable io" where
  "WriteSSTableFromBlockEntries finalPath entries w =
     (let tmpPath = finalPath @ lit ''.tmp''
      in case os_Create tmpPath w of
           (Inl e, w1) \<Rightarrow> (Inl e, w1)
         | (Inr _, w1) \<Rightarrow>
             removeOnError tmpPath
               (case bloom_Add_all (map (\<lambda>e. UserKey (DecodeInternalKey (be_Key e))) entries)
                       (NewBloomFilter DEFAULT_BLOOM_EXPECTED_KEYS) of
                  None \<Rightarrow> (Inl Panic, w1)
                | Some bloom \<Rightarrow>
                    (case write_loop entries (new_builder tmpPath bloom) w1 of
                       ((Some e, _), w2) \<Rightarrow> (Inl e, w2)
                     | ((None, st), w2) \<Rightarrow>
                         (case flushCurrent st w2 of
                            ((Some e, _), w3) \<Rightarrow> (Inl e, w3)
                          | ((None, st'), w3) \<Rightarrow> finishEntries tmpPath finalPath st' w3))))"

subsection \<open>Flushing a memtable\<close>

definition flush_visit ::
  "bytes \<Rightarrow> bytes \<Rightarrow> builder \<times> go_error option \<times> world \<Rightarrow> bool \<times> builder \<times> go_error option \<times> world" where
  "flush_visit key value s =
     (case s of (st, iterErr, w) \<Rightarrow>
        (case bloom_Add (UserKey (DecodeInternalKey key)) (bl_bloom st) of
           None \<Rightarrow> (False, st, Some Panic, w)
         | Some bloom \<Rightarrow>
             (let st1 = st\<lparr>bl_bloom := bloom, bl_coll := collector_add (BlockEntry key value) (bl_coll st)\<rparr>
              in if collector_size (bl_coll st1) \<ge> DEFAULT_BLOCK_SIZE
                 then (case emitBlock st1 w of
                         ((Some e, st2), w2) \<Rightarrow> (False, st2, Some e, w2)
                       | ((None, st2), w2) \<Rightarrow> (True, st2, iterErr, w2))
                 else (True, st1, iterErr, w))))"

definition sst_path :: "gostring \<Rightarrow> nat \<Rightarrow> gostring" where
  "sst_path dirPath stamp = dirPath @ lit ''/'' @ dec_nat stamp @ lit ''.sst''"

definition Flush :: "'t btree \<Rightarrow> 't MemTable \<Rightarrow> gostring \<Rightarrow> SSTable io" where
  "Flush bt memTable dirPath w =
     (case time_Now w of (now, w0) \<Rightarrow>
        (let finalPath = sst_path dirPath now;
             tmpPath = finalPath @ lit ''.tmp''
         in case os_Create tmpPath w0 of
              (Inl e, w1) \<Rightarrow> (Inl e, w1)
            | (Inr _, w1) \<Rightarrow>
                removeOnError tmpPath
                  (case memtable_Ascend bt flush_visit memTable
                          (new_builder tmpPath (NewBloomFilter DEFAULT_BLOOM_EXPECTED_KEYS), None, w1) of
                     (_, Some e, w2) \<Rightarrow> (Inl e, w2)
                   | (st, None, w2) \<Rightarrow>
                       (if collector_len (bl_coll st) > 0
                        then (case emitBlock st w2 of
                                ((Some e, _), w3) \<Rightarrow> (Inl e, w3)
                              | ((None, st'), w3) \<Rightarrow> finishTable tmpPath finalPath st' w3)
                        else finishTable tmpPath finalPath st w2))))"

subsection \<open>The image of a table\<close>

definition entry_size :: "BlockEntry \<Rightarrow> nat" where
  "entry_size e = length (be_Key e) + length (be_Value e) + 8"

fun chunk :: "BlockEntry list \<Rightarrow> BlockEntry list \<Rightarrow> BlockEntry list list" where
  "chunk cur [] = (if cur = [] then [] else [cur])"
| "chunk cur (e # es) =
     (if sum_list (map entry_size (cur @ [e])) \<ge> DEFAULT_BLOCK_SIZE then (cur @ [e]) # chunk [] es
      else chunk (cur @ [e]) es)"

definition blocks_bytes :: "BlockEntry list list \<Rightarrow> bytes" where
  "blocks_bytes bs = concat (map encodeBlock bs)"

definition block_index :: "BlockEntry list list \<Rightarrow> nat \<Rightarrow> IndexEntry" where
  "block_index bs i =
     IndexEntry (be_Key (hd (bs ! i))) (word_of_nat (length (blocks_bytes (take i bs))))
       (word_of_nat (length (encodeBlock (bs ! i))))"

definition index_of :: "BlockEntry list list \<Rightarrow> IndexEntry list" where
  "index_of bs = map (block_index bs) [0..<length bs]"

definition user_keys :: "BlockEntry list \<Rightarrow> bytes list" where
  "user_keys es = map (\<lambda>e. UserKey (DecodeInternalKey (be_Key e))) es"

definition bloom_of :: "BlockEntry list \<Rightarrow> BloomFilter" where
  "bloom_of es = the (bloom_Add_all (user_keys es) (NewBloomFilter DEFAULT_BLOOM_EXPECTED_KEYS))"

definition table_bytes :: "BlockEntry list \<Rightarrow> bytes" where
  "table_bytes es =
     (let bs = chunk [] es;
          bloomBytes = Serialize (bloom_of es);
          indexOffset = word_of_nat (length (blocks_bytes bs))
      in blocks_bytes bs @ concat (map index_bytes (index_of bs)) @
         PutUint32 (word_of_nat (length bloomBytes)) @ bloomBytes @
         PutUint64 indexOffset @ PutUint32 (word_of_nat (length (index_of bs))) @
         PutUint64 (indexOffset + indexSize (index_of bs)))"

definition table_of :: "gostring \<Rightarrow> BlockEntry list \<Rightarrow> SSTable" where
  "table_of path es =
     \<lparr>FilePath = path, sst_index = index_of (chunk [] es), sst_bloom = Some (bloom_of es), sst_cache = False\<rparr>"

section \<open>The copies of code in the two writers agree\<close>

lemma flushCurrent_emit:
  "flushCurrent st w = (if collector_len (bl_coll st) = 0 then ((None, st), w) else emitBlock st w)"
  by (simp add: flushCurrent_def emitBlock_def Let_def split: prod.splits option.splits)

lemma finishEntries_eq: "finishEntries tmpPath finalPath st = finishTable tmpPath finalPath st"
  by (rule ext)
    (simp add: finishEntries_def finishTable_def bw_seq_def bind_io_def return_io_def Let_def split: prod.splits option.splits sum.splits)

lemmas WriteSSTable_eq = WriteSSTableFromBlockEntries_def [unfolded finishEntries_eq]

section \<open>Chunks and their index\<close>

lemma concat_chunk: "concat (chunk cur es) = cur @ es"
  by (induction cur es rule: chunk.induct) auto

lemma chunk_nonempty: "b \<in> set (chunk cur es) \<Longrightarrow> b \<noteq> []"
  by (induction cur es rule: chunk.induct) (auto split: if_splits)

lemma blocks_bytes_snoc: "blocks_bytes (bs @ [b]) = blocks_bytes bs @ encodeBlock b"
  by (simp add: blocks_bytes_def)

lemma length_index_of [simp]: "length (index_of bs) = length bs"
  by (simp add: index_of_def)

lemma index_of_nth: "i < length bs \<Longrightarrow> index_of bs ! i = block_index bs i"
  by (simp add: index_of_def)

lemma index_of_snoc:
  "index_of (bs @ [b]) = index_of bs @
    [IndexEntry (be_Key (hd b)) (word_of_nat (length (blocks_bytes bs))) (word_of_nat (length (encodeBlock b)))]"
  by (auto simp: index_of_def block_index_def nth_append)

lemma indexSize_eq: "indexSize idx = word_of_nat (length (concat (map index_bytes idx)))"
  by (induction idx) (simp_all add: index_bytes_def)

lemma ucast_of_nat: "ucast (word_of_nat n :: i64) = (word_of_nat n :: i32)"
  by (rule bit_word_eqI) (simp add: bit_simps)

lemma default_bloom:
  "bloom_Add_all (user_keys es) (NewBloomFilter DEFAULT_BLOOM_EXPECTED_KEYS) = Some (bloom_of es)"
  "bloom_inv (bloom_of es)" "u \<in> set (user_keys es) \<Longrightarrow> MightContain u (bloom_of es) = Some True"
  using bloom_Add_all_ok [OF NewBloomFilter_default(1), of "user_keys es"]
  by (auto simp: bloom_of_def list_all_iff)

section \<open>Correctness of the block loop\<close>

definition building :: "gostring \<Rightarrow> BlockEntry list list \<Rightarrow> BlockEntry list \<Rightarrow> builder \<Rightarrow> world \<Rightarrow> bool" where
  "building p bs cur st w \<longleftrightarrow>
     wrote p (blocks_bytes bs) (bl_writer st) w \<and> bl_index st = index_of bs \<and>
     bl_offset st = word_of_nat (length (blocks_bytes bs)) \<and>
     bc_entries (bl_coll st) = cur \<and> sizeEstimate (bl_coll st) = sum_list (map entry_size cur) \<and>
     (cur \<noteq> [] \<longrightarrow> lastFirstKey (bl_coll st) = be_Key (hd cur))"

text \<open>What holds after a step of the writer: \<open>Q\<close> unless it reports an error, and no other file changed.\<close>

definition step_ok :: "gostring \<Rightarrow> world \<Rightarrow> (builder \<Rightarrow> world \<Rightarrow> bool) \<Rightarrow> (go_error option \<times> builder) \<times> world \<Rightarrow> bool" where
  "step_ok p w Q r \<longleftrightarrow>
     (case r of ((e, st), w') \<Rightarrow>
        only_touches p w w' \<and> (e = None \<longrightarrow> Q st w') \<and> (faults w = [] \<longrightarrow> e = None \<and> faults w' = []) \<and> e \<noteq> Some Panic)"

lemma building_add:
  assumes "building p bs cur st w"
  shows "building p bs (cur @ [e]) (st\<lparr>bl_coll := collector_add e (bl_coll st)\<rparr>) w"
  using assms by (auto simp: building_def collector_add_def entry_size_def)

lemma emitBlock_ok:
  assumes "building p bs cur st w" "cur \<noteq> []"
  shows "step_ok p w (\<lambda>st' w'. building p (bs @ [cur]) [] st' w' \<and> bl_bloom st' = bl_bloom st) (emitBlock st w)"
proof -
  obtain e b w' where put: "bw_put (encodeBlock cur) (bl_writer st) w = ((e, b), w')"
    by (metis surj_pair)
  have "wrote p (blocks_bytes bs) (bl_writer st) w"
    using assms(1) by (simp add: building_def)
  note O = outputsD [OF outputs_put this put]
  show ?thesis
    using assms put O
    by (cases e)
      (auto simp: step_ok_def emitBlock_def flushBlock_def drain_def building_def blocks_bytes_snoc index_of_snoc
        ucast_of_nat Let_def)
qed

lemma flushCurrent_ok:
  assumes "building p bs cur st w"
  shows "step_ok p w (\<lambda>st' w'. building p (bs @ (if cur = [] then [] else [cur])) [] st' w' \<and> bl_bloom st' = bl_bloom st)
    (flushCurrent st w)"
proof (cases "cur = []")
  case True
  with assms show ?thesis
    by (auto simp: step_ok_def flushCurrent_emit collector_len_def building_def)
next
  case False
  with assms emitBlock_ok [OF assms] show ?thesis
    by (auto simp: flushCurrent_emit collector_len_def building_def)
qed

lemma step_ok_trans:
  assumes "step_ok p w Q ((None, st), w1)" "Q st w1 \<Longrightarrow> step_ok p w1 R r"
  shows "step_ok p w R r"
  using assms only_touches_trans by (fastforce simp: step_ok_def split: prod.splits)

lemma write_loop_ok:
  assumes "building p bs cur st w"
  shows "step_ok p w (\<lambda>st' w'. \<exists>bs' cur'. building p bs' cur' st' w' \<and> bl_bloom st' = bl_bloom st \<and>
      bs' @ (if cur' = [] then [] else [cur']) = bs @ chunk cur es)
    (write_loop es st w)"
  using assms
proof (induction es arbitrary: bs cur st w)
  case Nil
  then show ?case by (auto simp: step_ok_def)
next
  case (Cons e es)
  let ?st = "st\<lparr>bl_coll := collector_add e (bl_coll st)\<rparr>" and ?cur = "cur @ [e]"
  note b1 = building_add [OF Cons.prems, of e]
  then have size: "collector_size (bl_coll ?st) = sum_list (map entry_size ?cur)"
    by (simp add: building_def collector_size_def)
  show ?case
  proof (cases "sum_list (map entry_size ?cur) \<ge> DEFAULT_BLOCK_SIZE")
    case False
    then have "write_loop (e # es) st w = write_loop es ?st w" "chunk cur (e # es) = chunk ?cur es"
      using size by simp_all
    then show ?thesis
      using Cons.IH [OF b1] by simp
  next
    case True
    obtain err st2 w2 where fc: "flushCurrent ?st w = ((err, st2), w2)"
      by (metis surj_pair)
    have ok: "step_ok p w (\<lambda>st' w'. building p (bs @ [?cur]) [] st' w' \<and> bl_bloom st' = bl_bloom st) ((err, st2), w2)"
      using flushCurrent_ok [OF b1] unfolding fc by simp
    show ?thesis
    proof (cases err)
      case (Some x)
      then show ?thesis
        using ok True size fc by (simp add: step_ok_def)
    next
      case None
      then have run: "write_loop (e # es) st w = write_loop es st2 w2"
        and ch: "chunk cur (e # es) = ?cur # chunk [] es"
        using True size fc by simp_all
      have b2: "building p (bs @ [?cur]) [] st2 w2" "bl_bloom st2 = bl_bloom st"
        using ok None by (simp_all add: step_ok_def)
      show ?thesis
        unfolding run ch using Cons.IH [OF b2(1)] b2(2) step_ok_trans ok None by auto
    qed
  qed
qed

section \<open>Installing\<close>

lemma file_Sync_cases:
  assumes "file_Sync p w = (r, w')" "fs_get w p = Some f"
  shows "only_touches p w w'" "faults w = [] \<Longrightarrow> r = Inr () \<and> faults w' = []" "r \<noteq> Inl Panic"
    "r = Inr x \<Longrightarrow> fs_get w' p = Some (f\<lparr>durable := length (fdata f)\<rparr>)"
proof -
  obtain fl w1 where s: "sys_fault w = (fl, w1)"
    by (cases "sys_fault w")
  note S = sys_fault_frame [OF s]
  have f: "fs_get w1 p = Some f"
    using S(2) assms(2) by simp
  have "only_touches p w w' \<and> (faults w = [] \<longrightarrow> r = Inr () \<and> faults w' = []) \<and> r \<noteq> Inl Panic \<and>
    (r = Inr x \<longrightarrow> fs_get w' p = Some (f\<lparr>durable := length (fdata f)\<rparr>))"
  proof (cases fl)
    case None
    then have "r = Inr ()" "w' = fs_put p (f\<lparr>durable := length (fdata f)\<rparr>) w1"
      using assms(1) s f by (simp_all add: file_Sync_def)
    with S show ?thesis
      using only_touches_trans [OF S(1) only_touches_put] by auto
  next
    case (Some k)
    with assms(1) s S show ?thesis
      by (auto simp: file_Sync_def)
  qed
  then show "only_touches p w w'" "faults w = [] \<Longrightarrow> r = Inr () \<and> faults w' = []" "r \<noteq> Inl Panic"
    "r = Inr x \<Longrightarrow> fs_get w' p = Some (f\<lparr>durable := length (fdata f)\<rparr>)"
    by blast+
qed

definition touches2 :: "gostring \<Rightarrow> gostring \<Rightarrow> world \<Rightarrow> world \<Rightarrow> bool" where
  "touches2 p q w w' \<longleftrightarrow>
     (\<forall>x. x \<noteq> p \<longrightarrow> x \<noteq> q \<longrightarrow> fs_get w' x = fs_get w x) \<and> clock w' = clock w \<and> ticks w' = ticks w"

lemma touches2I: "only_touches p w w' \<Longrightarrow> touches2 p q w w'" "only_touches q w w' \<Longrightarrow> touches2 p q w w'"
  by (auto simp: touches2_def only_touches_def)

lemma touches2_trans: "touches2 p q a b \<Longrightarrow> touches2 p q b c \<Longrightarrow> touches2 p q a c"
  by (simp add: touches2_def)

lemma dir_Sync_cases:
  assumes "dir_Sync w = (r, w')"
  shows "only_touches p w w'" "fs_get w' x = fs_get w x" "faults w = [] \<Longrightarrow> r = Inr () \<and> faults w' = []" "r \<noteq> Inl Panic"
  using assms by (auto simp: dir_Sync_def sys_fault_def only_touches_def fs_get_def split: list.splits option.splits prod.splits)

text \<open>After the rename the final path holds the complete file, whether or not the directory sync succeeds.\<close>

lemma atomicInstall_cases:
  assumes "atomicInstall p q w = (r, w')" "fs_get w p = Some f" "p \<noteq> q"
  shows "touches2 p q w w'" "faults w = [] \<Longrightarrow> r = Inr () \<and> faults w' = []" "r \<noteq> Inl Panic"
    "fs_get w' q = fs_get w q \<and> fs_get w' p = Some f \<or> fs_get w' q = Some f \<and> fs_get w' p = None"
    "r = Inr x \<Longrightarrow> fs_get w' q = Some f \<and> fs_get w' p = None"
proof -
  obtain fl w1 where s: "sys_fault w = (fl, w1)"
    by (cases "sys_fault w")
  note S = sys_fault_frame [OF s]
  have "touches2 p q w w' \<and> (faults w = [] \<longrightarrow> r = Inr () \<and> faults w' = []) \<and> r \<noteq> Inl Panic \<and>
    (fs_get w' q = fs_get w q \<and> fs_get w' p = Some f \<or> fs_get w' q = Some f \<and> fs_get w' p = None) \<and>
    (r = Inr x \<longrightarrow> fs_get w' q = Some f \<and> fs_get w' p = None)"
  proof (cases fl)
    case None
    let ?w = "fs_put q f (fs_del p w1)"
    have d: "dir_Sync ?w = (r, w')"
      using assms(1,2) s None S(2) by (simp add: atomicInstall_def bind_io_def os_Rename_def)
    note D = dir_Sync_cases [OF d]
    have "touches2 p q w w1" "touches2 p q w1 (fs_del p w1)" "touches2 p q (fs_del p w1) ?w" "touches2 p q ?w w'"
      using S(1) D(1) by (auto intro: touches2I)
    then have "touches2 p q w w'"
      using touches2_trans by blast
    then show ?thesis
      using D(2-4) S(2,3) assms(3) by auto
  next
    case (Some k)
    then have "r = Inl ErrIO" "w' = w1"
      using assms(1) s by (simp_all add: atomicInstall_def bind_io_def os_Rename_def)
    then show ?thesis
      using S Some assms(2) by (auto intro: touches2I)
  qed
  then show "touches2 p q w w'" "faults w = [] \<Longrightarrow> r = Inr () \<and> faults w' = []" "r \<noteq> Inl Panic"
    "fs_get w' q = fs_get w q \<and> fs_get w' p = Some f \<or> fs_get w' q = Some f \<and> fs_get w' p = None"
    "r = Inr x \<Longrightarrow> fs_get w' q = Some f \<and> fs_get w' p = None"
    by blast+
qed

text \<open>Outcome of writing the table \<open>es\<close> to \<open>final\<close> from a world \<open>w\<close>.\<close>

definition complete_file :: "BlockEntry list \<Rightarrow> File" where
  "complete_file es = \<lparr>fdata = table_bytes es, durable = length (table_bytes es)\<rparr>"

definition installs :: "gostring \<Rightarrow> BlockEntry list \<Rightarrow> world \<Rightarrow> (go_error + SSTable) \<times> world \<Rightarrow> bool" where
  "installs final es w out \<longleftrightarrow>
     (case out of (r, w') \<Rightarrow>
        touches2 (final @ lit ''.tmp'') final w w' \<and>
        (fs_get w' final = fs_get w final \<or> fs_get w' final = Some (complete_file es)) \<and>
        (\<forall>t. r = Inr t \<longrightarrow>
           t = table_of final es \<and> fs_get w' final = Some (complete_file es) \<and> fs_get w' (final @ lit ''.tmp'') = None) \<and>
        (faults w = [] \<longrightarrow> (\<exists>t. r = Inr t) \<and> faults w' = []) \<and> r \<noteq> Inl Panic)"

lemma tmp_nonempty [simp]: "lit ''.tmp'' \<noteq> []"
  by (simp add: lit_def)

lemma tmp_neq: "final @ lit ''.tmp'' \<noteq> final"
  by simp

lemma only_touches_final: "only_touches (final @ lit ''.tmp'') w w' \<Longrightarrow> fs_get w' final = fs_get w final"
  by (simp add: only_touches_def)

lemma installsI_error:
  assumes "only_touches (final @ lit ''.tmp'') w w'" "faults w = [] \<Longrightarrow> False" "e \<noteq> Panic"
  shows "installs final es w (Inl e, w')"
  using assms touches2I(1) [OF assms(1)] only_touches_final [OF assms(1)] by (auto simp: installs_def)

lemma installs_trans:
  assumes "only_touches (final @ lit ''.tmp'') w w1" "faults w = [] \<Longrightarrow> faults w1 = []" "installs final es w1 out"
  shows "installs final es w out"
  using assms touches2_trans [OF touches2I(1) [OF assms(1)]] only_touches_final [OF assms(1)]
  by (auto simp: installs_def split: prod.splits)

lemma finishTable_ok:
  assumes "building (final @ lit ''.tmp'') bs [] st w" "bs = chunk [] es" "bl_bloom st = bloom_of es"
  shows "installs final es w (finishTable (final @ lit ''.tmp'') final st w)"
proof -
  let ?tmp = "final @ lit ''.tmp''" and ?bb = "Serialize (bloom_of es)" and ?off = "word_of_nat (length (blocks_bytes bs)) :: i64"
  let ?meta = "bw_seq (encodeIndex (index_of bs)) (bw_seq (bw_put (PutUint32 (word_of_nat (length ?bb))))
    (bw_seq (bw_put ?bb) (encodeFooterWithBloom ?off (word_of_nat (length bs)) (?off + indexSize (index_of bs)))))"
  let ?q = "concat (map index_bytes (index_of bs)) @ PutUint32 (word_of_nat (length ?bb)) @ ?bb @
    PutUint64 ?off @ PutUint32 (word_of_nat (length bs)) @ PutUint64 (?off + indexSize (index_of bs))"
  have st: "bl_index st = index_of bs" "bl_offset st = ?off" "wrote ?tmp (blocks_bytes bs) (bl_writer st) w"
    using assms(1) by (simp_all add: building_def)
  have out: "outputs ?tmp ?q ?meta"
    by (intro outputs_seq outputs_encodeIndex outputs_put outputs_encodeFooterWithBloom)
  obtain e b w1 where m: "?meta (bl_writer st) w = ((e, b), w1)"
    by (metis surj_pair)
  note O = outputsD [OF out st(3) m]
  have image: "blocks_bytes bs @ ?q = table_bytes es"
    by (simp add: table_bytes_def Let_def assms(2))
  define rest where "rest b w =
    (case bw_Flush b w of
       ((Some e, _), w') \<Rightarrow> (Inl e, w')
     | ((None, _), w') \<Rightarrow>
         bind_io (file_Sync ?tmp) (\<lambda>_. bind_io (atomicInstall ?tmp final) (\<lambda>_. return_io (table_of final es))) w')" for b w
  have fin: "finishTable ?tmp final st w = (case e of Some x \<Rightarrow> (Inl x, w1) | None \<Rightarrow> rest b w1)"
    using m by (auto simp: finishTable_def Let_def st assms(3) bw_seq_def rest_def table_of_def assms(2) [symmetric]
        split: prod.splits option.splits)
  show ?thesis
  proof (cases e)
    case (Some x)
    then show ?thesis
      unfolding fin using O(1,3,5) by (auto intro!: installsI_error)
  next
    case None
    have wr: "wrote ?tmp (table_bytes es) b w1"
      using O(2) None image by simp
    obtain e2 b2 w2 where fl: "bw_Flush b w1 = ((e2, b2), w2)"
      by (metis surj_pair)
    note F = bw_Flush_end [OF wr fl]
    have "installs final es w1 (rest b w1)"
    proof (cases e2)
      case (Some x)
      then show ?thesis
        unfolding rest_def fl using F(1,3,4) by (auto intro!: installsI_error)
    next
      case None
      then obtain f where f: "fs_get w2 ?tmp = Some f" "fdata f = table_bytes es"
        using F(2) by (auto simp: wrote_def)
      obtain r3 w3 where sy: "file_Sync ?tmp w2 = (r3, w3)"
        by (metis surj_pair)
      note S = file_Sync_cases [OF sy f(1)]
      have "installs final es w2 (bind_io (file_Sync ?tmp)
          (\<lambda>_. bind_io (atomicInstall ?tmp final) (\<lambda>_. return_io (table_of final es))) w2)"
      proof (cases r3)
        case (Inl x)
        then show ?thesis
          unfolding bind_io_def sy using S(1-3) by (auto intro!: installsI_error)
      next
        case (Inr u)
        have tmp: "fs_get w3 ?tmp = Some (complete_file es)"
          using S(4) [of u] Inr f(2) by (simp add: complete_file_def)
        obtain r4 w4 where ai: "atomicInstall ?tmp final w3 = (r4, w4)"
          by (metis surj_pair)
        note A = atomicInstall_cases [OF ai tmp tmp_neq]
        have "installs final es w3 (bind_io (atomicInstall ?tmp final) (\<lambda>_. return_io (table_of final es)) w3)"
          using A ai by (cases r4) (auto simp: installs_def bind_io_def return_io_def)
        then show ?thesis
          using installs_trans [OF S(1)] S(2) Inr sy by (simp add: bind_io_def)
      qed
      then show ?thesis
        using installs_trans [OF F(1)] F(4) None fl by (simp add: rest_def)
    qed
    then show ?thesis
      unfolding fin using installs_trans [OF O(1)] O(4) None by simp
  qed
qed

lemma os_Create_cases:
  assumes "os_Create p w = (r, w')" "fs_get w p = None"
  shows "only_touches p w w'" "faults w = [] \<Longrightarrow> r = Inr () \<and> faults w' = []" "r \<noteq> Inl Panic"
    "r = Inr x \<Longrightarrow> fs_get w' p = Some \<lparr>fdata = [], durable = 0\<rparr>"
    "r = Inl e \<Longrightarrow> fs_get w' p = None"
proof -
  obtain fl w1 where s: "sys_fault w = (fl, w1)"
    by (cases "sys_fault w")
  note S = sys_fault_frame [OF s]
  have n: "fs_get w1 p = None"
    using S(2) assms(2) by simp
  show "only_touches p w w'" "faults w = [] \<Longrightarrow> r = Inr () \<and> faults w' = []" "r \<noteq> Inl Panic"
    "r = Inr x \<Longrightarrow> fs_get w' p = Some \<lparr>fdata = [], durable = 0\<rparr>" "r = Inl e \<Longrightarrow> fs_get w' p = None"
    using assms(1) s S n only_touches_trans [OF S(1) only_touches_put]
    by (auto simp: os_Create_def split: option.splits)
qed

lemma os_Remove_touches: "only_touches p w (snd (os_Remove p w))"
proof -
  obtain fl w1 where s: "sys_fault w = (fl, w1)"
    by (cases "sys_fault w")
  then show ?thesis
    using sys_fault_frame(1) [OF s] only_touches_trans [OF sys_fault_frame(1) [OF s] only_touches_del]
    by (auto simp: os_Remove_def split: option.splits)
qed

lemma removeOnError_installs:
  assumes "installs final es w out"
  shows "installs final es w (removeOnError (final @ lit ''.tmp'') out)"
proof -
  obtain r w' where out: "out = (r, w')"
    by (cases out)
  show ?thesis
  proof (cases r)
    case (Inl e)
    note R = os_Remove_touches [of "final @ lit ''.tmp''" w']
    show ?thesis
      using assms only_touches_final [OF R] touches2_trans [OF _ touches2I(1) [OF R]]
      by (auto simp: installs_def removeOnError_def out Inl)
  next
    case (Inr t)
    with assms show ?thesis
      by (simp add: removeOnError_def out)
  qed
qed

lemma building_new:
  assumes "fs_get w tmp = Some \<lparr>fdata = [], durable = 0\<rparr>"
  shows "building tmp [] [] (new_builder tmp bloom) w"
  using assms by (simp add: building_def new_builder_def newBlockCollector_def wrote_def bw_new_def blocks_bytes_def index_of_def)

lemma WriteSSTable_installs:
  assumes "fs_get w (final @ lit ''.tmp'') = None"
  shows "installs final es w (WriteSSTableFromBlockEntries final es w)"
proof -
  let ?tmp = "final @ lit ''.tmp''"
  obtain r w1 where c: "os_Create ?tmp w = (r, w1)"
    by (metis surj_pair)
  note C = os_Create_cases [OF c assms]
  show ?thesis
  proof (cases r)
    case (Inl e)
    then show ?thesis
      using C(1-3) c
      by (auto simp: WriteSSTable_eq Let_def intro!: installsI_error)
  next
    case (Inr u)
    let ?st = "new_builder ?tmp (bloom_of es)"
    obtain e2 st2 w2 where wl: "write_loop es ?st w1 = ((e2, st2), w2)"
      by (metis surj_pair)
    define body where "body =
      (case write_loop es ?st w1 of
         ((Some e, _), w2) \<Rightarrow> (Inl e, w2)
       | ((None, st), w2) \<Rightarrow>
           (case flushCurrent st w2 of
              ((Some e, _), w3) \<Rightarrow> (Inl e, w3)
            | ((None, st'), w3) \<Rightarrow> finishTable ?tmp final st' w3))"
    have run: "WriteSSTableFromBlockEntries final es w = removeOnError ?tmp body"
      using c Inr default_bloom(1) [of es]
      by (simp add: WriteSSTable_eq Let_def body_def user_keys_def)
    have W: "step_ok ?tmp w1 (\<lambda>st' w'. \<exists>bs' cur'. building ?tmp bs' cur' st' w' \<and> bl_bloom st' = bloom_of es \<and>
        bs' @ (if cur' = [] then [] else [cur']) = chunk [] es) ((e2, st2), w2)"
      using write_loop_ok [OF building_new [OF C(4) [OF Inr]], of "bloom_of es" es] wl by (simp add: new_builder_def)
    have "installs final es w1 body"
    proof (cases e2)
      case (Some x)
      then show ?thesis
        using W wl by (auto simp: body_def step_ok_def intro!: installsI_error)
    next
      case None
      then obtain bs' cur' where b: "building ?tmp bs' cur' st2 w2" "bl_bloom st2 = bloom_of es"
        "bs' @ (if cur' = [] then [] else [cur']) = chunk [] es" and W1: "only_touches ?tmp w1 w2"
        and W2: "faults w1 = [] \<Longrightarrow> faults w2 = []"
        using W by (auto simp: step_ok_def)
      obtain e3 st3 w3 where fc: "flushCurrent st2 w2 = ((e3, st3), w3)"
        by (metis surj_pair)
      note F = flushCurrent_ok [OF b(1), unfolded fc b(2,3)]
      have "installs final es w2 (case flushCurrent st2 w2 of
          ((Some e, _), w3) \<Rightarrow> (Inl e, w3) | ((None, st'), w3) \<Rightarrow> finishTable ?tmp final st' w3)"
      proof (cases e3)
        case (Some x)
        then show ?thesis
          using F fc by (auto simp: step_ok_def intro!: installsI_error)
      next
        case None
        then have "installs final es w3 (finishTable ?tmp final st3 w3)"
          using F by (intro finishTable_ok [OF _ refl]) (auto simp: step_ok_def)
        then show ?thesis
          using F fc None installs_trans [of final w2 w3] by (simp add: step_ok_def)
      qed
      then show ?thesis
        using wl None installs_trans [OF W1 W2] by (simp add: body_def)
    qed
    then have "installs final es w body"
      using installs_trans [OF C(1)] C(2) by blast
    then show ?thesis
      unfolding run by (rule removeOnError_installs)
  qed
qed

section \<open>Flush writes what the compaction-side writer writes\<close>

definition item_entry :: "Item \<Rightarrow> BlockEntry" where
  "item_entry i = BlockEntry (i_Key i) (i_Value i)"

lemma emitBlock_bloom:
  "emitBlock (st\<lparr>bl_bloom := B\<rparr>) w = (case emitBlock st w of ((e, st'), w') \<Rightarrow> ((e, st'\<lparr>bl_bloom := B\<rparr>), w'))"
  by (simp add: emitBlock_def Let_def split: prod.splits option.splits)

lemma emitBlock_keeps_bloom: "emitBlock st w = ((e, st'), w') \<Longrightarrow> bl_bloom st' = bl_bloom st"
  by (auto simp: emitBlock_def Let_def split: prod.splits option.splits)

lemma flush_visits:
  assumes "iterate (\<lambda>i. flush_visit (i_Key i) (i_Value i)) items (st, None, w) = (st', e, w')"
    and "bloom_inv (bl_bloom st)"
  shows "write_loop (map item_entry items) (st\<lparr>bl_bloom := B\<rparr>) w = ((e, st'\<lparr>bl_bloom := B\<rparr>), w') \<and>
    (e = None \<longrightarrow> bloom_Add_all (user_keys (map item_entry items)) (bl_bloom st) = Some (bl_bloom st'))"
  using assms
proof (induction items arbitrary: st w)
  case Nil
  then show ?case by (simp add: user_keys_def)
next
  case (Cons i items)
  obtain bloom where add: "bloom_Add (UserKey (DecodeInternalKey (i_Key i))) (bl_bloom st) = Some bloom" "bloom_inv bloom"
    using bloom.add_ok [OF Cons.prems(2)] by blast
  define st1 where "st1 = st\<lparr>bl_bloom := bloom, bl_coll := collector_add (item_entry i) (bl_coll st)\<rparr>"
  have inv: "bloom_inv (bl_bloom st1)" and b1: "bl_bloom st1 = bloom"
    using add(2) by (simp_all add: st1_def)
  have len: "collector_len (bl_coll st1) \<noteq> 0"
    by (simp add: st1_def collector_len_def collector_add_def)
  have B: "st\<lparr>bl_bloom := B, bl_coll := collector_add (item_entry i) (bl_coll (st\<lparr>bl_bloom := B\<rparr>))\<rparr> = st1\<lparr>bl_bloom := B\<rparr>"
    by (simp add: st1_def)
  have size: "collector_size (bl_coll (st1\<lparr>bl_bloom := B\<rparr>)) = collector_size (bl_coll st1)"
    by simp
  have loop: "write_loop (map item_entry (i # items)) (st\<lparr>bl_bloom := B\<rparr>) w =
      (if collector_size (bl_coll st1) \<ge> DEFAULT_BLOCK_SIZE
       then (case flushCurrent (st1\<lparr>bl_bloom := B\<rparr>) w of
               ((Some err, st2), w2) \<Rightarrow> ((Some err, st2), w2)
             | ((None, st2), w2) \<Rightarrow> write_loop (map item_entry items) st2 w2)
       else write_loop (map item_entry items) (st1\<lparr>bl_bloom := B\<rparr>) w)"
    by (simp only: list.map write_loop.simps Let_def B size)
  have keys: "bloom_Add_all (user_keys (map item_entry (i # items))) (bl_bloom st) =
      bloom_Add_all (user_keys (map item_entry items)) bloom"
    using add(1) by (simp add: user_keys_def item_entry_def)
  have visit: "flush_visit (i_Key i) (i_Value i) (st, None, w) =
      (if collector_size (bl_coll st1) \<ge> DEFAULT_BLOCK_SIZE
       then (case emitBlock st1 w of ((Some x, st2), w2) \<Rightarrow> (False, st2, Some x, w2) | ((None, st2), w2) \<Rightarrow> (True, st2, None, w2))
       else (True, st1, None, w))"
    using add(1) by (simp add: flush_visit_def Let_def st1_def item_entry_def)
  show ?case
  proof (cases "collector_size (bl_coll st1) \<ge> DEFAULT_BLOCK_SIZE")
    case False
    then have "iterate (\<lambda>i. flush_visit (i_Key i) (i_Value i)) items (st1, None, w) = (st', e, w')"
      using Cons.prems(1) visit by simp
    from Cons.IH [OF this inv] show ?thesis
      unfolding loop keys using False b1 by simp
  next
    case True
    obtain e2 st2 w2 where em: "emitBlock st1 w = ((e2, st2), w2)"
      by (metis surj_pair)
    have fl: "flushCurrent (st1\<lparr>bl_bloom := B\<rparr>) w = ((e2, st2\<lparr>bl_bloom := B\<rparr>), w2)"
      using len em by (simp add: flushCurrent_emit emitBlock_bloom)
    have b2: "bl_bloom st2 = bloom"
      using emitBlock_keeps_bloom [OF em] b1 by simp
    show ?thesis
    proof (cases e2)
      case (Some x)
      then have "st' = st2" "e = Some x" "w' = w2"
        using Cons.prems(1) visit True em by simp_all
      then show ?thesis
        unfolding loop keys using True Some fl by simp
    next
      case None
      then have "iterate (\<lambda>i. flush_visit (i_Key i) (i_Value i)) items (st2, None, w2) = (st', e, w')"
        using Cons.prems(1) visit True em by simp
      from Cons.IH [OF this] show ?thesis
        unfolding loop keys using True None fl add(2) b2 by simp
    qed
  qed
qed

definition mt_entries :: "'t btree \<Rightarrow> 't MemTable \<Rightarrow> BlockEntry list" where
  "mt_entries bt mt = map item_entry (bt_Ascend bt (tree mt))"

lemma Flush_eq:
  "Flush bt mt dir w =
    (case time_Now w of (now, w0) \<Rightarrow> WriteSSTableFromBlockEntries (sst_path dir now) (mt_entries bt mt) w0)"
proof -
  obtain now w0 where t: "time_Now w = (now, w0)"
    by (cases "time_Now w")
  let ?final = "sst_path dir now" and ?es = "mt_entries bt mt" and ?new = "NewBloomFilter DEFAULT_BLOOM_EXPECTED_KEYS"
  let ?tmp = "?final @ lit ''.tmp''"
  obtain r w1 where c: "os_Create ?tmp w0 = (r, w1)"
    by (metis surj_pair)
  show ?thesis
  proof (cases r)
    case (Inl x)
    then show ?thesis
      using t c by (simp add: Flush_def WriteSSTable_eq Let_def)
  next
    case (Inr u)
    let ?st = "new_builder ?tmp ?new"
    obtain st' e w' where it: "iterate (\<lambda>i. flush_visit (i_Key i) (i_Value i)) (bt_Ascend bt (tree mt)) (?st, None, w1) = (st', e, w')"
      by (rule prod_cases3)
    have "bloom_inv (bl_bloom ?st)"
      by (simp add: new_builder_def NewBloomFilter_default(1))
    note V = flush_visits [OF it this, of "bloom_of ?es", folded mt_entries_def]
    have new: "?st\<lparr>bl_bloom := bloom_of ?es\<rparr> = new_builder ?tmp (bloom_of ?es)"
      by (simp add: new_builder_def)
    have asc: "memtable_Ascend bt flush_visit mt (?st, None, w1) = (st', e, w')"
      using it by (simp add: memtable_Ascend_def)
    have bl: "st'\<lparr>bl_bloom := bloom_of ?es\<rparr> = st'" if "e = None"
      using V that default_bloom(1) [of ?es] by (simp add: new_builder_def)
    define tail where "tail st w =
      (case flushCurrent st w of
         ((Some x, _), w3) \<Rightarrow> (Inl x, w3) | ((None, st''), w3) \<Rightarrow> finishTable ?tmp ?final st'' w3)" for st w
    have "Flush bt mt dir w = removeOnError ?tmp (case e of Some x \<Rightarrow> (Inl x, w') | None \<Rightarrow> tail st' w')"
      using c Inr asc by (cases e) (simp_all add: Flush_def Let_def t tail_def flushCurrent_emit)
    also have "\<dots> = WriteSSTableFromBlockEntries ?final ?es w0"
      using c Inr V bl default_bloom(1) [of ?es]
      by (cases e) (simp_all add: WriteSSTable_eq Let_def user_keys_def new tail_def)
    finally show ?thesis
      by (simp add: t)
  qed
qed

section \<open>Properties\<close>

text \<open>C35: A table appears at its final path complete or not at all. Whatever storage faults strike while a
  table is written, no other file changes, and the final path either is as it was or holds the whole
  image, all of it on stable storage; success means that it does and that the temporary file is
  gone, and failure is reported only when a fault occurred. A crash is a schedule in which every later
  call fails, so the same holds at every crash point.\<close>

theorem table_install_atomic:
  assumes "fs_get w (final @ lit ''.tmp'') = None" "WriteSSTableFromBlockEntries final es w = (r, w')"
  shows "(q \<noteq> final \<and> q \<noteq> final @ lit ''.tmp'' \<longrightarrow> fs_get w' q = fs_get w q) \<and>
    (fs_get w' final = fs_get w final \<or>
     fs_get w' final = Some \<lparr>fdata = table_bytes es, durable = length (table_bytes es)\<rparr>) \<and>
    (case r of
       Inr t \<Rightarrow> t = table_of final es \<and> fs_get w' (final @ lit ''.tmp'') = None \<and>
         fs_get w' final = Some \<lparr>fdata = table_bytes es, durable = length (table_bytes es)\<rparr>
     | Inl e \<Rightarrow> faults w \<noteq> [])"
  using WriteSSTable_installs [OF assms(1), of es] unfolding assms(2) installs_def touches2_def complete_file_def
  by (cases r) auto

theorem table_install_atomic_witness:
  "fs_get (snd (WriteSSTableFromBlockEntries (lit ''d/1.sst'') [BlockEntry [1] [2]] (world_of []))) (lit ''d/1.sst'') =
     Some \<lparr>fdata = table_bytes [BlockEntry [1] [2]], durable = length (table_bytes [BlockEntry [1] [2]])\<rparr>"
proof -
  obtain r w' where run: "WriteSSTableFromBlockEntries (lit ''d/1.sst'') [BlockEntry [1] [2]] (world_of []) = (r, w')"
    by (metis surj_pair)
  have "fs_get (world_of []) (lit ''d/1.sst'' @ lit ''.tmp'') = None"
    by (simp add: fs_get_def world_of_def)
  from table_install_atomic [OF this run] have "case r of
      Inr t \<Rightarrow> fs_get w' (lit ''d/1.sst'') =
        Some \<lparr>fdata = table_bytes [BlockEntry [1] [2]], durable = length (table_bytes [BlockEntry [1] [2]])\<rparr>
    | Inl e \<Rightarrow> faults (world_of []) \<noteq> []"
    by (auto split: sum.splits)
  then show ?thesis
    unfolding run by (simp add: world_of_def split: sum.splits)
qed

text \<open>C37: Both writers produce the same file. Flushing a memtable behaves, byte for byte, fault for fault
  and call for call, like the compaction-side writer given the memtable's entries in order and the
  path made from the clock; adding keys to the filter as they are visited or all at once beforehand
  makes no difference.\<close>

theorem flush_equals_write_from_entries:
  "Flush bt mt dir w =
    (case time_Now w of (now, w0) \<Rightarrow>
       WriteSSTableFromBlockEntries (sst_path dir now)
         (map (\<lambda>i. BlockEntry (i_Key i) (i_Value i)) (bt_Ascend bt (tree mt))) w0)"
  using Flush_eq [of bt mt dir w] by (simp add: mt_entries_def item_entry_def [abs_def])

end
