(* ===== verification/Lru_Cache.thy ===== *)
theory Lru_Cache
  imports Hcdb_Config Go_Hash
begin

text \<open>
  Model of the package \<^verbatim>\<open>cache\<close>. An \<open>LRU\<close> is the pair of a doubly linked list and a hash map of the
  Go code: list elements are heap cells named by numbers (\<open>elems\<close> is the heap), \<open>ll\<close> is the order
  of the list from front to back, \<open>items\<close> maps a key to its element. \<open>lru_list\<close> abstracts this to
  a recency list of key-value pairs, and each operation is shown to implement its specification on
  recency lists. \<open>cacher\<close> is the Go interface \<^verbatim>\<open>Cacher\<close> with the laws its clients rely on.
\<close>

section \<open>Definitions\<close>

datatype 'v centry = CEntry (ekey: gostring) (evalue: 'v)

record 'v LRU =
  capacity :: int
  ll :: "nat list"
  elems :: "nat \<rightharpoonup> 'v centry"
  items :: "gostring \<rightharpoonup> nat"
  next_elem :: nat

definition NewLRU :: "int \<Rightarrow> 'v LRU" where
  "NewLRU cap = \<lparr>capacity = cap, ll = [], elems = Map.empty, items = Map.empty, next_elem = 0\<rparr>"

definition MoveToFront :: "nat \<Rightarrow> 'v LRU \<Rightarrow> 'v LRU" where
  "MoveToFront e c = c\<lparr>ll := e # remove1 e (ll c)\<rparr>"

definition PushFront :: "'v centry \<Rightarrow> 'v LRU \<Rightarrow> nat \<times> 'v LRU" where
  "PushFront x c =
     (let e = next_elem c
      in (e, c\<lparr>ll := e # ll c, elems := (elems c)(e \<mapsto> x), next_elem := Suc e\<rparr>))"

definition evictOldest :: "'v LRU \<Rightarrow> 'v LRU" where
  "evictOldest c =
     (if ll c = [] then c
      else let oldest = last (ll c)
           in c\<lparr>ll := remove1 oldest (ll c),
                items := (case elems c oldest of None \<Rightarrow> items c | Some x \<Rightarrow> (items c)(ekey x := None))\<rparr>)"

definition lru_insert :: "gostring \<Rightarrow> 'v \<Rightarrow> 'v LRU \<Rightarrow> 'v LRU" where
  "lru_insert key value c =
     (let c1 =
        (case items c key of
           Some elem \<Rightarrow> MoveToFront elem (c\<lparr>elems := (elems c)(elem \<mapsto> CEntry key value)\<rparr>)
         | None \<Rightarrow> (case PushFront (CEntry key value) c of (elem, c') \<Rightarrow> c'\<lparr>items := (items c')(key \<mapsto> elem)\<rparr>))
      in if capacity c1 \<noteq> 0 \<and> int (length (ll c1)) > capacity c1 then evictOldest c1 else c1)"

definition lru_Get :: "gostring \<Rightarrow> 'v LRU \<Rightarrow> 'v option \<times> 'v LRU" where
  "lru_Get key c =
     (case items c key of
        None \<Rightarrow> (None, c)
      | Some elem \<Rightarrow> (map_option evalue (elems c elem), MoveToFront elem c))"

definition lru_Put :: "gostring \<Rightarrow> 'v \<Rightarrow> 'v LRU \<Rightarrow> 'v LRU" where
  "lru_Put key value c = lru_insert key value c"

definition lru_Len :: "'v LRU \<Rightarrow> nat" where
  "lru_Len c = length (ll c)"

subsection \<open>Shards\<close>

record 'v ShardedLRU =
  shards :: "'v LRU list"

definition NewShardedLRU :: "nat \<Rightarrow> int \<Rightarrow> 'v ShardedLRU" where
  "NewShardedLRU numShards capacityPerShard = \<lparr>shards = replicate numShards (NewLRU capacityPerShard)\<rparr>"

definition shardIndex :: "gostring \<Rightarrow> nat \<Rightarrow> nat" where
  "shardIndex key numShards = unat (fnv32a key mod word_of_nat numShards)"

definition sharded_Get :: "gostring \<Rightarrow> 'v ShardedLRU \<Rightarrow> 'v option \<times> 'v ShardedLRU" where
  "sharded_Get key s =
     (let idx = shardIndex key (length (shards s))
      in case lru_Get key (shards s ! idx) of (r, c) \<Rightarrow> (r, s\<lparr>shards := (shards s)[idx := c]\<rparr>))"

definition sharded_Put :: "gostring \<Rightarrow> 'v \<Rightarrow> 'v ShardedLRU \<Rightarrow> 'v ShardedLRU" where
  "sharded_Put key value s =
     (let idx = shardIndex key (length (shards s))
      in s\<lparr>shards := (shards s)[idx := lru_Put key value (shards s ! idx)]\<rparr>)"

definition sharded_Len :: "'v ShardedLRU \<Rightarrow> nat" where
  "sharded_Len s = foldl (\<lambda>total shard. total + lru_Len shard) 0 (shards s)"

subsection \<open>Invariant and abstraction\<close>

definition lru_inv :: "'v LRU \<Rightarrow> bool" where
  "lru_inv c \<longleftrightarrow>
     distinct (ll c) \<and> (\<forall>e \<in> set (ll c). e < next_elem c \<and> elems c e \<noteq> None) \<and>
     (\<forall>k e. items c k = Some e \<longleftrightarrow> e \<in> set (ll c) \<and> (\<exists>v. elems c e = Some (CEntry k v)))"

definition lru_list :: "'v LRU \<Rightarrow> (gostring \<times> 'v) list" where
  "lru_list c = map (\<lambda>e. case elems c e of Some (CEntry k v) \<Rightarrow> (k, v)) (ll c)"

text \<open>The specification on recency lists: touch a key, insert a pair, drop the oldest pair.\<close>

definition spec_touch :: "gostring \<Rightarrow> (gostring \<times> 'v) list \<Rightarrow> (gostring \<times> 'v) list" where
  "spec_touch k xs =
     (case map_of xs k of None \<Rightarrow> xs | Some v \<Rightarrow> (k, v) # filter (\<lambda>p. fst p \<noteq> k) xs)"

definition spec_put :: "int \<Rightarrow> gostring \<Rightarrow> 'v \<Rightarrow> (gostring \<times> 'v) list \<Rightarrow> (gostring \<times> 'v) list" where
  "spec_put cap k v xs =
     (let ys = (k, v) # filter (\<lambda>p. fst p \<noteq> k) xs
      in if cap \<noteq> 0 \<and> int (length ys) > cap then butlast ys else ys)"

definition sharded_inv :: "'v ShardedLRU \<Rightarrow> bool" where
  "sharded_inv s \<longleftrightarrow> shards s \<noteq> [] \<and> length (shards s) < 2 ^ 32 \<and> (\<forall>c \<in> set (shards s). lru_inv c)"

definition sharded_holds :: "'v ShardedLRU \<Rightarrow> gostring \<Rightarrow> 'v option" where
  "sharded_holds s k = map_of (lru_list (shards s ! shardIndex k (length (shards s)))) k"

section \<open>The Cacher interface\<close>

locale cacher =
  fixes get :: "gostring \<Rightarrow> 'c \<Rightarrow> 'v option \<times> 'c"
    and put :: "gostring \<Rightarrow> 'v \<Rightarrow> 'c \<Rightarrow> 'c"
    and holds :: "'c \<Rightarrow> gostring \<Rightarrow> 'v option"
    and invar :: "'c \<Rightarrow> bool"
  assumes get_holds: "invar c \<Longrightarrow> get k c = (r, c') \<Longrightarrow> r = holds c k \<and> holds c' = holds c \<and> invar c'"
    and put_invar: "invar c \<Longrightarrow> invar (put k v c)"
    and put_holds: "invar c \<Longrightarrow> holds (put k v c) j = Some u \<Longrightarrow> (if j = k then u = v else holds c j = Some u)"
begin

text \<open>Every cached value satisfies \<open>P\<close>.\<close>

definition coherent :: "(gostring \<Rightarrow> 'v \<Rightarrow> bool) \<Rightarrow> 'c \<Rightarrow> bool" where
  "coherent P c \<longleftrightarrow> invar c \<and> (\<forall>k v. holds c k = Some v \<longrightarrow> P k v)"

lemma coherent_get:
  assumes "coherent P c" "get k c = (r, c')"
  shows "coherent P c'" "r = Some v \<Longrightarrow> P k v"
  using assms get_holds [of c k r c'] by (auto simp: coherent_def)

lemma coherent_put:
  assumes "coherent P c" "P k v"
  shows "coherent P (put k v c)"
  unfolding coherent_def
proof (intro conjI allI impI)
  show "invar (put k v c)"
    using assms(1) by (simp add: coherent_def put_invar)
next
  fix j u
  assume "holds (put k v c) j = Some u"
  with assms(1) have "if j = k then u = v else holds c j = Some u"
    using put_holds [of c k v j u] by (simp add: coherent_def)
  with assms show "P j u"
    by (auto simp: coherent_def split: if_splits)
qed

text \<open>The read-through pattern of \<^verbatim>\<open>readBlock\<close>: look in the cache, else load and remember.\<close>

definition read_through :: "gostring \<Rightarrow> go_error + 'v \<Rightarrow> 'c \<Rightarrow> (go_error + 'v) \<times> 'c" where
  "read_through k load c =
     (case get k c of
        (Some v, c') \<Rightarrow> (Inr v, c')
      | (None, c') \<Rightarrow> (case load of Inl e \<Rightarrow> (Inl e, c') | Inr v \<Rightarrow> (Inr v, put k v c')))"

lemma read_through_load:
  assumes "coherent P c" "\<And>v. P k v \<longleftrightarrow> load = Inr v"
  shows "fst (read_through k load c) = load \<and> coherent P (snd (read_through k load c))"
proof -
  obtain r c' where g: "get k c = (r, c')"
    by (metis surj_pair)
  show ?thesis
  proof (cases r)
    case (Some v)
    then show ?thesis
      using coherent_get [OF assms(1) g] assms(2) g by (simp add: read_through_def)
  next
    case None
    then show ?thesis
      using coherent_get(1) [OF assms(1) g] coherent_put assms(2) g
      by (cases load) (auto simp: read_through_def)
  qed
qed

end

section \<open>Lemmas\<close>

lemma lru_inv_NewLRU: "lru_inv (NewLRU cap)"
  by (simp add: lru_inv_def NewLRU_def)

lemma lru_inv_items:
  "lru_inv c \<Longrightarrow> items c k = Some e \<longleftrightarrow> e \<in> set (ll c) \<and> (\<exists>v. elems c e = Some (CEntry k v))"
  by (simp add: lru_inv_def)

lemma elem_cases:
  assumes "lru_inv c" "e \<in> set (ll c)"
  obtains k v where "elems c e = Some (CEntry k v)" "items c k = Some e"
proof -
  from assms obtain x where x: "elems c e = Some x"
    by (auto simp: lru_inv_def)
  obtain k v where "x = CEntry k v"
    by (cases x)
  with x assms that show thesis
    by (auto simp: lru_inv_def)
qed

lemma distinct_keys: "lru_inv c \<Longrightarrow> distinct (map fst (lru_list c))"
proof -
  assume inv: "lru_inv c"
  have "inj_on (\<lambda>e. fst (case elems c e of Some (CEntry k v) \<Rightarrow> (k, v))) (set (ll c))"
  proof (rule inj_onI)
    fix e e'
    assume e: "e \<in> set (ll c)" "e' \<in> set (ll c)"
      and eq: "fst (case elems c e of Some (CEntry k v) \<Rightarrow> (k, v)) =
        fst (case elems c e' of Some (CEntry k v) \<Rightarrow> (k, v))"
    obtain k v where kv: "elems c e = Some (CEntry k v)" "items c k = Some e"
      using elem_cases [OF inv e(1)] .
    obtain k' v' where kv': "elems c e' = Some (CEntry k' v')" "items c k' = Some e'"
      using elem_cases [OF inv e(2)] .
    show "e = e'"
      using eq kv kv' by simp
  qed
  then show ?thesis
    using inv by (simp add: lru_list_def distinct_map lru_inv_def comp_def)
qed

lemma map_of_lru_list:
  assumes "lru_inv c"
  shows "map_of (lru_list c) k =
    (case items c k of None \<Rightarrow> None | Some e \<Rightarrow> map_option evalue (elems c e))"
proof (cases "items c k")
  case None
  have "k \<notin> fst ` set (lru_list c)"
  proof
    assume "k \<in> fst ` set (lru_list c)"
    then obtain e where "e \<in> set (ll c)" "fst (case elems c e of Some (CEntry k v) \<Rightarrow> (k, v)) = k"
      by (auto simp: lru_list_def)
    with elem_cases [OF assms this(1)] None show False
      by (metis centry.case fst_conv option.simps(3,5))
  qed
  with None show ?thesis by (simp add: map_of_eq_None_iff)
next
  case (Some e)
  then obtain v where v: "e \<in> set (ll c)" "elems c e = Some (CEntry k v)"
    using assms by (auto simp: lru_inv_def)
  then have "(k, v) \<in> set (lru_list c)"
    by (force simp: lru_list_def)
  with v Some show ?thesis
    using distinct_keys [OF assms] by simp
qed

lemma filter_lru_list:
  assumes "lru_inv c" "items c k = Some e"
  shows "filter (\<lambda>p. fst p \<noteq> k) (lru_list c) =
    map (\<lambda>e. case elems c e of Some (CEntry k v) \<Rightarrow> (k, v)) (remove1 e (ll c))"
proof -
  obtain v where v: "elems c e = Some (CEntry k v)"
    using assms by (auto simp: lru_inv_def)
  have "fst (case elems c x of Some (CEntry k v) \<Rightarrow> (k, v)) \<noteq> k \<longleftrightarrow> x \<noteq> e" if x: "x \<in> set (ll c)" for x
  proof -
    obtain k' v' where kv: "elems c x = Some (CEntry k' v')" "items c k' = Some x"
      using elem_cases [OF assms(1) x] .
    with assms(2) v show ?thesis by auto
  qed
  then have "filter (\<lambda>p. fst p \<noteq> k) (lru_list c) =
      map (\<lambda>e. case elems c e of Some (CEntry k v) \<Rightarrow> (k, v)) (filter (\<lambda>x. x \<noteq> e) (ll c))"
    by (simp add: lru_list_def filter_map comp_def cong: filter_cong)
  also have "filter (\<lambda>x. x \<noteq> e) (ll c) = remove1 e (ll c)"
    using assms(1) by (simp add: lru_inv_def distinct_remove1_removeAll removeAll_filter_not_eq neq_commute)
  finally show ?thesis .
qed

lemma lru_list_MoveToFront:
  assumes "lru_inv c" "items c k = Some e"
  shows "lru_list (MoveToFront e c) = spec_touch k (lru_list c)" "lru_inv (MoveToFront e c)"
    "items (MoveToFront e c) = items c" "capacity (MoveToFront e c) = capacity c"
proof -
  obtain v where v: "e \<in> set (ll c)" "elems c e = Some (CEntry k v)"
    using assms by (auto simp: lru_inv_def)
  show "lru_list (MoveToFront e c) = spec_touch k (lru_list c)"
    using v assms filter_lru_list [OF assms] map_of_lru_list [OF assms(1), of k]
    by (simp add: spec_touch_def) (simp add: lru_list_def MoveToFront_def)
  show "lru_inv (MoveToFront e c)"
    using assms(1) v by (auto simp: lru_inv_def MoveToFront_def)
qed (simp_all add: MoveToFront_def)

lemma lru_Get_refines:
  assumes "lru_inv c" "lru_Get k c = (r, c')"
  shows "r = map_of (lru_list c) k \<and> lru_list c' = spec_touch k (lru_list c) \<and> lru_inv c' \<and>
    capacity c' = capacity c"
  using assms lru_list_MoveToFront [OF assms(1)] map_of_lru_list [OF assms(1), of k]
  by (cases "items c k") (auto simp: lru_Get_def spec_touch_def)

lemma lru_list_set_value:
  fixes v :: 'v
  assumes "lru_inv c" "items c k = Some e"
  defines "c' \<equiv> c\<lparr>elems := (elems c)(e \<mapsto> CEntry k v)\<rparr>"
  shows "lru_inv c'" "items c' k = Some e"
    "filter (\<lambda>p. fst p \<noteq> k) (lru_list c') = filter (\<lambda>p. fst p \<noteq> k) (lru_list c)"
    "map_of (lru_list c') k = Some v"
proof -
  obtain u where u: "e \<in> set (ll c)" "elems c e = Some (CEntry k u)"
    using assms(1,2) by (auto simp: lru_inv_def)
  show inv: "lru_inv c'"
    using assms(1) u by (auto simp: lru_inv_def c'_def)
  show it: "items c' k = Some e"
    using assms(2) by (simp add: c'_def)
  have "e \<notin> set (remove1 e (ll c))"
    using assms(1) by (simp add: lru_inv_def)
  then show "filter (\<lambda>p. fst p \<noteq> k) (lru_list c') = filter (\<lambda>p. fst p \<noteq> k) (lru_list c)"
    unfolding filter_lru_list [OF inv it] filter_lru_list [OF assms(1,2)]
    by (auto simp: c'_def)
  show "map_of (lru_list c') k = Some v"
    using map_of_lru_list [OF inv, of k] assms(2) by (simp add: c'_def)
qed

lemma lru_list_PushFront:
  assumes "lru_inv c" "items c k = None" "PushFront (CEntry k v) c = (e, c')"
  shows "lru_inv (c'\<lparr>items := (items c')(k \<mapsto> e)\<rparr>)"
    "lru_list (c'\<lparr>items := (items c')(k \<mapsto> e)\<rparr>) = (k, v) # filter (\<lambda>p. fst p \<noteq> k) (lru_list c)"
    "capacity c' = capacity c"
proof -
  have c': "e = next_elem c" "c' = c\<lparr>ll := e # ll c, elems := (elems c)(e \<mapsto> CEntry k v), next_elem := Suc e\<rparr>"
    using assms(3) by (auto simp: PushFront_def Let_def)
  have fresh: "e \<notin> set (ll c)"
    using assms(1) c'(1) by (auto simp: lru_inv_def)
  have nokey: "\<not> (x \<in> set (ll c) \<and> elems c x = Some (CEntry k u))" for x u
    using lru_inv_items [OF assms(1), of k x] assms(2) by auto
  show "lru_inv (c'\<lparr>items := (items c')(k \<mapsto> e)\<rparr>)"
    unfolding lru_inv_def
  proof (intro conjI allI ballI)
    fix j x
    show "(items (c'\<lparr>items := (items c')(k \<mapsto> e)\<rparr>) j = Some x) \<longleftrightarrow>
      x \<in> set (ll (c'\<lparr>items := (items c')(k \<mapsto> e)\<rparr>)) \<and>
      (\<exists>u. elems (c'\<lparr>items := (items c')(k \<mapsto> e)\<rparr>) x = Some (CEntry j u))"
      using lru_inv_items [OF assms(1), of j x] fresh nokey unfolding c'(2) by auto
  next
    fix x
    assume "x \<in> set (ll (c'\<lparr>items := (items c')(k \<mapsto> e)\<rparr>))"
    then show "x < next_elem (c'\<lparr>items := (items c')(k \<mapsto> e)\<rparr>)"
      "elems (c'\<lparr>items := (items c')(k \<mapsto> e)\<rparr>) x \<noteq> None"
      using assms(1) c'(1) unfolding c'(2) by (auto simp: lru_inv_def)
  qed (use assms(1) fresh in \<open>simp add: c'(2) lru_inv_def\<close>)
  have "k \<notin> fst ` set (lru_list c)"
    using map_of_lru_list [OF assms(1), of k] assms(2) by (simp add: map_of_eq_None_iff)
  then have "filter (\<lambda>p. fst p \<noteq> k) (lru_list c) = lru_list c"
    by (auto simp: filter_id_conv)
  then show "lru_list (c'\<lparr>items := (items c')(k \<mapsto> e)\<rparr>) = (k, v) # filter (\<lambda>p. fst p \<noteq> k) (lru_list c)"
    using fresh by (auto simp: lru_list_def c'(2))
  show "capacity c' = capacity c"
    by (simp add: c'(2))
qed

lemma remove1_last: "distinct xs \<Longrightarrow> xs \<noteq> [] \<Longrightarrow> remove1 (last xs) xs = butlast xs"
  by (induction xs) auto

lemma evictOldest_refines:
  assumes "lru_inv c"
  shows "lru_inv (evictOldest c)" "lru_list (evictOldest c) = butlast (lru_list c)"
    "capacity (evictOldest c) = capacity c"
proof -
  show "lru_list (evictOldest c) = butlast (lru_list c)"
    using assms by (auto simp: evictOldest_def lru_list_def Let_def remove1_last map_butlast lru_inv_def)
  show "capacity (evictOldest c) = capacity c"
    by (simp add: evictOldest_def Let_def)
  show "lru_inv (evictOldest c)"
  proof (cases "ll c = []")
    case True
    with assms show ?thesis by (simp add: evictOldest_def)
  next
    case False
    let ?o = "last (ll c)"
    obtain k v where kv: "elems c ?o = Some (CEntry k v)" "items c k = Some ?o"
      using elem_cases [OF assms, of ?o] False by auto
    have only: "x = ?o" if "x \<in> set (ll c)" "elems c x = Some (CEntry k u)" for x u
      using lru_inv_items [OF assms, of k x] kv(2) that by auto
    have ev: "evictOldest c = c\<lparr>ll := remove1 ?o (ll c), items := (items c)(k := None)\<rparr>" (is "_ = ?c")
      using False kv by (simp add: evictOldest_def Let_def)
    have d: "x \<in> set (remove1 ?o (ll c)) \<longleftrightarrow> x \<in> set (ll c) \<and> x \<noteq> ?o" for x
      using assms by (auto simp: lru_inv_def)
    have "items ?c j = Some x \<longleftrightarrow> x \<in> set (ll ?c) \<and> (\<exists>v. elems ?c x = Some (CEntry j v))" for j x
    proof (cases "j = k")
      case True
      then show ?thesis using only by (auto simp: d)
    next
      case False
      then show ?thesis using kv(1) lru_inv_items [OF assms, of j x] by (auto simp: d)
    qed
    moreover have "distinct (ll ?c)" "\<forall>e \<in> set (ll ?c). e < next_elem ?c \<and> elems ?c e \<noteq> None"
      using assms by (auto simp: lru_inv_def)
    ultimately show ?thesis
      unfolding ev lru_inv_def by blast
  qed
qed

lemma lru_Put_refines:
  assumes "lru_inv c"
  shows "lru_inv (lru_Put k v c)" "lru_list (lru_Put k v c) = spec_put (capacity c) k v (lru_list c)"
    "capacity (lru_Put k v c) = capacity c"
proof -
  define c1 where "c1 =
    (case items c k of
       Some elem \<Rightarrow> MoveToFront elem (c\<lparr>elems := (elems c)(elem \<mapsto> CEntry k v)\<rparr>)
     | None \<Rightarrow> (case PushFront (CEntry k v) c of (elem, c') \<Rightarrow> c'\<lparr>items := (items c')(k \<mapsto> elem)\<rparr>))"
  have c1: "lru_inv c1 \<and> lru_list c1 = (k, v) # filter (\<lambda>p. fst p \<noteq> k) (lru_list c) \<and> capacity c1 = capacity c"
  proof (cases "items c k")
    case None
    obtain e c' where p: "PushFront (CEntry k v) c = (e, c')"
      by (metis surj_pair)
    show ?thesis
      using None p lru_list_PushFront [OF assms None p] by (simp add: c1_def)
  next
    case (Some e)
    note sv = lru_list_set_value [OF assms Some, of v]
    show ?thesis
      using Some sv lru_list_MoveToFront [OF sv(1,2)] by (simp add: c1_def spec_touch_def)
  qed
  have len: "length (ll c1) = length (lru_list c1)"
    by (simp add: lru_list_def)
  have put: "lru_Put k v c = (if capacity c1 \<noteq> 0 \<and> int (length (ll c1)) > capacity c1 then evictOldest c1 else c1)"
    by (simp add: lru_Put_def lru_insert_def c1_def Let_def)
  show "lru_inv (lru_Put k v c)" "lru_list (lru_Put k v c) = spec_put (capacity c) k v (lru_list c)"
    "capacity (lru_Put k v c) = capacity c"
    using c1 evictOldest_refines [of c1] unfolding put len by (simp_all add: spec_put_def Let_def)
qed

lemma map_of_butlast_Some:
  "distinct (map fst xs) \<Longrightarrow> map_of (butlast xs) j = Some u \<Longrightarrow> map_of xs j = Some u"
  by (cases xs rule: rev_cases) (auto dest: map_of_SomeD)

lemma map_of_filter_key: "map_of (filter (\<lambda>p. fst p \<noteq> k) xs) j = (if j = k then None else map_of xs j)"
  by (induction xs) auto

lemma distinct_spec_put: "distinct (map fst xs) \<Longrightarrow> distinct (map fst ((k, v) # filter (\<lambda>p. fst p \<noteq> k) xs))"
  by (induction xs) auto

lemma map_of_spec_touch: "map_of (spec_touch k xs) j = map_of xs j"
  by (auto simp: spec_touch_def map_of_filter_key split: option.splits)

lemma map_of_spec_put:
  assumes "distinct (map fst xs)" "map_of (spec_put cap k v xs) j = Some u"
  shows "if j = k then u = v else map_of xs j = Some u"
  using assms(2) map_of_butlast_Some [OF distinct_spec_put [OF assms(1), of k v], of j u]
  by (auto simp: spec_put_def Let_def map_of_filter_key split: if_splits)

subsection \<open>Shards\<close>

lemma shardIndex_less:
  assumes "0 < n" "n < 2 ^ 32"
  shows "shardIndex k n < n"
proof -
  have "unat (word_of_nat n :: u32) = n"
    using assms(2) by (simp add: unat_of_nat)
  then show ?thesis
    using assms(1) by (simp add: shardIndex_def unat_mod_distrib)
qed

lemma sharded_shard:
  assumes "sharded_inv s"
  shows "shardIndex k (length (shards s)) < length (shards s)"
    "lru_inv (shards s ! shardIndex k (length (shards s)))"
  using assms shardIndex_less [of "length (shards s)" k] by (auto simp: sharded_inv_def)

interpretation sharded: cacher sharded_Get sharded_Put sharded_holds sharded_inv
proof (unfold_locales, goal_cases)
  case (1 s k r s')
  let ?i = "shardIndex k (length (shards s))"
  note sh = sharded_shard [OF 1(1), of k]
  obtain c' where g: "lru_Get k (shards s ! ?i) = (r, c')" "s' = s\<lparr>shards := (shards s)[?i := c']\<rparr>"
    using 1(2) by (auto simp: sharded_Get_def Let_def split: prod.splits)
  note ref = lru_Get_refines [OF sh(2) g(1)]
  have "sharded_holds s' = sharded_holds s"
  proof
    fix j
    show "sharded_holds s' j = sharded_holds s j"
      using ref sh(1) g(2) map_of_spec_touch
      by (cases "shardIndex j (length (shards s)) = ?i") (auto simp: sharded_holds_def)
  qed
  moreover have "sharded_inv s'"
    using 1(1) ref g(2) by (auto simp: sharded_inv_def dest!: set_update_subset_insert [THEN subsetD])
  ultimately show ?case
    using ref by (simp add: sharded_holds_def)
next
  case (2 s k v)
  show ?case
    using 2 lru_Put_refines(1) [OF sharded_shard(2) [OF 2], of k v]
    by (auto simp: sharded_inv_def sharded_Put_def Let_def dest!: set_update_subset_insert [THEN subsetD])
next
  case (3 s k v j u)
  let ?i = "shardIndex k (length (shards s))" and ?j = "shardIndex j (length (shards s))"
  note sh = sharded_shard [OF 3(1), of k]
  show ?case
  proof (cases "?j = ?i")
    case True
    then have "map_of (spec_put (capacity (shards s ! ?i)) k v (lru_list (shards s ! ?i))) j = Some u"
      using 3(2) sh lru_Put_refines(2) [OF sh(2)] by (simp add: sharded_holds_def sharded_Put_def Let_def)
    from map_of_spec_put [OF distinct_keys [OF sh(2)] this] True show ?thesis
      by (simp add: sharded_holds_def)
  next
    case False
    with 3(2) show ?thesis
      by (auto simp: sharded_holds_def sharded_Put_def Let_def)
  qed
qed

lemma sharded_inv_New:
  assumes "0 < n" "n < 2 ^ 32"
  shows "sharded_inv (NewShardedLRU n cap)" "sharded_holds (NewShardedLRU n cap) k = None"
  using assms shardIndex_less [OF assms, of k]
  by (auto simp: sharded_inv_def NewShardedLRU_def lru_inv_NewLRU sharded_holds_def lru_list_def)
    (simp_all add: NewLRU_def)

section \<open>Properties\<close>

datatype 'v cache_op = GetOp gostring | PutOp gostring 'v

fun lru_step :: "'v cache_op \<Rightarrow> 'v LRU \<Rightarrow> 'v LRU" where
  "lru_step (GetOp k) c = snd (lru_Get k c)"
| "lru_step (PutOp k v) c = lru_Put k v c"

fun spec_step :: "int \<Rightarrow> 'v cache_op \<Rightarrow> (gostring \<times> 'v) list \<Rightarrow> (gostring \<times> 'v) list" where
  "spec_step cap (GetOp k) xs = spec_touch k xs"
| "spec_step cap (PutOp k v) xs = spec_put cap k v xs"

fun sharded_step :: "'v cache_op \<Rightarrow> 'v ShardedLRU \<Rightarrow> 'v ShardedLRU" where
  "sharded_step (GetOp k) s = snd (sharded_Get k s)"
| "sharded_step (PutOp k v) s = sharded_Put k v s"

lemma lru_step_refines:
  assumes "lru_inv c"
  shows "lru_inv (lru_step op c)" "lru_list (lru_step op c) = spec_step (capacity c) op (lru_list c)"
    "capacity (lru_step op c) = capacity c"
  using assms lru_Get_refines [OF assms] lru_Put_refines [OF assms]
  by (cases op; metis lru_step.simps spec_step.simps prod.collapse)+

lemma lru_run_refines:
  assumes "lru_inv c"
  shows "lru_inv (fold lru_step ops c) \<and> capacity (fold lru_step ops c) = capacity c \<and>
    lru_list (fold lru_step ops c) = fold (spec_step (capacity c)) ops (lru_list c)"
  using assms
proof (induction ops arbitrary: c)
  case (Cons op ops)
  show ?case
    using Cons.IH [OF lru_step_refines(1) [OF Cons.prems, of op]] lru_step_refines [OF Cons.prems, of op] by simp
qed simp

text \<open>C27: The linked list and hash map of the cache implement least-recently-used replacement. After
  any sequence of operations on a new cache, its contents in list order are those of the recency
  list computed by the specification (a hit moves the pair to the front, an insertion goes to the
  front, the last pair is dropped when the capacity is exceeded), the map and the list stay
  consistent, and the next lookup returns what the recency list holds for the key.\<close>

theorem lru_refines_recency_list:
  "lru_inv (fold lru_step ops (NewLRU cap)) \<and>
   lru_list (fold lru_step ops (NewLRU cap)) = fold (spec_step cap) ops [] \<and>
   fst (lru_Get k (fold lru_step ops (NewLRU cap))) = map_of (fold (spec_step cap) ops []) k"
proof -
  let ?c = "fold lru_step ops (NewLRU cap)"
  have r: "lru_inv ?c" "lru_list ?c = fold (spec_step cap) ops []"
    using lru_run_refines [OF lru_inv_NewLRU, of ops cap] by (simp_all add: NewLRU_def lru_list_def)
  with lru_Get_refines [OF r(1), of k] show ?thesis
    by (metis prod.collapse)
qed

lemma length_spec_touch:
  assumes "distinct (map fst xs)"
  shows "length (spec_touch k xs) = length xs"
proof (cases "map_of xs k")
  case (Some v)
  have "length (filter (\<lambda>p. fst p \<noteq> k) xs) + 1 = length xs"
    using assms Some
  proof (induction xs)
    case (Cons x xs)
    have "filter (\<lambda>p. fst p \<noteq> k) xs = xs" if "fst x = k"
      using that Cons.prems(1) by (intro filter_True) (force simp: image_iff)
    with Cons show ?case by (cases "fst x = k") auto
  qed simp
  with Some show ?thesis by (simp add: spec_touch_def)
qed (simp add: spec_touch_def)

lemma lru_Len_list: "lru_Len c = length (lru_list c)"
  by (simp add: lru_Len_def lru_list_def)

lemma lru_step_Len:
  assumes "lru_inv c" "0 < capacity c" "int (lru_Len c) \<le> capacity c"
  shows "int (lru_Len (lru_step op c)) \<le> capacity c"
proof (cases op)
  case (GetOp k)
  then show ?thesis
    using assms lru_step_refines(2) [OF assms(1), of op] length_spec_touch [OF distinct_keys [OF assms(1)]]
    by (simp add: lru_Len_list)
next
  case (PutOp k v)
  have "int (length (filter (\<lambda>p. fst p \<noteq> k) (lru_list c))) \<le> capacity c"
    using assms(3) length_filter_le [of "\<lambda>p. fst p \<noteq> k" "lru_list c"] unfolding lru_Len_list by linarith
  with PutOp show ?thesis
    using assms(2) lru_step_refines(2) [OF assms(1), of op]
    by (auto simp: lru_Len_list spec_put_def Let_def)
qed

definition sharded_bounded :: "int \<Rightarrow> 'v ShardedLRU \<Rightarrow> bool" where
  "sharded_bounded cap s \<longleftrightarrow>
     sharded_inv s \<and> list_all (\<lambda>c. capacity c = cap \<and> int (lru_Len c) \<le> cap) (shards s)"

lemma sharded_step_eq:
  "sharded_step op s =
    (let i = (case op of GetOp k \<Rightarrow> shardIndex k (length (shards s)) | PutOp k v \<Rightarrow> shardIndex k (length (shards s)))
     in s\<lparr>shards := (shards s)[i := lru_step op (shards s ! i)]\<rparr>)"
  by (cases op) (simp_all add: sharded_Get_def sharded_Put_def Let_def split_beta)

lemma sharded_step_bounded:
  assumes "sharded_bounded cap s" "0 < cap"
  shows "sharded_bounded cap (sharded_step op s)"
proof -
  define i where "i = (case op of GetOp k \<Rightarrow> shardIndex k (length (shards s)) | PutOp k v \<Rightarrow> shardIndex k (length (shards s)))"
  let ?c = "shards s ! i"
  have inv: "sharded_inv s"
    using assms(1) by (simp add: sharded_bounded_def)
  then have i: "i < length (shards s)"
    using sharded_shard(1) by (auto simp: i_def split: cache_op.splits)
  then have c: "?c \<in> set (shards s)"
    by simp
  then have "lru_inv ?c" "capacity ?c = cap" "int (lru_Len ?c) \<le> cap"
    using assms(1) by (auto simp: sharded_bounded_def sharded_inv_def list_all_iff)
  then have "lru_inv (lru_step op ?c)" "capacity (lru_step op ?c) = cap" "int (lru_Len (lru_step op ?c)) \<le> cap"
    using lru_step_refines [of ?c op] lru_step_Len [of ?c op] assms(2) by auto
  then have "sharded_bounded cap (s\<lparr>shards := (shards s)[i := lru_step op ?c]\<rparr>)"
    using assms(1) set_update_subset_insert [of "shards s" i "lru_step op ?c"]
    by (auto simp: sharded_bounded_def sharded_inv_def list_all_iff)
  then show ?thesis
    by (simp add: sharded_step_eq i_def Let_def)
qed

lemma sharded_Len_sum: "sharded_Len s = sum_list (map lru_Len (shards s))"
proof -
  have "foldl (\<lambda>total shard. total + lru_Len shard) n cs = n + sum_list (map lru_Len cs)" for n and cs :: "'a LRU list"
    by (induction cs arbitrary: n) simp_all
  then show ?thesis by (simp add: sharded_Len_def)
qed

text \<open>C28: The block cache is bounded. Whatever is read and inserted, a cache of \<open>n\<close> shards with a
  positive capacity per shard never holds more than \<open>n\<close> times that many entries.\<close>

theorem sharded_cache_bounded:
  assumes "0 < n" "n < 2 ^ 32" "0 < cap"
  shows "int (sharded_Len (fold sharded_step ops (NewShardedLRU n cap))) \<le> int n * cap"
proof -
  let ?new = "NewShardedLRU n cap"
  have "sharded_bounded cap ?new"
    using sharded_inv_New [OF assms(1,2), of cap] assms(3)
    by (auto simp: sharded_bounded_def NewShardedLRU_def list_all_iff NewLRU_def lru_Len_def)
  then have b: "sharded_bounded cap (fold sharded_step ops ?new)"
    using assms(3) by (induction ops rule: rev_induct) (auto intro: sharded_step_bounded)
  have len: "length (shards (fold sharded_step ops ?new)) = n"
    by (induction ops rule: rev_induct) (simp_all add: NewShardedLRU_def sharded_step_eq Let_def)
  have "int (sum_list (map lru_Len cs)) \<le> int (length cs) * cap"
    if "list_all (\<lambda>c. int (lru_Len c) \<le> cap) cs" for cs :: "'a LRU list"
    using that by (induction cs) (auto simp: algebra_simps)
  moreover have "list_all (\<lambda>c. int (lru_Len c) \<le> cap) (shards (fold sharded_step ops ?new))"
    using b by (auto simp: sharded_bounded_def list_all_iff)
  ultimately show ?thesis
    unfolding sharded_Len_sum by (metis len)
qed

theorem sharded_cache_bounded_witness:
  "int (sharded_Len (fold sharded_step
     [PutOp (lit ''a'') (1 :: nat), PutOp (lit ''b'') 2, GetOp (lit ''a''), PutOp (lit ''c'') 3] (NewShardedLRU 1 2))) \<le> 2"
  using sharded_cache_bounded [of 1 2 "[PutOp (lit ''a'') (1 :: nat), PutOp (lit ''b'') 2, GetOp (lit ''a''), PutOp (lit ''c'') 3]"]
  by simp

end
