(* ===== verification/Go_Strconv.thy ===== *)
theory Go_Strconv
  imports Go_Prelude
begin

text \<open>
  Decimal numbers as \<^verbatim>\<open>fmt\<close> prints them: the value of a string of digits, that printing and reading
  back agree, and that strings of digits of equal length are ordered like their values (the order
  in which table files named by time stamps are listed).
\<close>

section \<open>Definitions\<close>

definition dec_val :: "bytes \<Rightarrow> nat" where
  "dec_val bs = foldl (\<lambda>a b. 10 * a + (unat b - 48)) 0 bs"

definition is_digit :: "u8 \<Rightarrow> bool" where
  "is_digit b \<longleftrightarrow> 48 \<le> b \<and> b \<le> 57"

section \<open>Lemmas\<close>

lemma unat_digit: "d < 10 \<Longrightarrow> unat (word_of_nat (48 + d) :: u8) = 48 + d"
  by (simp add: unat_of_nat del: of_nat_add)

lemma is_digit_iff: "is_digit b \<longleftrightarrow> 48 \<le> unat b \<and> unat b \<le> 57"
  by (simp add: is_digit_def word_le_nat_alt)

lemma is_digit_digit: "d < 10 \<Longrightarrow> is_digit (word_of_nat (48 + d))"
  using unat_digit [of d] unfolding is_digit_iff by linarith

lemma dec_nat_small: "n < 10 \<Longrightarrow> dec_nat n = [word_of_nat (48 + n)]"
  by (subst dec_nat.simps) simp

lemma dec_nat_large: "\<not> n < 10 \<Longrightarrow> dec_nat n = dec_nat (n div 10) @ [word_of_nat (48 + n mod 10)]"
  by (subst dec_nat.simps) simp

lemma dec_nat_digits: "list_all is_digit (dec_nat n)"
proof (induction n rule: dec_nat.induct)
  case (1 n)
  show ?case
  proof (cases "n < 10")
    case True
    then show ?thesis using is_digit_digit [OF True] unfolding dec_nat_small [OF True] by simp
  next
    case False
    then show ?thesis
      using 1 [OF False] is_digit_digit [of "n mod 10"] unfolding dec_nat_large [OF False] by simp
  qed
qed

lemma dec_nat_neq_Nil [simp]: "dec_nat n \<noteq> []"
  by (cases "n < 10") (simp_all add: dec_nat_small dec_nat_large)

lemma dec_val_snoc: "dec_val (bs @ [b]) = 10 * dec_val bs + (unat b - 48)"
  by (simp add: dec_val_def)

lemma dec_val_dec_nat [simp]: "dec_val (dec_nat n) = n"
proof (induction n rule: dec_nat.induct)
  case (1 n)
  show ?case
  proof (cases "n < 10")
    case True
    then show ?thesis
      unfolding dec_nat_small [OF True] using unat_digit [OF True] by (simp add: dec_val_def del: of_nat_add)
  next
    case False
    then show ?thesis
      using 1 [OF False] unat_digit [of "n mod 10"] unfolding dec_nat_large [OF False] dec_val_snoc by simp
  qed
qed

lemma dec_nat_inj [simp]: "dec_nat m = dec_nat n \<longleftrightarrow> m = n"
  by (metis dec_val_dec_nat)

lemma digit_not_in_dec_nat: "\<not> is_digit b \<Longrightarrow> b \<notin> set (dec_nat n)"
  using dec_nat_digits [of n] by (auto simp: list_all_iff)

lemma dec_int_not_in:
  assumes "\<not> is_digit b" "b \<noteq> 45"
  shows "b \<notin> set (dec_int i)"
  using assms digit_not_in_dec_nat [OF assms(1)] by (auto simp: dec_int_def)

lemma dec_int_inj: "dec_int i = dec_int j \<Longrightarrow> i = j"
proof -
  assume eq: "dec_int i = dec_int j"
  have "\<not> is_digit 45"
    by (simp add: is_digit_def)
  then have neq: "45 # dec_nat m \<noteq> dec_nat n" for m n
    using digit_not_in_dec_nat by (metis list.set_intros(1))
  show "i = j"
    using eq neq [symmetric] neq by (auto simp: dec_int_def split: if_splits)
qed

subsection \<open>Order\<close>

lemma dec_val_Cons: "dec_val (b # bs) = (unat b - 48) * 10 ^ length bs + dec_val bs"
proof -
  have "foldl (\<lambda>a b. 10 * a + (unat b - 48)) a bs = a * 10 ^ length bs + dec_val bs" for a and bs :: bytes
  proof (induction bs arbitrary: a)
    case (Cons x xs)
    show ?case
      using Cons.IH [of "10 * a + (unat x - 48)"] Cons.IH [of "unat x - 48"]
      by (simp add: dec_val_def algebra_simps)
  qed (simp add: dec_val_def)
  from this [of "unat b - 48" bs] show ?thesis
    by (simp add: dec_val_def)
qed

lemma dec_val_bound: "list_all is_digit bs \<Longrightarrow> dec_val bs < 10 ^ length bs"
proof (induction bs)
  case (Cons b bs)
  have "is_digit b"
    using Cons.prems by simp
  then have "unat b - 48 \<le> 9"
    unfolding is_digit_iff by linarith
  then have "(unat b - 48) * 10 ^ length bs \<le> 9 * 10 ^ length bs"
    by (rule mult_right_mono) simp
  moreover have "dec_val bs < 10 ^ length bs"
    using Cons by simp
  ultimately show ?case
    unfolding dec_val_Cons length_Cons power_Suc by linarith
qed (simp add: dec_val_def)

lemma dec_val_less_iff:
  assumes "length as = length bs" "list_all is_digit as" "list_all is_digit bs"
  shows "as < bs \<longleftrightarrow> dec_val as < dec_val bs"
  using assms
proof (induction as bs rule: list_induct2)
  case (Cons a as b bs)
  have dig: "is_digit a" "is_digit b" "list_all is_digit as" "list_all is_digit bs"
    using Cons.prems by simp_all
  then have da: "48 \<le> unat a" and db: "48 \<le> unat b" and IH: "as < bs \<longleftrightarrow> dec_val as < dec_val bs"
    and va: "dec_val as < 10 ^ length bs" and vb: "dec_val bs < 10 ^ length bs"
    using Cons.IH Cons.hyps dec_val_bound [of as] dec_val_bound [of bs] by (simp_all add: is_digit_iff [of a] is_digit_iff [of b])
  have step: "x * 10 ^ length bs + u < y * 10 ^ length bs + v" if "x < y" "u < 10 ^ length bs" for x y u v :: nat
  proof -
    have "Suc x * 10 ^ length bs \<le> y * 10 ^ length bs"
      using that(1) by (intro mult_right_mono) auto
    with that(2) show ?thesis by simp
  qed
  consider "a < b" | "a = b" | "b < a"
    by (meson linorder_neqE)
  then show ?case
  proof cases
    case 1
    then have "unat a - 48 < unat b - 48"
      using da by (simp add: word_less_nat_alt)
    from step [OF this va] show ?thesis
      using 1 Cons.hyps by (simp add: dec_val_Cons)
  next
    case 2
    then show ?thesis
      using IH Cons.hyps by (simp add: dec_val_Cons)
  next
    case 3
    then have "unat b - 48 < unat a - 48"
      using db by (simp add: word_less_nat_alt)
    from step [OF this vb, of "dec_val as"] show ?thesis
      using 3 less_asym [OF 3] Cons.hyps by (auto simp: dec_val_Cons)
  qed
qed simp

lemma length_dec_nat: "10 ^ k \<le> n \<Longrightarrow> n < 10 ^ Suc k \<Longrightarrow> length (dec_nat n) = Suc k"
proof (induction k arbitrary: n)
  case 0
  then show ?case by (simp add: dec_nat_small)
next
  case (Suc k)
  have "10 ^ k \<le> n div 10" "n div 10 < 10 ^ Suc k"
    using Suc.prems by (simp_all add: less_eq_div_iff_mult_less_eq div_less_iff_less_mult algebra_simps)
  moreover have "\<not> n < 10"
    using Suc.prems(1) by (metis power_increasing one_le_numeral not_less order.trans power_one_right le_add1 plus_1_eq_Suc)
  ultimately show ?case
    using Suc.IH [of "n div 10"] by (simp add: dec_nat_large)
qed

text \<open>Names made of time stamps with the same number of digits sort by time.\<close>

lemma dec_nat_less_iff:
  assumes "10 ^ k \<le> m" "m < 10 ^ Suc k" "10 ^ k \<le> n" "n < 10 ^ Suc k"
  shows "dec_nat m < dec_nat n \<longleftrightarrow> m < n"
  using dec_val_less_iff [of "dec_nat m" "dec_nat n"] dec_nat_digits length_dec_nat assms by simp

end
