(* ===== verification/Sstable_Reader.thy ===== *)
theory Sstable_Reader
  imports Sstable_Writer Lru_Cache Go_Strconv
begin

text \<open>
  Model of \<^verbatim>\<open>sstable/reader.go\<close>, \<^verbatim>\<open>sstable.go\<close>, \<^verbatim>\<open>iterator.go\<close> and \<^verbatim>\<open>block_iterator.go\<close>: opening tables, reading
  blocks through the shared cache, the seeking iterator and the point lookup. Reading changes the
  cache only; the world is an argument. Allocating a negative length, a
  filter section without its header and dereferencing a nil filter are panics. The loops that advance an iterator are one function, \<open>scan_until\<close>, whose termination
  measure is the position in the table.
\<close>

section \<open>Definitions\<close>

subsection \<open>Opening\<close>

definition readBloom :: "bytes \<Rightarrow> i64 \<Rightarrow> go_error + BloomFilter option" where
  "readBloom content bloomOffset =
     (case seek_start content bloomOffset of
        Inl e \<Rightarrow> Inl e
      | Inr r \<Rightarrow>
          (case read_u32 r of
             Inl e \<Rightarrow> Inl e
           | Inr (bloomLen, r1) \<Rightarrow>
               (case ReadFull (unat bloomLen) r1 of
                  Inl e \<Rightarrow> Inl e
                | Inr (bloomBytes, _) \<Rightarrow>
                    (case Deserialize bloomBytes of None \<Rightarrow> Inl Panic | Some bloom \<Rightarrow> Inr (Some bloom)))))"

definition sst_Open :: "gostring \<Rightarrow> world \<Rightarrow> go_error + SSTable" where
  "sst_Open filepath w =
     (case fst (os_ReadFile filepath w) of
        Inl e \<Rightarrow> Inl e
      | Inr content \<Rightarrow>
          (case readFooterWithBloom content of
             Inl e \<Rightarrow> Inl e
           | Inr (indexOffset, numEntries, bloomOffset) \<Rightarrow>
               (case decodeIndex content indexOffset numEntries of
                  Inl e \<Rightarrow> Inl e
                | Inr index \<Rightarrow>
                    (case readBloom content bloomOffset of
                       Inl e \<Rightarrow> Inl e
                     | Inr bloom \<Rightarrow>
                         Inr \<lparr>FilePath = filepath, sst_index = index, sst_bloom = bloom, sst_cache = False\<rparr>))))"

text \<open>
  \<^verbatim>\<open>os.ReadDir\<close>: the names of the files directly in the directory. The \<^verbatim>\<open>sort.Slice\<close> call orders these
  distinct names descending.
\<close>

definition dir_names :: "gostring \<Rightarrow> world \<Rightarrow> gostring list" where
  "dir_names dirPath w =
     remdups
       (map (drop (length dirPath + 1))
         (filter (\<lambda>p. take (length dirPath + 1) p = dirPath @ lit ''/'' \<and> 47 \<notin> set (drop (length dirPath + 1) p))
           (map fst (files w))))"

fun open_all :: "gostring list \<Rightarrow> SSTable list \<Rightarrow> world \<Rightarrow> go_error + SSTable list" where
  "open_all [] tables w = Inr tables"
| "open_all (p # ps) tables w =
     (case sst_Open p w of Inl e \<Rightarrow> Inl e | Inr sst \<Rightarrow> open_all ps (tables @ [sst]) w)"

definition OpenAllInDir :: "gostring \<Rightarrow> world \<Rightarrow> go_error + SSTable list" where
  "OpenAllInDir dirPath w =
     open_all (map (\<lambda>name. dirPath @ lit ''/'' @ name) (rev (sort (dir_names dirPath w)))) [] w"

subsection \<open>Blocks through the cache\<close>

type_synonym block_cache = "BlockEntry list ShardedLRU"

definition read_block_at :: "bytes \<Rightarrow> IndexEntry \<Rightarrow> go_error + BlockEntry list" where
  "read_block_at content idx =
     (case seek_start content (Offset idx) of
        Inl e \<Rightarrow> Inl e
      | Inr r \<Rightarrow>
          (if sint (Length idx) < 0 then Inl Panic
           else (case ReadFull (nat (sint (Length idx))) r of
                   Inl e \<Rightarrow> Inl e
                 | Inr (blockBytes, _) \<Rightarrow> decodeBlock blockBytes)))"

definition load_block :: "SSTable \<Rightarrow> IndexEntry \<Rightarrow> world \<Rightarrow> go_error + BlockEntry list" where
  "load_block sst idx w =
     (case fst (os_ReadFile (FilePath sst) w) of Inl e \<Rightarrow> Inl e | Inr content \<Rightarrow> read_block_at content idx)"

definition cacheKey :: "SSTable \<Rightarrow> IndexEntry \<Rightarrow> gostring" where
  "cacheKey sst idx = FilePath sst @ lit '':'' @ dec_int (sint (Offset idx))"

definition readBlock ::
  "SSTable \<Rightarrow> IndexEntry \<Rightarrow> block_cache \<Rightarrow> world \<Rightarrow> (go_error + BlockEntry list) \<times> block_cache" where
  "readBlock sst idx c w =
     (if sst_cache sst
      then (case sharded_Get (cacheKey sst idx) c of
              (Some cached, c1) \<Rightarrow> (Inr cached, c1)
            | (None, c1) \<Rightarrow>
                (case load_block sst idx w of
                   Inl e \<Rightarrow> (Inl e, c1)
                 | Inr entries \<Rightarrow> (Inr entries, sharded_Put (cacheKey sst idx) entries c1)))
      else (load_block sst idx w, c))"

definition EncodeSearchKeyAt :: "bytes \<Rightarrow> SeqNum \<Rightarrow> bytes" where
  "EncodeSearchKeyAt userKey snapshot = encode_key (MakeSearchKeyAt userKey snapshot)"

definition EncodeSearchKey :: "bytes \<Rightarrow> bytes" where
  "EncodeSearchKey userKey = encode_key (MakeSearchKey userKey)"

subsection \<open>Iterator\<close>

record sst_Iterator =
  si_sst :: SSTable
  si_snapshot :: SeqNum
  si_blockIdx :: nat
  si_entries :: "BlockEntry list"
  si_pos :: nat
  si_valid :: bool

definition loadBlock ::
  "sst_Iterator \<Rightarrow> block_cache \<Rightarrow> world \<Rightarrow> (go_error option \<times> sst_Iterator) \<times> block_cache" where
  "loadBlock it c w =
     (if si_blockIdx it \<ge> length (sst_index (si_sst it)) then ((None, it\<lparr>si_valid := False\<rparr>), c)
      else (case readBlock (si_sst it) (sst_index (si_sst it) ! si_blockIdx it) c w of
              (Inl e, c1) \<Rightarrow> ((Some e, it), c1)
            | (Inr entries, c1) \<Rightarrow>
                ((None, it\<lparr>si_entries := entries, si_pos := 0, si_valid := (length entries > 0)\<rparr>), c1)))"

definition advance ::
  "sst_Iterator \<Rightarrow> block_cache \<Rightarrow> world \<Rightarrow> (bool \<times> sst_Iterator) \<times> block_cache" where
  "advance it c w =
     (let it1 = it\<lparr>si_pos := si_pos it + 1\<rparr>
      in if si_pos it1 < length (si_entries it1) then ((True, it1), c)
         else (case loadBlock (it1\<lparr>si_blockIdx := si_blockIdx it1 + 1\<rparr>) c w of
                 ((err, it2), c1) \<Rightarrow>
                   if err \<noteq> None \<or> \<not> si_valid it2 then ((False, it2\<lparr>si_valid := False\<rparr>), c1)
                   else ((True, it2), c1)))"

lemma advance_progress:
  assumes "advance it c w = ((True, it'), c')"
  shows "((length (sst_index (si_sst it')) - si_blockIdx it', length (si_entries it') - si_pos it'),
    (length (sst_index (si_sst it)) - si_blockIdx it, length (si_entries it) - si_pos it)) \<in> less_than <*lex*> less_than"
  using assms
  by (auto simp: advance_def loadBlock_def Let_def split: if_splits prod.splits sum.splits)

text \<open>Advance while the iterator is valid and its entry does not satisfy \<open>P\<close>.\<close>

function scan_until ::
  "(BlockEntry \<Rightarrow> bool) \<Rightarrow> sst_Iterator \<Rightarrow> block_cache \<Rightarrow> world \<Rightarrow> sst_Iterator \<times> block_cache" where
  "scan_until P it c w =
     (if si_valid it \<and> \<not> P (si_entries it ! si_pos it)
      then (case advance it c w of
              ((True, it'), c') \<Rightarrow> scan_until P it' c' w
            | ((False, it'), c') \<Rightarrow> (it', c'))
      else (it, c))"
  by pat_completeness auto
termination
  by (relation "inv_image (less_than <*lex*> less_than)
        (\<lambda>(P, it, c, w). (length (sst_index (si_sst it)) - si_blockIdx it, length (si_entries it) - si_pos it))")
    (auto dest!: advance_progress [OF sym])

declare scan_until.simps [simp del]

definition skipInvisible :: "sst_Iterator \<Rightarrow> block_cache \<Rightarrow> world \<Rightarrow> sst_Iterator \<times> block_cache" where
  "skipInvisible it c w = scan_until (\<lambda>e. Visible (DecodeInternalKey (be_Key e)) (si_snapshot it)) it c w"

definition sst_NewIterator ::
  "SSTable \<Rightarrow> bytes \<Rightarrow> SeqNum \<Rightarrow> block_cache \<Rightarrow> world \<Rightarrow> (go_error + sst_Iterator) \<times> block_cache" where
  "sst_NewIterator sst lowerBound snapshot c w =
     (let encodedSeek = EncodeSearchKeyAt lowerBound snapshot;
          seekKey = DecodeInternalKey encodedSeek;
          found = searchIndex (sst_index sst) encodedSeek;
          it = \<lparr>si_sst = sst, si_snapshot = snapshot, si_blockIdx = (if found < 0 then 0 else nat found),
                si_entries = [], si_pos = 0, si_valid = False\<rparr>
      in case loadBlock it c w of
           ((Some e, _), c1) \<Rightarrow> (Inl e, c1)
         | ((None, it1), c1) \<Rightarrow>
             (case scan_until (\<lambda>e. InternalCompare bytes_Compare (DecodeInternalKey (be_Key e)) seekKey \<ge> 0) it1 c1 w of
                (it2, c2) \<Rightarrow> (case skipInvisible it2 c2 w of (it3, c3) \<Rightarrow> (Inr it3, c3))))"

definition sst_Key :: "sst_Iterator \<Rightarrow> bytes" where
  "sst_Key it = be_Key (si_entries it ! si_pos it)"

definition sst_Value :: "sst_Iterator \<Rightarrow> bytes" where
  "sst_Value it = be_Value (si_entries it ! si_pos it)"

definition sst_Next :: "sst_Iterator \<Rightarrow> block_cache \<Rightarrow> world \<Rightarrow> sst_Iterator \<times> block_cache" where
  "sst_Next it c w =
     (case advance it c w of
        ((True, it'), c') \<Rightarrow> skipInvisible it' c' w
      | ((False, it'), c') \<Rightarrow> (it', c'))"

subsection \<open>Lookup\<close>

definition Lookup ::
  "SSTable \<Rightarrow> bytes \<Rightarrow> SeqNum \<Rightarrow> block_cache \<Rightarrow> world \<Rightarrow> (bytes \<times> KEY_LOOKUP_ENUM \<times> go_error option) \<times> block_cache" where
  "Lookup sst userKey snapshot c w =
     (case sst_bloom sst of
        None \<Rightarrow> (([], KEY_ABSENT, Some Panic), c)
      | Some bloom \<Rightarrow>
          (case MightContain userKey bloom of
             None \<Rightarrow> (([], KEY_ABSENT, Some Panic), c)
           | Some False \<Rightarrow> (([], KEY_ABSENT, None), c)
           | Some True \<Rightarrow>
               (case sst_NewIterator sst userKey snapshot c w of
                  (Inl e, c1) \<Rightarrow> (([], KEY_ABSENT, Some e), c1)
                | (Inr it, c1) \<Rightarrow>
                    if \<not> si_valid it then (([], KEY_ABSENT, None), c1)
                    else
                      (let ik = DecodeInternalKey (sst_Key it)
                       in if UserKey ik \<noteq> userKey then (([], KEY_ABSENT, None), c1)
                          else if key_Kind ik = InternalKeyKindDelete then (([], KEY_DELETED, None), c1)
                          else ((sst_Value it, KEY_FOUND, None), c1)))))"

subsection \<open>Block iterator\<close>

fun read_blocks :: "bytes \<Rightarrow> IndexEntry list \<Rightarrow> BlockEntry list \<Rightarrow> go_error + BlockEntry list" where
  "read_blocks content [] entries = Inr entries"
| "read_blocks content (idx # index) entries =
     (case read_block_at content idx of Inl e \<Rightarrow> Inl e | Inr es \<Rightarrow> read_blocks content index (entries @ es))"

definition NewBlockIterator :: "SSTable \<Rightarrow> world \<Rightarrow> go_error + BlockEntry list" where
  "NewBlockIterator sst w =
     (case fst (os_ReadFile (FilePath sst) w) of
        Inl e \<Rightarrow> Inl e
      | Inr content \<Rightarrow> read_blocks content (sst_index sst) [])"

section \<open>Reading back a written table\<close>

definition entry_version :: "BlockEntry \<Rightarrow> version" where
  "entry_version e = (DecodeInternalKey (be_Key e), be_Value e)"

definition versions :: "BlockEntry list \<Rightarrow> version list" where
  "versions es = map entry_version es"

text \<open>Sizes that fit the integers of the file format.\<close>

definition table_fits :: "BlockEntry list \<Rightarrow> bool" where
  "table_fits es \<longleftrightarrow>
     list_all (\<lambda>e. entry_size e < 2 ^ 30) es \<and> length es < 2 ^ 31 \<and> length (table_bytes es) < 2 ^ 62"

text \<open>The table \<open>sst\<close> is the open handle of a complete and durable file of the entries \<open>es\<close>.\<close>

definition table_holds :: "world \<Rightarrow> SSTable \<Rightarrow> BlockEntry list \<Rightarrow> bool" where
  "table_holds w sst es \<longleftrightarrow>
     fs_get w (FilePath sst) = Some (complete_file es) \<and>
     sst_index sst = index_of (chunk [] es) \<and> sst_bloom sst = Some (bloom_of es) \<and>
     table_fits es \<and> sorted_versions (versions es)"

subsection \<open>Sizes\<close>

lemma sint_of_nat64: "n < 2 ^ 63 \<Longrightarrow> sint (word_of_nat n :: i64) = int n"
  by (simp add: sint_uint unsigned_of_nat signed_take_bit_int_eq_self take_bit_nat_eq_self)

lemma sint_of_nat32: "n < 2 ^ 31 \<Longrightarrow> sint (word_of_nat n :: i32) = int n"
  by (simp add: sint_uint unsigned_of_nat signed_take_bit_int_eq_self take_bit_nat_eq_self)

lemma length_entry_bytes: "length (entry_bytes e) = entry_size e"
  by (simp add: entry_bytes_def writeBlockEntry_def entry_size_def)

lemma length_encodeBlock: "length (encodeBlock es) = 8 + sum_list (map entry_size es)"
  by (simp add: encodeBlock_eq Let_def length_concat comp_def length_entry_bytes)

lemma chunk_size:
  assumes "b \<in> set (chunk cur es)" "list_all (\<lambda>e. entry_size e < n) es"
    "sum_list (map entry_size cur) < DEFAULT_BLOCK_SIZE"
  shows "sum_list (map entry_size b) < DEFAULT_BLOCK_SIZE + n"
  using assms
proof (induction cur es rule: chunk.induct)
  case (1 cur)
  then show ?case by (auto split: if_splits)
next
  case (2 cur e es)
  then show ?case
    by (cases "sum_list (map entry_size (cur @ [e])) \<ge> DEFAULT_BLOCK_SIZE")
      (auto simp: DEFAULT_BLOCK_SIZE_def)
qed

lemma length_concat_chunk: "sum_list (map length (chunk cur es)) = length cur + length es"
  using arg_cong [OF concat_chunk [of cur es], of length] by (simp add: length_concat)

lemma chunk_count: "length (chunk [] es) \<le> length es"
proof -
  have "length bs \<le> sum_list (map length bs)" if "\<forall>b \<in> set bs. b \<noteq> []" for bs :: "BlockEntry list list"
    using that by (induction bs) (auto simp: Suc_le_eq add_strict_increasing)
  from this [of "chunk [] es"] show ?thesis
    using chunk_nonempty length_concat_chunk [of "[]" es] by auto
qed

lemma chunk_member: "b \<in> set (chunk [] es) \<Longrightarrow> e \<in> set b \<Longrightarrow> e \<in> set es"
  using concat_chunk [of "[]" es] by (metis append_Nil in_set_conv_decomp concat.simps(2) concat_append set_append Un_iff)

lemma block_fits:
  assumes "table_fits es" "b \<in> set (chunk [] es)"
  shows "length (encodeBlock b) < 2 ^ 31" "list_all entry_fits b" "length b < 2 ^ 32" "length (be_Key (hd b)) < 2 ^ 32"
proof -
  have small: "list_all (\<lambda>e. entry_size e < 2 ^ 30) es"
    using assms(1) by (simp add: table_fits_def)
  have "sum_list (map entry_size b) < DEFAULT_BLOCK_SIZE + 2 ^ 30"
    using chunk_size [OF assms(2) small] by (simp add: DEFAULT_BLOCK_SIZE_def)
  then show "length (encodeBlock b) < 2 ^ 31"
    by (simp add: length_encodeBlock DEFAULT_BLOCK_SIZE_def)
  have e: "entry_size e < 2 ^ 30" if "e \<in> set b" for e
    using chunk_member [OF assms(2) that] small by (simp add: list_all_iff)
  then show "list_all entry_fits b"
    by (force simp: list_all_iff entry_fits_def entry_size_def)
  show "length (be_Key (hd b)) < 2 ^ 32"
    using e [of "hd b"] chunk_nonempty [OF assms(2)] by (simp add: entry_size_def)
  have "length b \<le> sum_list (map length (chunk [] es))"
    using assms(2) by (auto intro: member_le_sum_list)
  then show "length b < 2 ^ 32"
    using assms(1) by (simp add: length_concat_chunk table_fits_def)
qed

lemma blocks_bytes_append [simp]: "blocks_bytes (xs @ ys) = blocks_bytes xs @ blocks_bytes ys"
  by (simp add: blocks_bytes_def)

lemma blocks_bytes_split:
  "i < length bs \<Longrightarrow>
    blocks_bytes bs = blocks_bytes (take i bs) @ encodeBlock (bs ! i) @ blocks_bytes (drop (Suc i) bs)"
  by (subst id_take_nth_drop [of i bs]) (simp_all add: blocks_bytes_def)

lemma table_bytes_blocks: "\<exists>s. table_bytes es = blocks_bytes (chunk [] es) @ s"
  by (simp add: table_bytes_def Let_def)

lemma read_block_at_table:
  assumes "table_fits es" "i < length (chunk [] es)"
  shows "read_block_at (table_bytes es) (block_index (chunk [] es) i) = Inr (chunk [] es ! i)"
proof -
  let ?bs = "chunk [] es"
  have b: "?bs ! i \<in> set ?bs"
    using assms(2) by simp
  obtain s where s: "table_bytes es = blocks_bytes (take i ?bs) @ encodeBlock (?bs ! i) @ s"
    using table_bytes_blocks [of es] blocks_bytes_split [OF assms(2)] by auto
  have "length (blocks_bytes (take i ?bs)) \<le> length (table_bytes es)"
    by (simp add: s)
  then have off: "sint (word_of_nat (length (blocks_bytes (take i ?bs))) :: i64) = int (length (blocks_bytes (take i ?bs)))"
    using assms(1) by (intro sint_of_nat64) (simp add: table_fits_def)
  have len: "sint (word_of_nat (length (encodeBlock (?bs ! i))) :: i32) = int (length (encodeBlock (?bs ! i)))"
    by (rule sint_of_nat32 [OF block_fits(1) [OF assms(1) b]])
  show ?thesis
    using decodeBlock_encodeBlock [OF block_fits(2,3) [OF assms(1) b]]
    by (simp add: read_block_at_def block_index_def seek_start_def off len s ReadFull_append)
qed

lemma read_blocks_table:
  assumes "table_fits es" "n \<le> length (chunk [] es)"
  shows "read_blocks (table_bytes es) (drop n (index_of (chunk [] es))) acc = Inr (acc @ concat (drop n (chunk [] es)))"
  using assms(2)
proof (induction "length (chunk [] es) - n" arbitrary: n acc)
  case 0
  then show ?case by simp
next
  case (Suc k)
  then have n: "n < length (chunk [] es)"
    by simp
  have "k = length (chunk [] es) - Suc n"
    using Suc(2) by simp
  from Suc(1) [OF this, of "acc @ chunk [] es ! n"] show ?case
    using n read_block_at_table [OF assms(1) n]
    by (simp add: Cons_nth_drop_Suc [symmetric] index_of_nth)
qed

lemma NewBlockIterator_table: "table_holds w sst es \<Longrightarrow> NewBlockIterator sst w = Inr es"
  using read_blocks_table [of es 0 "[]"]
  by (auto simp: table_holds_def NewBlockIterator_def os_ReadFile_def concat_chunk complete_file_def)

subsection \<open>Opening\<close>

lemma length_Serialize_bloom: "length (Serialize (bloom_of es)) < 2 ^ 32"
  using default_bloom(2) [of es] by (simp add: length_Serialize bloom_inv_def) linarith

lemma sst_Open_table:
  assumes "fs_get w path = Some f" "fdata f = table_bytes es" "table_fits es"
  shows "sst_Open path w = Inr (table_of path es)"
proof -
  let ?bs = "chunk [] es" and ?bb = "Serialize (bloom_of es)"
  let ?pre = "blocks_bytes ?bs" and ?idx = "concat (map index_bytes (index_of (chunk [] es)))"
  let ?io = "word_of_nat (length ?pre) :: i64" and ?bo = "word_of_nat (length (?pre @ ?idx)) :: i64"
  let ?ft = "PutUint64 ?io @ PutUint32 (word_of_nat (length (index_of ?bs))) @ PutUint64 ?bo"
  have image: "table_bytes es = ?pre @ ?idx @ PutUint32 (word_of_nat (length ?bb)) @ ?bb @ ?ft"
    by (simp add: table_bytes_def Let_def indexSize_eq)
  have len: "length (?pre @ ?idx) < 2 ^ 62"
    using assms(3) unfolding table_fits_def image by simp
  have io: "sint ?io = int (length ?pre)" and bo: "sint ?bo = int (length (?pre @ ?idx))"
    by (rule sint_of_nat64, use len in simp)+
  have foot: "readFooterWithBloom (table_bytes es) = Inr (?io, word_of_nat (length (index_of ?bs)), ?bo)"
    using readFooterWithBloom_append [of "?pre @ ?idx @ PutUint32 (word_of_nat (length ?bb)) @ ?bb"]
    unfolding image by simp
  have "length ?bs < 2 ^ 32"
    using chunk_count [of es] assms(3) by (simp add: table_fits_def)
  then have idx: "decodeIndex (table_bytes es) ?io (word_of_nat (length (index_of ?bs))) = Inr (index_of ?bs)"
    unfolding image using block_fits(4) [OF assms(3)]
    by (intro decodeIndex_append [OF io]) (auto simp: list_all_iff index_of_def block_index_def)
  have "seek_start (table_bytes es) ?bo = Inr (PutUint32 (word_of_nat (length ?bb)) @ ?bb @ ?ft)"
    unfolding seek_start_def bo image by simp
  then have bloom: "readBloom (table_bytes es) ?bo = Inr (Some (bloom_of es))"
    using length_Serialize_bloom [of es] Deserialize_Serialize [OF default_bloom(2)]
    by (simp add: readBloom_def enc_simps)
  show ?thesis
    using assms(1,2) foot idx bloom by (simp add: sst_Open_def os_ReadFile_def table_of_def)
qed

section \<open>The cache stays coherent\<close>

lemma append_sep_inj:
  assumes "p @ s # q = p' @ s # q'" "s \<notin> set q" "s \<notin> set q'"
  shows "p = p' \<and> q = q'"
proof -
  have "rev q @ s # rev p = rev q' @ s # rev p'"
    using arg_cong [OF assms(1), of rev] by simp
  moreover have "xs = xs' \<and> ys = ys'"
    if "xs @ s # ys = xs' @ s # ys'" "s \<notin> set xs" "s \<notin> set xs'" for xs ys xs' ys'
    using that by (induction xs arbitrary: xs') (case_tac xs'; auto)+
  ultimately show ?thesis
    using assms(2,3) by (metis rev_rev_ident set_rev)
qed

lemma cacheKey_inj: "cacheKey t i = cacheKey t' i' \<longleftrightarrow> FilePath t = FilePath t' \<and> Offset i = Offset i'"
proof -
  have "(58 :: u8) \<notin> set (dec_int k)" for k
    by (rule dec_int_not_in) (simp_all add: is_digit_def)
  then show ?thesis
    using append_sep_inj [of "FilePath t" 58 "dec_int (sint (Offset i))" "FilePath t'" "dec_int (sint (Offset i'))"]
      dec_int_inj [of "sint (Offset i)" "sint (Offset i')"] by (auto simp: cacheKey_def lit_def intro: signed_word_eqI)
qed

text \<open>What may be in the cache: under the key of a block of a table in use, the contents of the block.\<close>

definition block_cached :: "SSTable set \<Rightarrow> world \<Rightarrow> gostring \<Rightarrow> BlockEntry list \<Rightarrow> bool" where
  "block_cached T w k es \<longleftrightarrow>
     (\<forall>t \<in> T. \<forall>idx \<in> set (sst_index t). k = cacheKey t idx \<longrightarrow> load_block t idx w = Inr es)"

definition cache_ok :: "SSTable set \<Rightarrow> world \<Rightarrow> block_cache \<Rightarrow> bool" where
  "cache_ok T w c \<longleftrightarrow> sharded.coherent (block_cached T w) c"

text \<open>Tables in use: each holds its entries, and a path determines them.\<close>

definition tables_hold :: "world \<Rightarrow> (SSTable \<times> BlockEntry list) list \<Rightarrow> bool" where
  "tables_hold w ts \<longleftrightarrow> list_all (\<lambda>(t, es). table_holds w t es) ts \<and> distinct (map (FilePath \<circ> fst) ts)"

lemma block_offsets_distinct:
  assumes "table_fits es" "i < length (chunk [] es)" "j < length (chunk [] es)"
    "Offset (block_index (chunk [] es) i) = Offset (block_index (chunk [] es) j)"
  shows "i = j"
proof -
  let ?bs = "chunk [] es" and ?len = "\<lambda>i. length (blocks_bytes (take i (chunk [] es)))"
  have mono: "?len i < ?len j" if "i < j" "j \<le> length ?bs" for i j
  proof -
    have "take j ?bs = take i ?bs @ take (j - i) (drop i ?bs)"
      using that take_add [of i "j - i" ?bs] by simp
    also have "drop i ?bs = ?bs ! i # drop (Suc i) ?bs"
      using that by (simp add: Cons_nth_drop_Suc)
    finally show ?thesis
      using that by (simp add: take_Cons' blocks_bytes_def length_encodeBlock)
  qed
  obtain s where "table_bytes es = blocks_bytes ?bs @ s"
    using table_bytes_blocks by blast
  then have bound: "?len i < 2 ^ 62" if "i < length ?bs" for i
    using assms(1) blocks_bytes_split [OF that] by (simp add: table_fits_def)
  have si: "sint (word_of_nat (?len i) :: i64) = int (?len i)" if "i < length ?bs" for i
    by (rule sint_of_nat64, rule less_trans [OF bound [OF that]]) simp
  have "word_of_nat (?len i) = (word_of_nat (?len j) :: i64)"
    using assms(4) by (simp add: block_index_def)
  then have "int (?len i) = int (?len j)"
    using si [OF assms(2)] si [OF assms(3)] by metis
  then show ?thesis
    using mono [of i j] mono [of j i] assms(2,3) by (cases i j rule: linorder_cases) auto
qed

lemma load_block_table:
  assumes "table_holds w t es" "i < length (chunk [] es)"
  shows "load_block t (sst_index t ! i) w = Inr (chunk [] es ! i)"
  using assms read_block_at_table [OF _ assms(2)]
  by (auto simp: table_holds_def load_block_def os_ReadFile_def index_of_nth complete_file_def)

lemma block_cached_put:
  assumes "tables_hold w ts" "(t, es) \<in> set ts" "i < length (chunk [] es)"
  shows "block_cached (fst ` set ts) w (cacheKey t (sst_index t ! i)) (chunk [] es ! i)"
  unfolding block_cached_def
proof (intro ballI impI)
  fix t' idx
  assume t': "t' \<in> fst ` set ts" and idx: "idx \<in> set (sst_index t')"
    and key: "cacheKey t (sst_index t ! i) = cacheKey t' idx"
  obtain es' where te': "(t', es') \<in> set ts"
    using t' by auto
  have eq: "t' = t \<and> es' = es"
    using assms(1,2) te' key unfolding cacheKey_inj tables_hold_def distinct_map
    by (metis (no_types, lifting) comp_apply fst_conv inj_onD prod.inject)
  have holds: "table_holds w t es"
    using assms(1,2) by (auto simp: tables_hold_def list_all_iff)
  then obtain j where j: "j < length (chunk [] es)" "idx = sst_index t ! j"
    using idx eq by (auto simp: table_holds_def in_set_conv_nth)
  have "i = j"
    using key block_offsets_distinct [of es i j] holds assms(3) j
    by (simp add: cacheKey_inj table_holds_def index_of_nth)
  then show "load_block t' idx w = Inr (chunk [] es ! i)"
    using eq j load_block_table [OF holds] by simp
qed

lemma readBlock_table:
  assumes "tables_hold w ts" "(t, es) \<in> set ts" "i < length (chunk [] es)" "cache_ok (fst ` set ts) w c"
  shows "fst (readBlock t (sst_index t ! i) c w) = Inr (chunk [] es ! i) \<and>
    cache_ok (fst ` set ts) w (snd (readBlock t (sst_index t ! i) c w))"
proof -
  let ?k = "cacheKey t (sst_index t ! i)"
  have holds: "table_holds w t es"
    using assms(1,2) by (auto simp: tables_hold_def list_all_iff)
  note load = load_block_table [OF holds assms(3)]
  have t: "t \<in> fst ` set ts" "sst_index t ! i \<in> set (sst_index t)"
    using assms(2,3) holds by (force simp: table_holds_def)+
  obtain r c1 where g: "sharded_Get ?k c = (r, c1)"
    by (metis surj_pair)
  have coh: "sharded.coherent (block_cached (fst ` set ts) w) c"
    using assms(4) by (simp add: cache_ok_def)
  note G = sharded.coherent_get [OF coh g]
  show ?thesis
  proof (cases "sst_cache t")
    case False
    then show ?thesis
      using load assms(4) by (simp add: readBlock_def)
  next
    case True
    show ?thesis
    proof (cases r)
      case None
      then show ?thesis
        using True g load sharded.coherent_put [OF G(1) block_cached_put [OF assms(1-3)]]
        by (simp add: readBlock_def cache_ok_def)
    next
      case (Some v)
      then have "load_block t (sst_index t ! i) w = Inr v"
        using G(2) t by (auto simp: block_cached_def)
      then show ?thesis
        using True g load Some G(1) by (simp add: readBlock_def cache_ok_def)
    qed
  qed
qed

section \<open>Iterators walk the entries\<close>

definition it_at :: "SSTable \<Rightarrow> SeqNum \<Rightarrow> BlockEntry list list \<Rightarrow> sst_Iterator \<Rightarrow> bool" where
  "it_at t s bs it \<longleftrightarrow>
     si_sst it = t \<and> si_snapshot it = s \<and>
     (si_valid it \<longrightarrow>
        si_blockIdx it < length bs \<and> si_entries it = bs ! si_blockIdx it \<and> si_pos it < length (si_entries it))"

text \<open>The entries an iterator has still to visit, the current one first.\<close>

definition remaining :: "BlockEntry list list \<Rightarrow> sst_Iterator \<Rightarrow> BlockEntry list" where
  "remaining bs it =
     (if si_valid it then drop (si_pos it) (si_entries it) @ concat (drop (Suc (si_blockIdx it)) bs) else [])"

lemma remaining_valid:
  assumes "it_at t s bs it"
  shows "si_valid it \<longleftrightarrow> remaining bs it \<noteq> []"
    "si_valid it \<Longrightarrow> hd (remaining bs it) = si_entries it ! si_pos it"
  using assms by (auto simp: it_at_def remaining_def hd_append hd_drop_conv_nth)

lemma chunk_nth_nonempty: "i < length (chunk [] es) \<Longrightarrow> chunk [] es ! i \<noteq> []"
  using chunk_nonempty nth_mem by blast

lemma loadBlock_table:
  assumes "tables_hold w ts" "(t, es) \<in> set ts" "cache_ok (fst ` set ts) w c"
    and "si_sst it = t" "loadBlock it c w = ((e, it'), c')"
  shows "e = None" "it_at t (si_snapshot it) (chunk [] es) it'" "cache_ok (fst ` set ts) w c'"
    "remaining (chunk [] es) it' = concat (drop (si_blockIdx it) (chunk [] es))"
proof -
  let ?bs = "chunk [] es" and ?i = "si_blockIdx it"
  have len: "length (sst_index t) = length ?bs"
    using assms(1,2) by (auto simp: tables_hold_def list_all_iff table_holds_def)
  have "e = None \<and> it_at t (si_snapshot it) ?bs it' \<and> cache_ok (fst ` set ts) w c' \<and>
    remaining ?bs it' = concat (drop ?i ?bs)"
  proof (cases "?i < length ?bs")
    case False
    then show ?thesis
      using assms(3-5) len by (auto simp: loadBlock_def it_at_def remaining_def)
  next
    case True
    have "fst (readBlock t (sst_index t ! ?i) c w) = Inr (?bs ! ?i)" "cache_ok (fst ` set ts) w (snd (readBlock t (sst_index t ! ?i) c w))"
      using readBlock_table [OF assms(1,2) True assms(3)] by simp_all
    then obtain c1 where rb: "readBlock t (sst_index t ! ?i) c w = (Inr (?bs ! ?i), c1)" "cache_ok (fst ` set ts) w c1"
      by (metis prod.collapse)
    have "concat (drop ?i ?bs) = ?bs ! ?i @ concat (drop (Suc ?i) ?bs)"
      using True by (simp add: Cons_nth_drop_Suc [symmetric])
    then show ?thesis
      using assms(4,5) rb True len chunk_nth_nonempty [OF True]
      by (auto simp: loadBlock_def it_at_def remaining_def)
  qed
  then show "e = None" "it_at t (si_snapshot it) ?bs it'" "cache_ok (fst ` set ts) w c'"
    "remaining ?bs it' = concat (drop ?i ?bs)"
    by blast+
qed

lemma advance_table:
  assumes "tables_hold w ts" "(t, es) \<in> set ts" "cache_ok (fst ` set ts) w c"
    and "it_at t s (chunk [] es) it" "si_valid it" "advance it c w = ((b, it'), c')"
  shows "it_at t s (chunk [] es) it'" "cache_ok (fst ` set ts) w c'" "b = si_valid it'"
    "remaining (chunk [] es) it' = tl (remaining (chunk [] es) it)"
proof -
  let ?bs = "chunk [] es" and ?it = "it\<lparr>si_pos := si_pos it + 1, si_blockIdx := si_blockIdx it + 1\<rparr>"
  have at: "si_sst it = t" "si_snapshot it = s" "si_blockIdx it < length ?bs" "si_entries it = ?bs ! si_blockIdx it"
    "si_pos it < length (si_entries it)"
    using assms(4,5) unfolding it_at_def by blast+
  have rem: "tl (remaining ?bs it) = drop (Suc (si_pos it)) (si_entries it) @ concat (drop (Suc (si_blockIdx it)) ?bs)"
    using at(5) assms(5) by (simp add: remaining_def Cons_nth_drop_Suc [symmetric])
  have "it_at t s ?bs it' \<and> cache_ok (fst ` set ts) w c' \<and> b = si_valid it' \<and> remaining ?bs it' = tl (remaining ?bs it)"
  proof (cases "Suc (si_pos it) < length (si_entries it)")
    case True
    then have "b" "it' = it\<lparr>si_pos := si_pos it + 1\<rparr>" "c' = c"
      using assms(6) by (auto simp: advance_def Let_def)
    then show ?thesis
      using assms(3-5) True at rem by (simp add: it_at_def remaining_def)
  next
    case False
    obtain e it2 c2 where lb: "loadBlock ?it c w = ((e, it2), c2)"
      by (metis surj_pair)
    note L = loadBlock_table [OF assms(1-3) _ lb]
    have "b = si_valid it2" "c' = c2" "it' = it2"
      using assms(6) False lb L(1) at by (auto simp: advance_def Let_def split: if_splits)
    then show ?thesis
      using L(2-4) at False rem by simp
  qed
  then show "it_at t s ?bs it'" "cache_ok (fst ` set ts) w c'" "b = si_valid it'"
    "remaining ?bs it' = tl (remaining ?bs it)"
    by blast+
qed

lemma scan_until_table:
  assumes "tables_hold w ts" "(t, es) \<in> set ts" "cache_ok (fst ` set ts) w c"
    and "it_at t s (chunk [] es) it" "scan_until P it c w = (it', c')"
  shows "it_at t s (chunk [] es) it' \<and> cache_ok (fst ` set ts) w c' \<and>
    remaining (chunk [] es) it' = dropWhile (\<lambda>e. \<not> P e) (remaining (chunk [] es) it)"
  using assms
proof (induction P it c w rule: scan_until.induct)
  case (1 P it c w)
  let ?bs = "chunk [] es"
  note valid = remaining_valid [OF 1(5)]
  show ?case
  proof (cases "si_valid it \<and> \<not> P (si_entries it ! si_pos it)")
    case False
    then have "it' = it" "c' = c"
      using 1(6) unfolding scan_until.simps [of P it] if_not_P [OF False] by simp_all
    moreover have "dropWhile (\<lambda>e. \<not> P e) (remaining ?bs it) = remaining ?bs it"
      using False valid by (cases "remaining ?bs it") auto
    ultimately show ?thesis
      using 1(4,5) by simp
  next
    case True
    obtain b it2 c2 where ad: "advance it c w = ((b, it2), c2)"
      by (metis surj_pair)
    note A = advance_table [OF 1(2,3,4,5) conjunct1 [OF True] ad]
    have dw: "dropWhile (\<lambda>e. \<not> P e) (remaining ?bs it) = dropWhile (\<lambda>e. \<not> P e) (remaining ?bs it2)"
      using True valid A(4) by (cases "remaining ?bs it") auto
    show ?thesis
    proof (cases b)
      case False
      then have "it' = it2" "c' = c2"
        using 1(6) ad unfolding scan_until.simps [of P it] if_P [OF True] by simp_all
      then show ?thesis
        unfolding dw using A(1-3) False remaining_valid(1) [OF A(1)] by simp
    next
      case b: True
      then have "scan_until P it2 c2 w = (it', c')"
        using 1(6) ad unfolding scan_until.simps [of P it] if_P [OF True] by simp
      from 1(1) [OF True ad [symmetric] refl eqTrueI [OF b] 1(2,3) A(2,1) this] show ?thesis
        unfolding dw .
    qed
  qed
qed

subsection \<open>Seeking\<close>

abbreviation dkey :: "BlockEntry \<Rightarrow> InternalKey" where
  "dkey e \<equiv> DecodeInternalKey (be_Key e)"

lemma sorted_versions_entries: "sorted_versions (versions es) \<Longrightarrow> sorted_wrt (\<lambda>a b. dkey a < dkey b) es"
  by (simp add: sorted_versions_def versions_def entry_version_def comp_def sorted_wrt_map)

lemma sorted_concat_hd:
  assumes "sorted_wrt R (concat bs)" "\<forall>b \<in> set bs. b \<noteq> []"
  shows "sorted_wrt (\<lambda>a b. R (hd a) (hd b)) bs"
  using assms
proof (induction bs)
  case (Cons b bs)
  have "R (hd b) (hd b')" if "b' \<in> set bs" for b'
    using Cons.prems that by (force simp: sorted_wrt_append)
  with Cons show ?case
    by (auto simp: sorted_wrt_append)
qed simp

lemma index_sorted_table:
  assumes "sorted_versions (versions es)"
  shows "index_sorted (index_of (chunk [] es))"
proof -
  let ?bs = "chunk [] es"
  have "sorted_wrt (\<lambda>a b. dkey a < dkey b) (concat ?bs)"
    using sorted_versions_entries [OF assms] by (simp add: concat_chunk)
  then have "sorted_wrt (\<lambda>a b. dkey (hd a) < dkey (hd b)) ?bs"
    using sorted_concat_hd chunk_nonempty by blast
  then have "sorted_wrt (<) (map (\<lambda>b. dkey (hd b)) ?bs)"
    by (simp add: sorted_wrt_map)
  moreover have "map (\<lambda>idx. DecodeInternalKey (FirstKey idx)) (index_of ?bs) = map (\<lambda>b. dkey (hd b)) ?bs"
    by (rule nth_equalityI) (simp_all add: index_of_nth block_index_def)
  ultimately show ?thesis
    by (simp add: index_sorted_def)
qed

lemma seek_block:
  fixes k :: bytes
  assumes "sorted_versions (versions es)"
  defines "r \<equiv> searchIndex (index_of (chunk [] es)) k"
  shows "dropWhile (\<lambda>e. dkey e < DecodeInternalKey k) (concat (drop (if r < 0 then 0 else nat r) (chunk [] es))) =
    dropWhile (\<lambda>e. dkey e < DecodeInternalKey k) es"
proof (cases "r < 0")
  case True
  then show ?thesis by (simp add: concat_chunk)
next
  case False
  let ?bs = "chunk [] es" and ?n = "nat r"
  note S = searchIndex_spec [OF index_sorted_table [OF assms(1)], where key = k, folded r_def]
  have n: "?n < length ?bs"
    using S(2) False by auto
  have le: "dkey (hd (?bs ! ?n)) \<le> DecodeInternalKey k"
    using S(3) [of ?n] n False by (simp add: index_of_nth block_index_def)
  have split: "concat (take ?n ?bs) @ concat (drop ?n ?bs) = es"
    using concat_chunk [of "[]" es] by (simp flip: concat_append)
  have hd: "hd (?bs ! ?n) \<in> set (concat (drop ?n ?bs))"
    using n chunk_nth_nonempty [OF n] by (simp add: Cons_nth_drop_Suc [symmetric])
  have "sorted_wrt (\<lambda>a b. dkey a < dkey b) (concat (take ?n ?bs) @ concat (drop ?n ?bs))"
    using sorted_versions_entries [OF assms(1)] unfolding split .
  then have "dkey e < DecodeInternalKey k" if "e \<in> set (concat (take ?n ?bs))" for e
    using that hd le unfolding sorted_wrt_append by (meson less_le_trans)
  then have "dropWhile (\<lambda>e. dkey e < DecodeInternalKey k) (concat (take ?n ?bs) @ concat (drop ?n ?bs)) =
      dropWhile (\<lambda>e. dkey e < DecodeInternalKey k) (concat (drop ?n ?bs))"
    by (intro dropWhile_append2)
  then show ?thesis
    using False unfolding split by simp
qed

lemma EncodeSearchKeyAt_decode [simp]: "DecodeInternalKey (EncodeSearchKeyAt u s) = MakeSearchKeyAt u s"
  by (simp add: EncodeSearchKeyAt_def)

lemma sst_NewIterator_table:
  assumes "tables_hold w ts" "(t, es) \<in> set ts" "cache_ok (fst ` set ts) w c"
    and "sst_NewIterator t lower s c w = (r, c')"
  shows "\<exists>it. r = Inr it \<and> it_at t s (chunk [] es) it \<and> cache_ok (fst ` set ts) w c' \<and>
    remaining (chunk [] es) it = dropWhile (\<lambda>e. \<not> Visible (dkey e) s) (dropWhile (\<lambda>e. dkey e < MakeSearchKeyAt lower s) es)"
proof -
  let ?bs = "chunk [] es" and ?k = "EncodeSearchKeyAt lower s"
  have holds: "table_holds w t es"
    using assms(1,2) by (auto simp: tables_hold_def list_all_iff)
  then have idx: "sst_index t = index_of ?bs" and sorted: "sorted_versions (versions es)"
    by (simp_all add: table_holds_def)
  let ?f = "searchIndex (index_of ?bs) ?k"
  define it0 where "it0 = \<lparr>si_sst = t, si_snapshot = s, si_blockIdx = (if ?f < 0 then 0 else nat ?f),
    si_entries = [], si_pos = 0, si_valid = False\<rparr>"
  obtain e it1 c1 where lb: "loadBlock it0 c w = ((e, it1), c1)"
    by (metis surj_pair)
  have t0: "si_sst it0 = t" "si_snapshot it0 = s" "si_blockIdx it0 = (if ?f < 0 then 0 else nat ?f)"
    by (simp_all add: it0_def)
  note L = loadBlock_table [OF assms(1-3) t0(1) lb, unfolded t0(2,3)]
  obtain it2 c2 where sc: "scan_until (\<lambda>e. InternalCompare bytes_Compare (dkey e) (MakeSearchKeyAt lower s) \<ge> 0) it1 c1 w = (it2, c2)"
    by (metis surj_pair)
  note S = scan_until_table [OF assms(1,2) L(3,2) sc]
  obtain it3 c3 where sk: "scan_until (\<lambda>e. Visible (dkey e) s) it2 c2 w = (it3, c3)"
    by (metis surj_pair)
  have at2: "it_at t s ?bs it2" "cache_ok (fst ` set ts) w c2"
    using S by blast+
  then have snap: "si_snapshot it2 = s"
    by (simp add: it_at_def)
  note K = scan_until_table [OF assms(1,2) at2(2,1) sk]
  have "remaining ?bs it2 = dropWhile (\<lambda>e. dkey e < MakeSearchKeyAt lower s) es"
    using S seek_block [OF sorted, of ?k] unfolding L(4) by (simp add: order_simps not_le)
  moreover have "sst_NewIterator t lower s c w = (Inr it3, c3)"
    using lb L(1) sc sk snap by (simp add: sst_NewIterator_def Let_def idx it0_def skipInvisible_def)
  ultimately show ?thesis
    using K assms(4) by auto
qed

lemma Lookup_table:
  assumes "tables_hold w ts" "(t, es) \<in> set ts" "cache_ok (fst ` set ts) w c" "s \<le> SeqNumMax"
  shows "\<exists>c'. Lookup t u s c w =
      ((fst (lookup_spec u s (versions es)), snd (lookup_spec u s (versions es)), None), c') \<and>
    cache_ok (fst ` set ts) w c'"
proof -
  have holds: "table_holds w t es"
    using assms(1,2) by (auto simp: tables_hold_def list_all_iff)
  then have bl: "sst_bloom t = Some (bloom_of es)" and sorted: "sorted_versions (versions es)"
    by (simp_all add: table_holds_def)
  show ?thesis
  proof (cases "MightContain u (bloom_of es) = Some False")
    case True
    then have "u \<notin> set (user_keys es)"
      using default_bloom(3) [of u es] by auto
    then have "newest u s (versions es) = None"
      by (auto simp: newest_None_iff versions_def entry_version_def matches_def user_keys_def)
    then show ?thesis
      using True bl assms(3) by (simp add: Lookup_def lookup_spec_def answer_def)
  next
    case False
    then have mc: "MightContain u (bloom_of es) = Some True"
      using bloom.check_ok [OF default_bloom(2) [of es], of u] by (cases "MightContain u (bloom_of es)") auto
    define xs where "xs = dropWhile (\<lambda>e. dkey e < MakeSearchKeyAt u s) es"
    obtain it c' where ni: "sst_NewIterator t u s c w = (Inr it, c')" and at: "it_at t s (chunk [] es) it"
      and ok: "cache_ok (fst ` set ts) w c'"
      and rem: "remaining (chunk [] es) it = dropWhile (\<lambda>e. \<not> Visible (dkey e) s) xs"
      using sst_NewIterator_table [OF assms(1-3)] unfolding xs_def by (metis surj_pair)
    have seek: "newest u s (versions es) = (case map entry_version xs of [] \<Rightarrow> None | kv # _ \<Rightarrow> if UserKey (fst kv) = u then Some kv else None)"
      using seek_lookup [OF sorted assms(4), of u] by (simp add: xs_def versions_def dropWhile_map comp_def entry_version_def)
    have mem: "x \<in> set es" "MakeSearchKeyAt u s \<le> dkey x" if "x \<in> set xs" for x
    proof -
      have "map entry_version xs = filter (\<lambda>kv. MakeSearchKeyAt u s \<le> fst kv) (versions es)"
        using dropWhile_sorted [OF sorted] by (simp add: xs_def versions_def dropWhile_map comp_def entry_version_def)
      moreover have "entry_version x \<in> set (map entry_version xs)"
        using that by auto
      ultimately show "MakeSearchKeyAt u s \<le> dkey x"
        by (auto simp: entry_version_def)
      show "x \<in> set es"
        using that unfolding xs_def by (rule set_dropWhileD)
    qed
    have pos: "u < UserKey (dkey x) \<or> u = UserKey (dkey x) \<and> Visible (dkey x) s" if "x \<in> set xs" for x
    proof -
      have "key_Valid (dkey x)"
        using sorted mem(1) [OF that] by (auto simp: sorted_versions_def versions_def entry_version_def)
      then show ?thesis
        using search_key_le_iff [OF _ assms(4)] mem(2) [OF that] by blast
    qed
    note V = remaining_valid [OF at, unfolded rem]
    show ?thesis
    proof (cases xs)
      case Nil
      then show ?thesis
        using V seek ni ok bl mc by (simp add: Lookup_def lookup_spec_def answer_def)
    next
      case (Cons x r)
      then have xin: "x \<in> set xs"
        by simp
      show ?thesis
      proof (cases "UserKey (dkey x) = u")
        case True
        then have "Visible (dkey x) s"
          using pos [OF xin] by auto
        then have v: "si_valid it" "si_entries it ! si_pos it = x"
          using V Cons by simp_all
        then show ?thesis
          using seek Cons True ni ok bl mc
          by (auto simp: Lookup_def lookup_spec_def answer_def sst_Key_def sst_Value_def entry_version_def Let_def)
      next
        case False
        then have gt: "u < UserKey (dkey x)"
          using pos [OF xin] by auto
        have "UserKey (dkey (si_entries it ! si_pos it)) \<noteq> u" if v: "si_valid it"
        proof -
          have "hd (dropWhile (\<lambda>e. \<not> Visible (dkey e) s) xs) \<in> set xs"
            using v V(1) by (meson hd_in_set set_dropWhileD)
          moreover have "dkey x \<le> dkey y" if "y \<in> set xs" for y
          proof -
            have "sorted_wrt (\<lambda>a b. dkey a < dkey b) (takeWhile (\<lambda>e. dkey e < MakeSearchKeyAt u s) es @ xs)"
              using sorted_versions_entries [OF sorted] by (simp only: takeWhile_dropWhile_id xs_def)
            then show ?thesis
              using that unfolding sorted_wrt_append Cons by auto
          qed
          ultimately show ?thesis
            using V(2) [OF v] gt UserKey_mono by (metis leD)
        qed
        then show ?thesis
          using seek Cons False ni ok bl mc
          by (auto simp: Lookup_def lookup_spec_def answer_def sst_Key_def entry_version_def Let_def)
      qed
    qed
  qed
qed

subsection \<open>The visible entries an iterator yields\<close>

definition sst_stream :: "SeqNum \<Rightarrow> BlockEntry list list \<Rightarrow> sst_Iterator \<Rightarrow> BlockEntry list" where
  "sst_stream s bs it = filter (\<lambda>e. Visible (dkey e) s) (remaining bs it)"

definition it_ready :: "SSTable \<Rightarrow> SeqNum \<Rightarrow> BlockEntry list list \<Rightarrow> sst_Iterator \<Rightarrow> bool" where
  "it_ready t s bs it \<longleftrightarrow> it_at t s bs it \<and> (si_valid it \<longrightarrow> Visible (dkey (si_entries it ! si_pos it)) s)"

lemma it_ready_dropWhile:
  assumes "it_at t s bs it" "remaining bs it = dropWhile (\<lambda>e. \<not> Visible (dkey e) s) es"
  shows "it_ready t s bs it" "sst_stream s bs it = filter (\<lambda>e. Visible (dkey e) s) es"
proof -
  show "it_ready t s bs it"
    using assms remaining_valid [OF assms(1)] hd_dropWhile [of "\<lambda>e. \<not> Visible (dkey e) s" es] by (auto simp: it_ready_def)
  have "filter P (dropWhile (\<lambda>e. \<not> P e) es) = filter P es" for P :: "BlockEntry \<Rightarrow> bool"
    by (induction es) auto
  then show "sst_stream s bs it = filter (\<lambda>e. Visible (dkey e) s) es"
    by (simp add: sst_stream_def assms(2))
qed

lemma sst_stream_valid:
  assumes "it_ready t s bs it"
  shows "si_valid it \<longleftrightarrow> sst_stream s bs it \<noteq> []"
    "si_valid it \<Longrightarrow> sst_stream s bs it =
      (si_entries it ! si_pos it) # filter (\<lambda>e. Visible (dkey e) s) (tl (remaining bs it))"
proof -
  have at: "it_at t s bs it"
    using assms by (simp add: it_ready_def)
  note V = remaining_valid [OF at]
  show stream: "si_valid it \<Longrightarrow> sst_stream s bs it =
      (si_entries it ! si_pos it) # filter (\<lambda>e. Visible (dkey e) s) (tl (remaining bs it))"
    using assms V by (cases "remaining bs it") (auto simp: sst_stream_def it_ready_def)
  show "si_valid it \<longleftrightarrow> sst_stream s bs it \<noteq> []"
    using stream V(1) by (auto simp: sst_stream_def)
qed

lemma sst_Next_table:
  assumes "tables_hold w ts" "(t, es) \<in> set ts" "cache_ok (fst ` set ts) w c"
    and "it_ready t s (chunk [] es) it" "si_valid it" "sst_Next it c w = (it', c')"
  shows "it_ready t s (chunk [] es) it'" "cache_ok (fst ` set ts) w c'"
    "sst_stream s (chunk [] es) it' = tl (sst_stream s (chunk [] es) it)"
proof -
  let ?bs = "chunk [] es"
  have at: "it_at t s ?bs it"
    using assms(4) by (simp add: it_ready_def)
  obtain b it1 c1 where ad: "advance it c w = ((b, it1), c1)"
    by (metis surj_pair)
  note A = advance_table [OF assms(1-3) at assms(5) ad]
  have snap: "si_snapshot it1 = s"
    using A(1) by (simp add: it_at_def)
  have tl: "tl (sst_stream s ?bs it) = filter (\<lambda>e. Visible (dkey e) s) (remaining ?bs it1)"
    using sst_stream_valid(2) [OF assms(4,5)] A(4) by simp
  have "it_ready t s ?bs it' \<and> cache_ok (fst ` set ts) w c' \<and> sst_stream s ?bs it' = tl (sst_stream s ?bs it)"
  proof (cases b)
    case True
    then have "scan_until (\<lambda>e. Visible (dkey e) s) it1 c1 w = (it', c')"
      using assms(6) ad snap by (simp add: sst_Next_def skipInvisible_def)
    note S = scan_until_table [OF assms(1,2) A(2,1) this]
    show ?thesis
      using S it_ready_dropWhile [of t s ?bs it' "remaining ?bs it1"] unfolding tl by blast
  next
    case False
    then have "it' = it1" "c' = c1" "\<not> si_valid it1"
      using assms(6) ad A(3) by (simp_all add: sst_Next_def)
    then show ?thesis
      using A(1,2) remaining_valid(1) [OF A(1)] unfolding tl by (simp add: it_ready_def sst_stream_def)
  qed
  then show "it_ready t s ?bs it'" "cache_ok (fst ` set ts) w c'"
    "sst_stream s ?bs it' = tl (sst_stream s ?bs it)"
    by blast+
qed

section \<open>When a table fits its format\<close>

lemma length_blocks_bytes: "length (blocks_bytes bs) = 8 * length bs + sum_list (map entry_size (concat bs))"
  by (induction bs) (simp_all add: blocks_bytes_def length_encodeBlock)

lemma length_index_of_bytes:
  assumes "\<forall>b \<in> set bs. b \<noteq> []"
  shows "length (concat (map index_bytes (index_of bs))) \<le> 16 * length bs + sum_list (map entry_size (concat bs))"
proof -
  have len: "map length (map index_bytes (index_of bs)) = map (\<lambda>b. 16 + length (be_Key (hd b))) bs"
    by (rule nth_equalityI) (simp_all add: index_of_nth block_index_def index_bytes_def)
  have "sum_list (map (\<lambda>b. 16 + length (be_Key (hd b))) bs) \<le> 16 * length bs + sum_list (map entry_size (concat bs))"
    using assms
  proof (induction bs)
    case (Cons b bs)
    then obtain e r where "b = e # r"
      by (cases b) auto
    with Cons show ?case by (simp add: entry_size_def)
  qed simp
  then show ?thesis
    by (simp add: length_concat len [unfolded map_map])
qed

lemma table_fits_limits:
  assumes "list_all (\<lambda>e. entry_size e < 2 ^ 28) es" "length es < 2 ^ 30"
  shows "table_fits es"
proof -
  let ?bs = "chunk [] es" and ?sz = "sum_list (map entry_size es)"
  have sz: "?sz \<le> length es * 2 ^ 28"
    using assms(1) by (induction es) auto
  also have "\<dots> \<le> 2 ^ 30 * 2 ^ 28"
    using assms(2) by (intro mult_right_mono) auto
  finally have sz: "?sz \<le> 2 ^ 58"
    by simp
  have n: "length ?bs < 2 ^ 30"
    using chunk_count [of es] assms(2) by linarith
  have "length (concat (map index_bytes (index_of ?bs))) \<le> 16 * length ?bs + ?sz"
    using length_index_of_bytes [of ?bs] chunk_nonempty concat_chunk [of "[]" es] by simp
  moreover have "length (blocks_bytes ?bs) = 8 * length ?bs + ?sz"
    by (simp add: length_blocks_bytes concat_chunk)
  ultimately have "length (table_bytes es) < 2 ^ 62"
    using length_Serialize_bloom [of es] sz n by (simp add: table_bytes_def Let_def)
  then show ?thesis
    using assms by (auto simp: table_fits_def list_all_iff)
qed

lemma read_blocks_full: "table_fits es \<Longrightarrow> read_blocks (table_bytes es) (index_of (chunk [] es)) [] = Inr es"
  using read_blocks_table [of es 0 "[]"] by (simp add: concat_chunk)

lemma table_holds_complete:
  assumes "fs_get w path = Some (complete_file es)" "table_fits es" "sorted_versions (versions es)"
  shows "table_holds w (table_of path es) es" "table_holds w (SetCache (table_of path es)) es"
  using assms by (simp_all add: table_holds_def complete_file_def table_of_def SetCache_def)

lemma cache_ok_New: "0 < n \<Longrightarrow> n < 2 ^ 32 \<Longrightarrow> cache_ok T w (NewShardedLRU n cap)"
  by (simp add: cache_ok_def sharded.coherent_def sharded_inv_New)

text \<open>A client loop over an iterator: the first \<open>n\<close> entries it yields.\<close>

fun sst_collect :: "nat \<Rightarrow> sst_Iterator \<Rightarrow> block_cache \<Rightarrow> world \<Rightarrow> version list" where
  "sst_collect 0 it c w = []"
| "sst_collect (Suc n) it c w =
     (if si_valid it
      then (DecodeInternalKey (sst_Key it), sst_Value it) # (case sst_Next it c w of (it', c') \<Rightarrow> sst_collect n it' c' w)
      else [])"

lemma sst_collect_stream:
  assumes "tables_hold w ts" "(t, es) \<in> set ts" "cache_ok (fst ` set ts) w c" "it_ready t s (chunk [] es) it"
  shows "sst_collect n it c w = take n (versions (sst_stream s (chunk [] es) it))"
  using assms(3,4)
proof (induction n arbitrary: it c)
  case (Suc n)
  note V = sst_stream_valid [OF Suc.prems(2)]
  obtain it' c' where nx: "sst_Next it c w = (it', c')"
    by (metis surj_pair)
  show ?case
  proof (cases "si_valid it")
    case True
    note N = sst_Next_table [OF assms(1,2) Suc.prems True nx]
    show ?thesis
      using True nx Suc.IH [OF N(2,1)] N(3) V(2) [OF True]
      by (simp add: versions_def entry_version_def sst_Key_def sst_Value_def)
  next
    case False
    then show ?thesis
      using V(1) by (simp add: versions_def)
  qed
qed simp

section \<open>Properties\<close>

text \<open>C31: What was written is read back. When the writer has succeeded, opening the file gives the very
  table the writer returned (index and filter included), and reading all its blocks gives the
  entries that were written, in order.\<close>

theorem table_roundtrip:
  assumes "fs_get w (path @ lit ''.tmp'') = None" "WriteSSTableFromBlockEntries path es w = (Inr t, w')"
    and "list_all (\<lambda>e. entry_size e < 2 ^ 28) es" "length es < 2 ^ 30"
  shows "sst_Open path w' = Inr t \<and> NewBlockIterator t w' = Inr es"
proof -
  have w: "t = table_of path es" "fs_get w' path = Some (complete_file es)"
    using WriteSSTable_installs [OF assms(1), of es] unfolding assms(2) by (simp_all add: installs_def)
  note fits = table_fits_limits [OF assms(3,4)]
  show ?thesis
    using sst_Open_table [OF w(2) _ fits] read_blocks_full [OF fits] w
    by (simp add: complete_file_def NewBlockIterator_def os_ReadFile_def table_of_def)
qed

theorem table_roundtrip_witness:
  "\<exists>t. WriteSSTableFromBlockEntries [47] [BlockEntry [1] [2]] (world_of []) =
      (Inr t, snd (WriteSSTableFromBlockEntries [47] [BlockEntry [1] [2]] (world_of []))) \<and>
    sst_Open [47] (snd (WriteSSTableFromBlockEntries [47] [BlockEntry [1] [2]] (world_of []))) = Inr t"
proof -
  have tmp: "fs_get (world_of []) ([47] @ lit ''.tmp'') = None"
    by (simp add: fs_get_def world_of_def)
  obtain t w' where run: "WriteSSTableFromBlockEntries [47] [BlockEntry [1] [2]] (world_of []) = (Inr t, w')"
    using WriteSSTable_installs [OF tmp, of "[BlockEntry [1] [2]]"]
    by (auto simp: installs_def world_of_def split: prod.splits)
  show ?thesis
    using table_roundtrip [OF tmp run] unfolding run by (simp add: entry_size_def)
qed

text \<open>C32: A point lookup in a table is exact. For a table among those in use, with any contents of the
  shared cache that agree with the files, \<^verbatim>\<open>Lookup\<close> returns without error the newest version of the key
  visible at the snapshot, whichever block it is in and whether or not the filter lets the search
  through, and leaves the cache in agreement with the files.\<close>

theorem table_lookup_newest_visible:
  assumes "tables_hold w ts" "(t, es) \<in> set ts" "cache_ok (fst ` set ts) w c" "snapshot \<le> SeqNumMax"
  shows "fst (Lookup t u snapshot c w) =
      (fst (lookup_spec u snapshot (versions es)), snd (lookup_spec u snapshot (versions es)), None) \<and>
    cache_ok (fst ` set ts) w (snd (Lookup t u snapshot c w))"
  using Lookup_table [OF assms, of u] by auto

theorem table_lookup_newest_visible_witness:
  "fst (Lookup (SetCache (table_of [47] [BlockEntry (encode_key (MakeInternalKey [7] 3 InternalKeyKindSet)) [1]])) [7] 4
      (NewShardedLRU 16 16)
      (world_of [([47], complete_file [BlockEntry (encode_key (MakeInternalKey [7] 3 InternalKeyKindSet)) [1]])])) =
    ([1], KEY_FOUND, None)"
proof -
  let ?k = "MakeInternalKey [7] 3 InternalKeyKindSet"
  let ?es = "[BlockEntry (encode_key ?k) [1]]" and ?t = "SetCache (table_of [47] [BlockEntry (encode_key ?k) [1]])"
  let ?w = "world_of [([47], complete_file ?es)]"
  have fits: "table_fits ?es"
    by (rule table_fits_limits) (simp_all add: entry_size_def)
  have spec: "lookup_spec [7] 4 (versions ?es) = ([1], KEY_FOUND)"
    by (simp add: lookup_spec_def newest_def answer_def matches_def Visible_def versions_def entry_version_def
        SeqNumMax_eq InternalKeyKindSet_def InternalKeyKindDelete_def)
  have th: "tables_hold ?w [(?t, ?es)]"
    using fits table_holds_complete(2) [of ?w "[47]" ?es]
    by (simp add: tables_hold_def fs_get_def world_of_def sorted_versions_def versions_def entry_version_def
        key_Valid_def InternalKeyKindSet_def InternalKeyKindMax_def)
  show ?thesis
    using table_lookup_newest_visible [OF th, of ?t ?es "NewShardedLRU 16 16" 4 "[7]"] spec
    by (simp add: cache_ok_New SeqNumMax_eq)
qed

text \<open>C36: A table scan is exact. An iterator opened at a lower bound and a snapshot yields, in key order and
  across block boundaries, exactly the versions at or above the bound that the snapshot sees, and
  then becomes invalid.\<close>

theorem table_scan_exact:
  assumes "tables_hold w ts" "(t, es) \<in> set ts" "cache_ok (fst ` set ts) w c" "snapshot \<le> SeqNumMax"
  shows "\<exists>it c'. sst_NewIterator t lower snapshot c w = (Inr it, c') \<and>
    sst_collect n it c' w = take n (filter (in_range lower None snapshot) (versions es))"
proof -
  obtain it c' where ni: "sst_NewIterator t lower snapshot c w = (Inr it, c')"
    and I: "it_at t snapshot (chunk [] es) it" "cache_ok (fst ` set ts) w c'"
      "remaining (chunk [] es) it = dropWhile (\<lambda>e. \<not> Visible (dkey e) snapshot)
        (dropWhile (\<lambda>e. dkey e < MakeSearchKeyAt lower snapshot) es)"
    using sst_NewIterator_table [OF assms(1-3)] by (metis surj_pair)
  have sorted: "sorted_versions (versions es)"
    using assms(1,2) by (auto simp: tables_hold_def list_all_iff table_holds_def)
  note R = it_ready_dropWhile [OF I(1,3)]
  have "versions (sst_stream snapshot (chunk [] es) it) = filter (in_range lower None snapshot) (versions es)"
    using seek_range [OF sorted assms(4), where upper = None and lower = lower] unfolding R(2)
    by (simp add: versions_def filter_map dropWhile_map comp_def entry_version_def below_def takeWhile_eq_all_conv [THEN iffD2])
  then show ?thesis
    using ni sst_collect_stream [OF assms(1,2) I(2) R(1)] by auto
qed

theorem table_scan_exact_witness:
  "\<exists>it c'. sst_NewIterator (table_of [47] [BlockEntry (encode_key (MakeInternalKey [7] 3 InternalKeyKindSet)) [1]]) [] 4
      (NewShardedLRU 16 16)
      (world_of [([47], complete_file [BlockEntry (encode_key (MakeInternalKey [7] 3 InternalKeyKindSet)) [1]])]) = (Inr it, c') \<and>
    sst_collect 5 it c' (world_of [([47], complete_file [BlockEntry (encode_key (MakeInternalKey [7] 3 InternalKeyKindSet)) [1]])]) =
      [(MakeInternalKey [7] 3 InternalKeyKindSet, [1])]"
proof -
  let ?k = "MakeInternalKey [7] 3 InternalKeyKindSet"
  let ?es = "[BlockEntry (encode_key ?k) [1]]" and ?t = "table_of [47] [BlockEntry (encode_key ?k) [1]]"
  let ?w = "world_of [([47], complete_file ?es)]"
  have fits: "table_fits ?es"
    by (rule table_fits_limits) (simp_all add: entry_size_def)
  have rng: "filter (in_range [] None 4) (versions ?es) = [(?k, [1])]"
    by (simp add: in_range_def below_def versions_def entry_version_def Visible_def SeqNumMax_eq)
  have th: "tables_hold ?w [(?t, ?es)]"
    using fits table_holds_complete(1) [of ?w "[47]" ?es]
    by (simp add: tables_hold_def fs_get_def world_of_def sorted_versions_def versions_def entry_version_def
        key_Valid_def InternalKeyKindSet_def InternalKeyKindMax_def)
  show ?thesis
    using table_scan_exact [OF th, of ?t ?es "NewShardedLRU 16 16" 4 "[]" 5] rng
    by (simp add: cache_ok_New SeqNumMax_eq)
qed

end
