(* ===== verification/Compaction.thy ===== *)
theory Compaction
  imports Sstable_Reader "HOL-Library.Multiset" "HOL-Library.Sublist"
begin

text \<open>
  Model of the package \<^verbatim>\<open>compaction\<close> and of \<^verbatim>\<open>sstable/sort_entries.go\<close>: grouping tables by size, merging a
  group, and replacing the merged tables. Tables are listed newest first. The grouping loops are
  shown equal to a recursive specification, the merge is shown to keep every answer a snapshot at or
  above the floor can get, and compaction as a whole to keep the answers when each group is a run of
  adjacent tables.
\<close>

section \<open>Definitions\<close>

definition SortEntries :: "BlockEntry list \<Rightarrow> BlockEntry list" where
  "SortEntries entries = sort_key (\<lambda>e. DecodeInternalKey (be_Key e)) entries"

subsection \<open>Grouping\<close>

definition isSimilarSize :: "int \<Rightarrow> int \<Rightarrow> bool" where
  "isSimilarSize a b =
     (if a = 0 \<or> b = 0 then False
      else case (if a < b then (b, a) else (a, b)) of (a, b) \<Rightarrow> a div b \<le> int DEFAULT_SIMILAR_SIZE_RATIO)"

definition table_size :: "SSTable \<Rightarrow> world \<Rightarrow> int" where
  "table_size sst w = (case fs_get w (FilePath sst) of None \<Rightarrow> 0 | Some f \<Rightarrow> int (length (fdata f)))"

fun group_inner ::
  "SSTable list \<Rightarrow> int list \<Rightarrow> nat \<Rightarrow> nat list \<Rightarrow> SSTable list \<times> bool list \<Rightarrow> SSTable list \<times> bool list" where
  "group_inner tables sizes i [] s = s"
| "group_inner tables sizes i (j # js) (grp, used) =
     group_inner tables sizes i js
       (if used ! j then (grp, used)
        else if isSimilarSize (sizes ! i) (sizes ! j) then (grp @ [tables ! j], used[j := True])
        else (grp, used))"

fun group_outer ::
  "SSTable list \<Rightarrow> int list \<Rightarrow> nat list \<Rightarrow> SSTable list list \<times> bool list \<Rightarrow> SSTable list list \<times> bool list" where
  "group_outer tables sizes [] s = s"
| "group_outer tables sizes (i # is) (groups, used) =
     group_outer tables sizes is
       (if used ! i then (groups, used)
        else (case group_inner tables sizes i [i + 1..<length tables] ([tables ! i], used[i := True]) of
                (grp, used') \<Rightarrow> (groups @ [grp], used')))"

definition groupBySimilarSize :: "SSTable list \<Rightarrow> world \<Rightarrow> SSTable list list" where
  "groupBySimilarSize tables w =
     (let sizes = map (\<lambda>sst. table_size sst w) tables
      in fst (group_outer tables sizes [0..<length tables] ([], replicate (length tables) False)))"

subsection \<open>Merging\<close>

definition merge_step ::
  "SeqNum \<Rightarrow> BlockEntry \<Rightarrow> (bytes \<Rightarrow> bool) \<times> BlockEntry list \<Rightarrow> (bytes \<Rightarrow> bool) \<times> BlockEntry list" where
  "merge_step flr entry s =
     (case s of (keptAtOrBelowFloor, result) \<Rightarrow>
        (let ik = DecodeInternalKey (be_Key entry);
             key = UserKey ik
         in if keptAtOrBelowFloor key then (keptAtOrBelowFloor, result)
            else (if key_SeqNum ik \<le> flr then keptAtOrBelowFloor(key := True) else keptAtOrBelowFloor,
                  result @ [entry])))"

definition mergeIterators :: "BlockEntry list list \<Rightarrow> SeqNum \<Rightarrow> BlockEntry list" where
  "mergeIterators iterators flr =
     SortEntries (snd (fold (\<lambda>entries. fold (merge_step flr) entries) iterators ((\<lambda>_. False), [])))"

fun read_iterators :: "SSTable list \<Rightarrow> BlockEntry list list \<Rightarrow> world \<Rightarrow> go_error + BlockEntry list list" where
  "read_iterators [] its w = Inr its"
| "read_iterators (sst # tables) its w =
     (case NewBlockIterator sst w of Inl e \<Rightarrow> Inl e | Inr it \<Rightarrow> read_iterators tables (its @ [it]) w)"

definition mergeGroup :: "SSTable list \<Rightarrow> gostring \<Rightarrow> SeqNum \<Rightarrow> SSTable io" where
  "mergeGroup tables dirPath flr w =
     (case read_iterators tables [] w of
        Inl e \<Rightarrow> (Inl e, w)
      | Inr iterators \<Rightarrow>
          (let merged = mergeIterators iterators flr
           in case time_Now w of (now, w1) \<Rightarrow> WriteSSTableFromBlockEntries (sst_path dirPath now) merged w1))"

subsection \<open>Compact\<close>

fun compact_groups ::
  "gostring \<Rightarrow> SeqNum \<Rightarrow> SSTable list list \<Rightarrow> SSTable list \<Rightarrow> (gostring \<Rightarrow> bool) \<Rightarrow> (SSTable list \<times> (gostring \<Rightarrow> bool)) io" where
  "compact_groups dirPath flr [] result compacted w = (Inr (result, compacted), w)"
| "compact_groups dirPath flr (grp # groups) result compacted w =
     (if length grp < 2 then compact_groups dirPath flr groups (result @ grp) compacted w
      else (case mergeGroup grp dirPath flr w of
              (Inl e, w1) \<Rightarrow> (Inl e, w1)
            | (Inr merged, w1) \<Rightarrow>
                compact_groups dirPath flr groups (result @ [merged])
                  (fold (\<lambda>sst m. m(FilePath sst := True)) grp compacted) w1))"

text \<open>The error wraps the one of \<^verbatim>\<open>os.Remove\<close>, whose text is left out.\<close>

fun remove_compacted :: "SSTable list \<Rightarrow> (gostring \<Rightarrow> bool) \<Rightarrow> unit io" where
  "remove_compacted [] compacted w = (Inr (), w)"
| "remove_compacted (sst # tables) compacted w =
     (if compacted (FilePath sst)
      then (case os_Remove (FilePath sst) w of
              (Inl e, w1) \<Rightarrow> (Inl (ErrMsg (lit ''failed to delete old SSTable '' @ FilePath sst)), w1)
            | (Inr _, w1) \<Rightarrow> remove_compacted tables compacted w1)
      else remove_compacted tables compacted w)"

definition Compact :: "SSTable list \<Rightarrow> gostring \<Rightarrow> SeqNum \<Rightarrow> SSTable list io" where
  "Compact tables dirPath flr w =
     (if length tables < DEFAULT_COMPACTION_THRESHOLD then (Inr tables, w)
      else
        (let groups = groupBySimilarSize tables w
         in case compact_groups dirPath flr groups [] (\<lambda>_. False) w of
              (Inl e, w1) \<Rightarrow> (Inl e, w1)
            | (Inr (result, compacted), w1) \<Rightarrow>
                (case remove_compacted tables compacted w1 of
                   (Inl e, w2) \<Rightarrow> (Inl e, w2)
                 | (Inr _, w2) \<Rightarrow> (Inr result, w2))))"

subsection \<open>Specifications\<close>

fun group_spec :: "('a \<Rightarrow> 'a \<Rightarrow> bool) \<Rightarrow> 'a list \<Rightarrow> 'a list list" where
  "group_spec sim [] = []"
| "group_spec sim (x # xs) = (x # filter (sim x) xs) # group_spec sim (filter (\<lambda>y. \<not> sim x y) xs)"

text \<open>The tables' entries, newest table first: for every user key each table's versions are newer than
  those of the tables after it.\<close>

definition newer :: "BlockEntry \<Rightarrow> BlockEntry \<Rightarrow> bool" where
  "newer a b \<longleftrightarrow> (UserKey (dkey a) = UserKey (dkey b) \<longrightarrow> dkey a < dkey b)"

definition newest_first :: "BlockEntry list list \<Rightarrow> bool" where
  "newest_first ess \<longleftrightarrow> sorted_wrt newer (concat ess)"

text \<open>Reading table after table, the first that knows the key answers.\<close>

fun level_lookup :: "bytes \<Rightarrow> SeqNum \<Rightarrow> version list list \<Rightarrow> bytes \<times> KEY_LOOKUP_ENUM" where
  "level_lookup u s [] = ([], KEY_ABSENT)"
| "level_lookup u s (vs # vss) =
     (if snd (lookup_spec u s vs) = KEY_ABSENT then level_lookup u s vss else lookup_spec u s vs)"

section \<open>Grouping equals its specification\<close>

lemma group_spec_map: "group_spec sim (map f xs) = map (map f) (group_spec (\<lambda>a b. sim (f a) (f b)) xs)"
  by (induction "\<lambda>a b. sim (f a) (f b)" xs rule: group_spec.induct) (simp_all add: filter_map comp_def)

lemma group_inner_eq:
  assumes "distinct js" "\<forall>j \<in> set js. j < length used"
  shows "group_inner tables sizes i js (g, used) =
    (g @ map ((!) tables) (filter (\<lambda>j. \<not> used ! j \<and> isSimilarSize (sizes ! i) (sizes ! j)) js),
     map (\<lambda>k. used ! k \<or> (k \<in> set js \<and> isSimilarSize (sizes ! i) (sizes ! k))) [0..<length used])"
  using assms
proof (induction js arbitrary: g used)
  case Nil
  show ?case by (simp add: map_nth)
next
  case (Cons j js)
  let ?sim = "isSimilarSize (sizes ! i)"
  show ?case
  proof (cases "\<not> used ! j \<and> ?sim (sizes ! j)")
    case False
    then show ?thesis
      using Cons by (auto intro!: nth_equalityI)
  next
    case True
    let ?used = "used[j := True]"
    have "filter (\<lambda>k. \<not> ?used ! k \<and> ?sim (sizes ! k)) js = filter (\<lambda>k. \<not> used ! k \<and> ?sim (sizes ! k)) js"
    proof (rule filter_cong [OF refl])
      fix k
      assume "k \<in> set js"
      then have "j \<noteq> k"
        using Cons.prems(1) by auto
      then show "(\<not> ?used ! k \<and> ?sim (sizes ! k)) = (\<not> used ! k \<and> ?sim (sizes ! k))"
        by simp
    qed
    then show ?thesis
      using Cons.IH [of ?used] Cons.prems True by (auto intro!: nth_equalityI simp: nth_list_update)
  qed
qed

lemma group_outer_eq:
  assumes "length used = length tables" "i \<le> length tables"
  shows "fst (group_outer tables sizes [i..<length tables] (groups, used)) =
    groups @ map (map ((!) tables))
      (group_spec (\<lambda>i j. isSimilarSize (sizes ! i) (sizes ! j)) (filter (\<lambda>k. \<not> used ! k) [i..<length tables]))"
  using assms
proof (induction "length tables - i" arbitrary: i groups used)
  case 0
  then show ?case by simp
next
  case (Suc m)
  let ?n = "length tables" and ?sim = "\<lambda>i j. isSimilarSize (sizes ! i) (sizes ! j)"
  have i: "i < ?n" "m = ?n - Suc i" "Suc i \<le> ?n"
    using Suc.hyps(2) by auto
  have upt: "[i..<?n] = i # [Suc i..<?n]"
    using i(1) by (simp add: upt_conv_Cons)
  show ?case
  proof (cases "used ! i")
    case True
    then show ?thesis
      using Suc.hyps(1) [OF i(2) Suc.prems(1) i(3)] by (simp add: upt)
  next
    case False
    let ?used = "used[i := True]"
    define used' where "used' = map (\<lambda>k. ?used ! k \<or> (k \<in> set [Suc i..<?n] \<and> ?sim i k)) [0..<length ?used]"
    have same: "filter (\<lambda>k. \<not> ?used ! k \<and> ?sim i k) [Suc i..<?n] = filter (?sim i) (filter (\<lambda>k. \<not> used ! k) [Suc i..<?n])"
      unfolding filter_filter by (intro filter_cong) (auto simp: nth_list_update)
    have inner: "group_inner tables sizes i [i + 1..<?n] ([tables ! i], ?used) =
        ([tables ! i] @ map ((!) tables) (filter (?sim i) (filter (\<lambda>k. \<not> used ! k) [Suc i..<?n])), used')"
      using group_inner_eq [of "[Suc i..<?n]" ?used tables sizes i "[tables ! i]"] Suc.prems(1)
      unfolding same used'_def by simp
    have rest: "filter (\<lambda>k. \<not> used' ! k) [Suc i..<?n] =
        filter (\<lambda>k. \<not> ?sim i k) (filter (\<lambda>k. \<not> used ! k) [Suc i..<?n])"
      unfolding filter_filter using Suc.prems(1) by (intro filter_cong) (auto simp: used'_def nth_list_update)
    have "length used' = ?n"
      using Suc.prems(1) by (simp add: used'_def)
    from Suc.hyps(1) [OF i(2) this i(3)] show ?thesis
      using False inner by (simp add: upt rest)
  qed
qed

lemma groupBySimilarSize_eq:
  "groupBySimilarSize tables w = group_spec (\<lambda>a b. isSimilarSize (table_size a w) (table_size b w)) tables"
proof -
  let ?sizes = "map (\<lambda>sst. table_size sst w) tables" and ?n = "length tables"
  have all: "filter (\<lambda>k. \<not> replicate ?n False ! k) [0..<?n] = [0..<?n]"
    by (auto simp: filter_id_conv)
  have cong: "group_spec s xs = group_spec s' xs"
    if "\<And>a b. a \<in> set xs \<Longrightarrow> b \<in> set xs \<Longrightarrow> s a b = s' a b" for s s' and xs :: "nat list"
    using that
  proof (induction s xs rule: group_spec.induct)
    case (2 sim x xs)
    have "filter (sim x) xs = filter (s' x) xs" "filter (\<lambda>y. \<not> sim x y) xs = filter (\<lambda>y. \<not> s' x y) xs"
      using 2(2) by (auto intro!: filter_cong)
    with 2 show ?case by simp
  qed simp
  have "groupBySimilarSize tables w =
      map (map ((!) tables)) (group_spec (\<lambda>i j. isSimilarSize (?sizes ! i) (?sizes ! j)) [0..<?n])"
    using group_outer_eq [of "replicate ?n False" tables 0 ?sizes "[]"] by (simp add: groupBySimilarSize_def Let_def all)
  also have "\<dots> = map (map ((!) tables))
      (group_spec (\<lambda>i j. isSimilarSize (table_size (tables ! i) w) (table_size (tables ! j) w)) [0..<?n])"
    by (rule arg_cong [where f = "map (map ((!) tables))"], rule cong) simp
  also have "\<dots> = group_spec (\<lambda>a b. isSimilarSize (table_size a w) (table_size b w)) (map ((!) tables) [0..<?n])"
    by (simp add: group_spec_map)
  finally show ?thesis
    by (simp add: map_nth)
qed

lemma group_spec_nonempty: "g \<in> set (group_spec sim xs) \<Longrightarrow> g \<noteq> []"
  by (induction sim xs rule: group_spec.induct) auto

lemma group_spec_mset: "mset (concat (group_spec sim xs)) = mset xs"
proof (induction sim xs rule: group_spec.induct)
  case (2 sim x xs)
  then show ?case
    using multiset_partition [of "mset xs" "sim x"] by (simp add: mset_filter)
qed simp

lemma group_spec_set: "\<Union> (set ` set (group_spec sim xs)) = set xs"
  using arg_cong [OF group_spec_mset [of sim xs], of set_mset] by simp

section \<open>Merging keeps what snapshots can see\<close>

subsection \<open>The newest version of a concatenation\<close>

lemma newest_skip: "\<not> matches u s v \<Longrightarrow> newest u s (v # vs) = newest u s vs"
  by (simp add: newest_def)

lemma newest_head:
  assumes "matches u s v" "\<And>x. x \<in> set vs \<Longrightarrow> matches u s x \<Longrightarrow> fst v < fst x"
  shows "newest u s (v # vs) = Some v"
proof -
  have "foldl (\<lambda>a b. if fst b < fst a then b else a) v xs = v" if "\<forall>x \<in> set xs. fst v < fst x" for xs :: "version list"
    using that by (induction xs) (auto dest: less_asym)
  from this [of "filter (matches u s) vs"] show ?thesis
    using assms by (simp add: newest_def)
qed

lemma versions_append [simp]: "versions (xs @ ys) = versions xs @ versions ys"
  by (simp add: versions_def)

lemma versions_Cons [simp]: "versions (e # es) = entry_version e # versions es"
  by (simp add: versions_def)

lemma versions_Nil [simp]: "versions [] = []"
  by (simp add: versions_def)

lemma set_versions: "set (versions es) = entry_version ` set es"
  by (simp add: versions_def)

lemma matches_entry: "matches u s (entry_version e) \<longleftrightarrow> UserKey (dkey e) = u \<and> Visible (dkey e) s"
  by (simp add: matches_def entry_version_def)

lemma newest_newer_head:
  assumes "sorted_wrt newer (e # es)" "matches u s (entry_version e)" "set xs \<subseteq> set es"
  shows "newest u s (versions (e # xs)) = Some (entry_version e)"
  unfolding versions_Cons
proof (rule newest_head [OF assms(2)])
  fix x
  assume "x \<in> set (versions xs)" "matches u s x"
  then obtain y where y: "x = entry_version y" "y \<in> set es" "matches u s (entry_version y)"
    using assms(3) by (auto simp: set_versions)
  then have "UserKey (dkey e) = UserKey (dkey y)" "newer e y"
    using assms(1,2) by (auto simp: matches_entry)
  then show "fst (entry_version e) < fst x"
    by (simp add: newer_def y(1) entry_version_def)
qed

lemma newest_append:
  assumes "sorted_wrt newer (xs @ ys)"
  shows "newest u s (versions (xs @ ys)) =
    (case newest u s (versions xs) of None \<Rightarrow> newest u s (versions ys) | Some v \<Rightarrow> Some v)"
  using assms
proof (induction xs)
  case Nil
  show ?case by (simp add: newest_def)
next
  case (Cons e xs)
  show ?case
  proof (cases "matches u s (entry_version e)")
    case True
    have "sorted_wrt newer (e # xs)"
      using Cons.prems by (simp add: sorted_wrt_append)
    then show ?thesis
      using newest_newer_head [OF Cons.prems [unfolded append_Cons] True, of "xs @ ys"] newest_newer_head [of e xs u s xs] True
      by simp
  next
    case False
    then show ?thesis
      using Cons by (simp add: newest_skip)
  qed
qed

lemma newer_distinct:
  assumes "sorted_wrt newer es"
  shows "distinct (map dkey es)"
  using assms by (induction es) (auto simp: newer_def)

lemma newer_fun:
  assumes "sorted_wrt newer es" "x \<in> set (versions es)" "y \<in> set (versions es)" "fst x = fst y"
  shows "x = y"
proof -
  obtain a b where ab: "a \<in> set es" "b \<in> set es" "x = entry_version a" "y = entry_version b"
    using assms(2,3) by (auto simp: set_versions)
  moreover have "inj_on dkey (set es)"
    using newer_distinct [OF assms(1)] by (simp add: distinct_map)
  ultimately have "a = b"
    using assms(4) by (auto simp: entry_version_def dest: inj_onD)
  then show ?thesis by (simp add: ab)
qed

lemma newest_first_Cons:
  "newest_first (es # ess) \<longleftrightarrow> sorted_wrt newer (es @ concat ess)"
  by (simp add: newest_first_def)

lemma newest_first_tl: "newest_first (es # ess) \<Longrightarrow> newest_first ess"
  by (simp add: newest_first_def sorted_wrt_append)

text \<open>Searching level after level finds the newest version overall.\<close>

lemma level_lookup_concat:
  assumes "newest_first ess"
  shows "level_lookup u s (map versions ess) = lookup_spec u s (versions (concat ess))"
  using assms
proof (induction ess)
  case Nil
  show ?case by (simp add: lookup_spec_def newest_def answer_def)
next
  case (Cons es ess)
  have IH: "level_lookup u s (map versions ess) = lookup_spec u s (versions (concat ess))"
    using Cons newest_first_tl by blast
  have absent: "snd (answer r) = KEY_ABSENT \<longleftrightarrow> r = None" for r
    by (auto simp: answer_def split: option.splits)
  show ?case
    using newest_append [OF Cons.prems [unfolded newest_first_Cons], of u s] IH
    by (cases "newest u s (versions es)") (auto simp: lookup_spec_def absent)
qed

subsection \<open>What the merge keeps\<close>

fun keep :: "SeqNum \<Rightarrow> (bytes \<Rightarrow> bool) \<Rightarrow> BlockEntry list \<Rightarrow> BlockEntry list" where
  "keep flr kept [] = []"
| "keep flr kept (e # es) =
     (if kept (UserKey (dkey e)) then keep flr kept es
      else e # keep flr (if key_SeqNum (dkey e) \<le> flr then kept(UserKey (dkey e) := True) else kept) es)"

lemma fold_merge_step: "snd (fold (merge_step flr) es (kept, res)) = res @ keep flr kept es"
  by (induction es arbitrary: kept res) (simp_all add: merge_step_def Let_def)

lemma fold_fold_concat: "fold (\<lambda>xs. fold f xs) xss s = fold f (concat xss) s"
  by (induction xss arbitrary: s) simp_all

lemma mergeIterators_eq: "mergeIterators its flr = SortEntries (keep flr (\<lambda>_. False) (concat its))"
  by (simp add: mergeIterators_def fold_fold_concat fold_merge_step)

lemma keep_subset: "set (keep flr kept es) \<subseteq> set es"
proof (induction es arbitrary: kept)
  case (Cons e es)
  have "set (keep flr k es) \<subseteq> set (e # es)" for k
    using Cons.IH [of k] by auto
  then show ?case
    by (simp del: fun_upd_apply)
qed simp

lemma keep_sorted: "sorted_wrt newer es \<Longrightarrow> sorted_wrt newer (keep flr kept es)"
proof (induction es arbitrary: kept)
  case (Cons e es)
  have IH: "sorted_wrt newer (keep flr k es)" "\<forall>x \<in> set (keep flr k es). newer e x" for k
    using Cons.IH [of k] Cons.prems keep_subset [of flr k es] by auto
  then show ?case
    by (simp del: fun_upd_apply)
qed simp

lemma newest_keep:
  assumes "sorted_wrt newer es" "flr \<le> s" "\<not> kept u"
  shows "newest u s (versions (keep flr kept es)) = newest u s (versions es)"
  using assms(1,3)
proof (induction es arbitrary: kept)
  case (Cons e es)
  show ?case
  proof (cases "matches u s (entry_version e)")
    case True
    then have "\<not> kept (UserKey (dkey e))"
      using Cons.prems(2) by (simp add: matches_entry)
    then show ?thesis
      using newest_newer_head [OF Cons.prems(1) True, of es] newest_newer_head [OF Cons.prems(1) True keep_subset] by simp
  next
    case False
    have IH: "newest u s (versions (keep flr k es)) = newest u s (versions es)" if "\<not> k u" for k
      using Cons.IH [of k] Cons.prems(1) that by simp
    have "key_SeqNum (dkey e) \<le> flr \<Longrightarrow> UserKey (dkey e) \<noteq> u"
      using False assms(2) by (auto simp: matches_entry Visible_def)
    then have "key_SeqNum (dkey e) \<le> flr \<Longrightarrow> \<not> (kept(UserKey (dkey e) := True)) u"
      using Cons.prems(2) by simp
    then show ?thesis
      using newest_skip [OF False] IH Cons.prems(2) by (simp del: fun_upd_apply)
  qed
qed simp

lemma SortEntries_versions:
  assumes "distinct (map dkey es)" "\<forall>e \<in> set es. key_Valid (dkey e)"
  shows "sorted_versions (versions (SortEntries es))" "set (SortEntries es) = set es" "mset (SortEntries es) = mset es"
proof -
  show m: "mset (SortEntries es) = mset es"
    by (simp add: SortEntries_def)
  show s: "set (SortEntries es) = set es"
    by (simp add: SortEntries_def)
  have "mset (map dkey (SortEntries es)) = mset (map dkey es)"
    by (simp add: m)
  then have "distinct (map dkey (SortEntries es))"
    using assms(1) mset_eq_imp_distinct_iff by blast
  then have "sorted_wrt (<) (map dkey (SortEntries es))"
    by (simp add: strict_sorted_iff SortEntries_def)
  then show "sorted_versions (versions (SortEntries es))"
    using assms(2) s by (auto simp: sorted_versions_def versions_def comp_def entry_version_def)
qed

text \<open>With distinct keys there is only one sorted arrangement, so it does not matter that \<^verbatim>\<open>sort.Slice\<close> is
  not stable.\<close>

lemma SortEntries_unique:
  assumes "distinct (map dkey es)" "mset ys = mset es" "sorted (map dkey ys)"
  shows "ys = SortEntries es"
proof -
  have "inj_on dkey (set es)"
    using assms(1) by (simp add: distinct_map)
  then show ?thesis
    unfolding SortEntries_def using assms(2,3) sort_key_inj_key_eq [of es ys dkey] by simp
qed

lemma sorted_versions_newer: "sorted_versions (versions es) \<Longrightarrow> sorted_wrt newer es"
  using sorted_versions_entries by (rule sorted_wrt_mono_rel [rotated]) (auto simp: newer_def)

lemma mergeIterators_correct:
  assumes "newest_first ess" "\<forall>e \<in> set (concat ess). key_Valid (dkey e)"
  shows "sorted_versions (versions (mergeIterators ess flr))"
    "set (mergeIterators ess flr) \<subseteq> set (concat ess)"
    "length (mergeIterators ess flr) \<le> length (concat ess)"
    "flr \<le> s \<Longrightarrow> newest u s (versions (mergeIterators ess flr)) = newest u s (versions (concat ess))"
proof -
  let ?ks = "keep flr (\<lambda>_. False) (concat ess)"
  have nf: "sorted_wrt newer (concat ess)"
    using assms(1) by (simp add: newest_first_def)
  note ks = keep_sorted [OF nf, of flr "\<lambda>_. False"]
  have valid: "\<forall>e \<in> set ?ks. key_Valid (dkey e)"
    using assms(2) keep_subset by blast
  note S = SortEntries_versions [OF newer_distinct [OF ks] valid]
  show "sorted_versions (versions (mergeIterators ess flr))"
    unfolding mergeIterators_eq by (rule S(1))
  show "set (mergeIterators ess flr) \<subseteq> set (concat ess)"
    unfolding mergeIterators_eq S(2) by (rule keep_subset)
  have "length (keep flr k es) \<le> length es" for k es
    by (induction es arbitrary: k) (auto intro: le_SucI)
  then show "length (mergeIterators ess flr) \<le> length (concat ess)"
    unfolding mergeIterators_eq by (simp add: SortEntries_def)
  have "newest u s (versions (mergeIterators ess flr)) = newest u s (versions ?ks)"
    unfolding mergeIterators_eq
    by (rule newest_cong [symmetric]) (use S(2) newer_fun [OF ks] in \<open>auto simp: set_versions\<close>)
  then show "flr \<le> s \<Longrightarrow> newest u s (versions (mergeIterators ess flr)) = newest u s (versions (concat ess))"
    using newest_keep [OF nf] by simp
qed

section \<open>Fresh file names\<close>

text \<open>The clock gives a new reading every time, and no table file carries a future reading.\<close>

definition clock_fresh :: "gostring \<Rightarrow> world \<Rightarrow> bool" where
  "clock_fresh dir w \<longleftrightarrow>
     inj (clock w) \<and>
     (\<forall>i \<ge> ticks w. fs_get w (sst_path dir (clock w i)) = None \<and> fs_get w (sst_path dir (clock w i) @ lit ''.tmp'') = None)"

lemma sst_path_inj [simp]: "sst_path dir a = sst_path dir b \<longleftrightarrow> a = b"
  by (simp add: sst_path_def)

lemma sst_path_tmp [simp]: "sst_path dir a \<noteq> p @ lit ''.tmp''"
proof
  assume "sst_path dir a = p @ lit ''.tmp''"
  then have "last (sst_path dir a) = last (p @ lit ''.tmp'')"
    by simp
  then show False
    by (simp add: sst_path_def lit_def of_char_eq_iff)
qed

lemma tmp_inj [simp]: "p @ lit ''.tmp'' = q @ lit ''.tmp'' \<longleftrightarrow> p = q"
  by simp

text \<open>Paths used between two moments.\<close>

definition paths_between :: "gostring \<Rightarrow> world \<Rightarrow> world \<Rightarrow> gostring set" where
  "paths_between dir w w' = (\<lambda>i. sst_path dir (clock w i)) ` {ticks w..<ticks w'}"

text \<open>Only table files with new names have been added.\<close>

definition only_adds :: "gostring \<Rightarrow> world \<Rightarrow> world \<Rightarrow> bool" where
  "only_adds dir w w' \<longleftrightarrow>
     clock w' = clock w \<and> ticks w \<le> ticks w' \<and> (\<forall>q. q \<notin> paths_between dir w w' \<longrightarrow> fs_get w' q = fs_get w q)"

lemma only_adds_refl [simp]: "only_adds dir w w"
  by (simp add: only_adds_def)

lemma paths_between_Un:
  assumes "only_adds dir a b" "only_adds dir b c"
  shows "paths_between dir a c = paths_between dir a b \<union> paths_between dir b c"
  using assms by (auto simp: only_adds_def paths_between_def image_Un [symmetric] ivl_disj_un)

lemma only_adds_trans:
  assumes "only_adds dir a b" "only_adds dir b c"
  shows "only_adds dir a c"
  using assms paths_between_Un [OF assms] by (auto simp: only_adds_def)

lemma paths_between_fresh:
  assumes "clock_fresh dir w" "p \<in> paths_between dir w w'"
  shows "fs_get w p = None"
  using assms by (auto simp: clock_fresh_def paths_between_def)

lemma only_adds_keeps:
  assumes "clock_fresh dir w" "only_adds dir w w'" "fs_get w q = Some f"
  shows "fs_get w' q = Some f"
  using assms paths_between_fresh [OF assms(1), of q w']
  by (cases "q \<in> paths_between dir w w'") (auto simp: only_adds_def)

lemma time_Now_eq: "time_Now w = (clock w (ticks w), w\<lparr>ticks := Suc (ticks w)\<rparr>)"
  by (simp add: time_Now_def)

lemma fs_get_ticks [simp]: "fs_get (w\<lparr>ticks := n\<rparr>) q = fs_get w q"
  by (simp add: fs_get_def)

lemma write_fresh_table:
  assumes "clock_fresh dir w" "faults w = []" "time_Now w = (now, w1)"
  shows "\<exists>w'. WriteSSTableFromBlockEntries (sst_path dir now) es w1 = (Inr (table_of (sst_path dir now) es), w') \<and>
    only_adds dir w w' \<and> clock_fresh dir w' \<and> faults w' = [] \<and> ticks w' = Suc (ticks w) \<and> now = clock w (ticks w) \<and>
    fs_get w' (sst_path dir now) = Some (complete_file es)"
proof -
  let ?p = "sst_path dir now"
  have now: "now = clock w (ticks w)" and w1: "w1 = w\<lparr>ticks := Suc (ticks w)\<rparr>"
    using assms(3) by (simp_all add: time_Now_eq)
  have tmp: "fs_get w1 (?p @ lit ''.tmp'') = None" and final: "fs_get w1 ?p = None"
    using assms(1) by (auto simp: clock_fresh_def w1 now)
  obtain r w' where run: "WriteSSTableFromBlockEntries ?p es w1 = (r, w')"
    by (metis surj_pair)
  have I: "touches2 (?p @ lit ''.tmp'') ?p w1 w'" "r = Inr (table_of ?p es)" "fs_get w' ?p = Some (complete_file es)"
    "fs_get w' (?p @ lit ''.tmp'') = None" "faults w' = []"
    using WriteSSTable_installs [OF tmp, of es] assms(2) unfolding run by (auto simp: installs_def w1)
  have get: "fs_get w' q = (if q = ?p then Some (complete_file es) else fs_get w q)" for q
    using I(1,3,4) tmp by (cases "q = ?p @ lit ''.tmp''") (auto simp: touches2_def w1)
  have clk: "clock w' = clock w" "ticks w' = Suc (ticks w)"
    using I(1) by (simp_all add: touches2_def w1)
  have add: "only_adds dir w w'"
    by (auto simp: only_adds_def paths_between_def clk get now)
  have "clock_fresh dir w'"
    unfolding clock_fresh_def clk get
  proof (intro conjI allI impI)
    show "inj (clock w)"
      using assms(1) by (simp add: clock_fresh_def)
  next
    fix i
    assume "Suc (ticks w) \<le> i"
    then have "i \<noteq> ticks w" "ticks w \<le> i"
      by auto
    moreover have "clock w i \<noteq> now"
      using \<open>i \<noteq> ticks w\<close> assms(1) by (auto simp: clock_fresh_def now dest: injD)
    ultimately show "(if sst_path dir (clock w i) = ?p then Some (complete_file es) else fs_get w (sst_path dir (clock w i))) = None"
      "(if sst_path dir (clock w i) @ lit ''.tmp'' = ?p then Some (complete_file es)
        else fs_get w (sst_path dir (clock w i) @ lit ''.tmp'')) = None"
      using assms(1) sst_path_tmp [of dir now "sst_path dir (clock w i)", symmetric] by (simp_all add: clock_fresh_def)
  qed
  with run I(2,3,5) add clk now show ?thesis by blast
qed

section \<open>Compacting adjacent groups\<close>

text \<open>What a group becomes: it stays, or it is replaced by its merge.\<close>

definition group_entries :: "SeqNum \<Rightarrow> BlockEntry list list \<Rightarrow> BlockEntry list list" where
  "group_entries flr ess = (if length ess < 2 then ess else [mergeIterators ess flr])"

lemma group_entries_correct:
  assumes "newest_first ess" "\<forall>e \<in> set (concat ess). key_Valid (dkey e)"
  shows "set (concat (group_entries flr ess)) \<subseteq> set (concat ess)"
    "sorted_wrt newer (concat (group_entries flr ess))"
    "length (concat (group_entries flr ess)) \<le> length (concat ess)"
    "flr \<le> s \<Longrightarrow> newest u s (versions (concat (group_entries flr ess))) = newest u s (versions (concat ess))"
  using assms(1) mergeIterators_correct [OF assms, of flr] sorted_versions_newer
  by (auto simp: group_entries_def newest_first_def)

lemma sorted_newer_mono:
  assumes "sorted_wrt newer (xs @ ys)" "set xs' \<subseteq> set xs" "set ys' \<subseteq> set ys" "sorted_wrt newer xs'" "sorted_wrt newer ys'"
  shows "sorted_wrt newer (xs' @ ys')"
  using assms by (auto simp: sorted_wrt_append)

lemma groups_entries_correct:
  assumes "newest_first (concat gss)" "\<forall>e \<in> set (concat (concat gss)). key_Valid (dkey e)"
  shows "set (concat (concat (map (group_entries flr) gss))) \<subseteq> set (concat (concat gss)) \<and>
    newest_first (concat (map (group_entries flr) gss)) \<and>
    length (concat (concat (map (group_entries flr) gss))) \<le> length (concat (concat gss)) \<and>
    (flr \<le> s \<longrightarrow> newest u s (versions (concat (concat (map (group_entries flr) gss)))) =
       newest u s (versions (concat (concat gss))))"
  using assms
proof (induction gss)
  case (Cons ess gss)
  let ?rest = "concat (concat (map (group_entries flr) gss))"
  have sorted: "sorted_wrt newer (concat ess @ concat (concat gss))"
    using Cons.prems(1) by (simp add: newest_first_def)
  then have nf: "newest_first ess" "newest_first (concat gss)"
    by (simp_all add: newest_first_def sorted_wrt_append)
  note G = group_entries_correct [OF nf(1), of flr]
  have valid: "\<forall>e \<in> set (concat ess). key_Valid (dkey e)" "\<forall>e \<in> set (concat (concat gss)). key_Valid (dkey e)"
    using Cons.prems(2) by auto
  have IH: "set ?rest \<subseteq> set (concat (concat gss))" "sorted_wrt newer ?rest"
    "length ?rest \<le> length (concat (concat gss))"
    "flr \<le> s \<Longrightarrow> newest u s (versions ?rest) = newest u s (versions (concat (concat gss)))"
    using Cons.IH [OF nf(2) valid(2)] by (auto simp: newest_first_def)
  have both: "sorted_wrt newer (concat (group_entries flr ess) @ ?rest)"
    by (rule sorted_newer_mono [OF sorted G(1) [OF valid(1)] IH(1) G(2) [OF valid(1)] IH(2)])
  have split: "concat (concat (map (group_entries flr) (ess # gss))) = concat (group_entries flr ess) @ ?rest"
    "concat (concat (ess # gss)) = concat ess @ concat (concat gss)"
    by simp_all
  have "set (concat (group_entries flr ess) @ ?rest) \<subseteq> set (concat ess @ concat (concat gss))"
    using G(1) [OF valid(1)] IH(1) by (simp only: set_append Un_mono)
  moreover have "length (concat (group_entries flr ess) @ ?rest) \<le> length (concat ess @ concat (concat gss))"
    using G(3) [OF valid(1)] IH(3) by simp
  moreover have "newest u s (versions (concat (group_entries flr ess) @ ?rest)) =
      newest u s (versions (concat ess @ concat (concat gss)))" if "flr \<le> s"
    unfolding newest_append [OF both] newest_append [OF sorted] G(4) [OF valid(1) that] IH(4) [OF that] ..
  ultimately show ?case
    using both unfolding newest_first_def split by blast
qed (simp add: newest_first_def)

subsection \<open>Running the merges\<close>

lemma read_iterators_tables:
  assumes "\<forall>(t, es) \<in> set g. table_holds w t es"
  shows "read_iterators (map fst g) acc w = Inr (acc @ map snd g)"
  using assms by (induction g arbitrary: acc) (auto simp: NewBlockIterator_table)

lemma table_holds_frame: "table_holds w t es \<Longrightarrow> fs_get w' (FilePath t) = fs_get w (FilePath t) \<Longrightarrow> table_holds w' t es"
  by (simp add: table_holds_def)

lemma table_holds_exists: "table_holds w t es \<Longrightarrow> fs_get w (FilePath t) \<noteq> None"
  by (auto simp: table_holds_def)

lemma table_holds_adds:
  assumes "clock_fresh dir w" "only_adds dir w w'" "table_holds w t es"
  shows "table_holds w' t es"
  using assms only_adds_keeps [OF assms(1,2)] table_holds_exists [OF assms(3)]
  by (intro table_holds_frame [OF assms(3)]) auto

text \<open>Total size under which every merge fits the file format.\<close>

definition small_entries :: "BlockEntry list \<Rightarrow> bool" where
  "small_entries es \<longleftrightarrow> list_all (\<lambda>e. entry_size e < 2 ^ 28) es \<and> length es < 2 ^ 30"

lemma mergeGroup_correct:
  assumes "\<forall>(t, es) \<in> set g. table_holds w t es" "newest_first (map snd g)" "small_entries (concat (map snd g))"
    and "clock_fresh dir w" "faults w = []"
  shows "\<exists>t w'. mergeGroup (map fst g) dir flr w = (Inr t, w') \<and> table_holds w' t (mergeIterators (map snd g) flr) \<and>
    only_adds dir w w' \<and> clock_fresh dir w' \<and> faults w' = [] \<and> paths_between dir w w' = {FilePath t}"
proof -
  obtain now w1 where t: "time_Now w = (now, w1)"
    by (cases "time_Now w")
  let ?es = "mergeIterators (map snd g) flr"
  have valid: "\<forall>e \<in> set (concat (map snd g)). key_Valid (dkey e)"
    using assms(1) by (auto simp: table_holds_def sorted_versions_def set_versions entry_version_def)
  note M = mergeIterators_correct [OF assms(2) valid, of flr]
  have "table_fits ?es"
    using M(2,3) assms(3) by (intro table_fits_limits) (auto simp: small_entries_def list_all_iff)
  moreover obtain w' where wr: "WriteSSTableFromBlockEntries (sst_path dir now) ?es w1 = (Inr (table_of (sst_path dir now) ?es), w')"
    "only_adds dir w w'" "clock_fresh dir w'" "faults w' = []" "ticks w' = Suc (ticks w)" "now = clock w (ticks w)"
    "fs_get w' (sst_path dir now) = Some (complete_file ?es)"
    using write_fresh_table [OF assms(4,5) t, of ?es] by blast
  ultimately have "table_holds w' (table_of (sst_path dir now) ?es) ?es"
    using table_holds_complete(1) M(1) by blast
  moreover have "paths_between dir w w' = {FilePath (table_of (sst_path dir now) ?es)}"
    by (simp add: table_of_def paths_between_def wr(5,6))
  ultimately show ?thesis
    using wr t read_iterators_tables [OF assms(1), of "[]"] by (auto simp: mergeGroup_def)
qed

text \<open>The tables \<open>rs\<close> that stand for the groups \<open>gs\<close> after the merges.\<close>

definition groups_done ::
  "gostring \<Rightarrow> SeqNum \<Rightarrow> world \<Rightarrow> (SSTable \<times> BlockEntry list) list list \<Rightarrow> (SSTable \<times> BlockEntry list) list \<Rightarrow> world \<Rightarrow> bool" where
  "groups_done dir flr w gs rs w' \<longleftrightarrow>
     map snd rs = concat (map (\<lambda>g. group_entries flr (map snd g)) gs) \<and>
     (\<forall>(t, es) \<in> set rs. table_holds w' t es) \<and> distinct (map (FilePath \<circ> fst) rs) \<and>
     (\<forall>x \<in> set rs. FilePath (fst x) \<in> paths_between dir w w' \<or> (\<exists>g \<in> set gs. length g < 2 \<and> x \<in> set g)) \<and>
     paths_between dir w w' \<subseteq> FilePath ` fst ` set rs \<and> (\<forall>g \<in> set gs. length g < 2 \<longrightarrow> set g \<subseteq> set rs) \<and>
     only_adds dir w w' \<and> clock_fresh dir w' \<and> faults w' = []"

definition merged_path :: "(SSTable \<times> BlockEntry list) list list \<Rightarrow> gostring \<Rightarrow> bool" where
  "merged_path gs p \<longleftrightarrow> (\<exists>g \<in> set gs. 2 \<le> length g \<and> p \<in> FilePath ` fst ` set g)"

definition groups_hold :: "world \<Rightarrow> (SSTable \<times> BlockEntry list) list list \<Rightarrow> bool" where
  "groups_hold w gs \<longleftrightarrow>
     (\<forall>(t, es) \<in> set (concat gs). table_holds w t es) \<and> distinct (map (FilePath \<circ> fst) (concat gs)) \<and>
     (\<forall>g \<in> set gs. newest_first (map snd g) \<and> small_entries (concat (map snd g)))"

lemma groups_hold_Cons:
  assumes "groups_hold w (g # gs)"
  shows "\<forall>(t, es) \<in> set g. table_holds w t es" "distinct (map (FilePath \<circ> fst) g)" "groups_hold w gs"
    "\<And>x y. x \<in> set g \<Longrightarrow> y \<in> set (concat gs) \<Longrightarrow> FilePath (fst x) \<noteq> FilePath (fst y)"
    "newest_first (map snd g)" "small_entries (concat (map snd g))"
  using assms unfolding groups_hold_def by (auto simp: disjoint_iff)

lemma groups_hold_adds:
  "clock_fresh dir w \<Longrightarrow> only_adds dir w w' \<Longrightarrow> groups_hold w gs \<Longrightarrow> groups_hold w' gs"
  using table_holds_adds unfolding groups_hold_def by blast

lemma groups_hold_exists: "groups_hold w gs \<Longrightarrow> x \<in> set (concat gs) \<Longrightarrow> fs_get w (FilePath (fst x)) \<noteq> None"
  using table_holds_exists unfolding groups_hold_def by fastforce

lemma groups_done_old:
  assumes "groups_done dir flr w gs rs w'" "x \<in> set rs" "FilePath (fst x) \<notin> paths_between dir w w'"
  shows "x \<in> set (concat gs)"
  using assms by (auto simp: groups_done_def)

lemma groups_done_keep:
  assumes "clock_fresh dir w" "groups_hold w (g # gs)" "groups_done dir flr w gs rs w'" "length g < 2"
  shows "groups_done dir flr w (g # gs) (g @ rs) w'"
proof -
  note H = groups_hold_Cons [OF assms(2)]
  have add: "only_adds dir w w'"
    using assms(3) by (simp add: groups_done_def)
  have "FilePath (fst x) \<noteq> FilePath (fst y)" if x: "x \<in> set g" and y: "y \<in> set rs" for x y
  proof (cases "FilePath (fst y) \<in> paths_between dir w w'")
    case True
    moreover have "fs_get w (FilePath (fst x)) \<noteq> None"
      using groups_hold_exists [OF assms(2), of x] x by auto
    ultimately show ?thesis
      using paths_between_fresh [OF assms(1)] by metis
  next
    case False
    then show ?thesis
      using groups_done_old [OF assms(3) y] H(4) x by blast
  qed
  then have "distinct (map (FilePath \<circ> fst) (g @ rs))"
    using H(2) assms(3) by (auto simp: groups_done_def disjoint_iff)
  moreover have "\<forall>(t, es) \<in> set (g @ rs). table_holds w' t es"
    using H(1) table_holds_adds [OF assms(1) add] assms(3) by (auto simp: groups_done_def)
  moreover have "paths_between dir w w' \<subseteq> FilePath ` fst ` set (g @ rs)"
    using assms(3) unfolding groups_done_def set_append image_Un by blast
  ultimately show ?thesis
    using assms(3,4) unfolding groups_done_def by (auto simp: group_entries_def)
qed

lemma groups_done_merge:
  assumes "clock_fresh dir w" "groups_hold w (g # gs)" "\<not> length g < 2"
    and "only_adds dir w w1" "clock_fresh dir w1" "table_holds w1 t es" "paths_between dir w w1 = {FilePath t}"
    and "es = mergeIterators (map snd g) flr" "groups_done dir flr w1 gs rs w'"
  shows "groups_done dir flr w (g # gs) ((t, es) # rs) w'"
proof -
  note H = groups_hold_Cons [OF assms(2)]
  have add: "only_adds dir w1 w'"
    using assms(9) by (simp add: groups_done_def)
  have new: "FilePath t \<in> paths_between dir w w1"
    by (simp add: assms(7))
  have between: "paths_between dir w w' = insert (FilePath t) (paths_between dir w1 w')"
    using paths_between_Un [OF assms(4) add] by (simp add: assms(7))
  have "FilePath t \<noteq> FilePath (fst y)" if y: "y \<in> set rs" for y
  proof (cases "FilePath (fst y) \<in> paths_between dir w1 w'")
    case True
    then show ?thesis
      using paths_between_fresh [OF assms(5) True] table_holds_exists [OF assms(6)] by metis
  next
    case False
    then have "fs_get w (FilePath (fst y)) \<noteq> None"
      using groups_done_old [OF assms(9) y] groups_hold_exists [OF H(3)] by blast
    then show ?thesis
      using paths_between_fresh [OF assms(1) new] by metis
  qed
  then have "distinct (map (FilePath \<circ> fst) ((t, es) # rs))"
    using assms(9) by (auto simp: groups_done_def)
  moreover have "\<forall>(t, es) \<in> set ((t, es) # rs). table_holds w' t es"
    using table_holds_adds [OF assms(5) add assms(6)] assms(9) by (auto simp: groups_done_def)
  moreover have "only_adds dir w w'"
    by (rule only_adds_trans [OF assms(4) add])
  ultimately show ?thesis
    using assms(3,8,9) between unfolding groups_done_def by (auto simp: group_entries_def)
qed

lemma compact_groups_correct:
  assumes "groups_hold w gs" "clock_fresh dir w" "faults w = []"
  shows "\<exists>rs w'. compact_groups dir flr (map (map fst) gs) acc cm w =
      (Inr (acc @ map fst rs, \<lambda>p. cm p \<or> merged_path gs p), w') \<and> groups_done dir flr w gs rs w'"
  using assms
proof (induction gs arbitrary: acc cm w)
  case Nil
  then show ?case by (intro exI [of _ "[]"] exI [of _ w]) (simp add: groups_done_def merged_path_def paths_between_def)
next
  case (Cons g gs)
  note H = groups_hold_Cons [OF Cons.prems(1)]
  show ?case
  proof (cases "length g < 2")
    case True
    obtain rs w' where R: "compact_groups dir flr (map (map fst) gs) (acc @ map fst g) cm w =
        (Inr ((acc @ map fst g) @ map fst rs, \<lambda>p. cm p \<or> merged_path gs p), w')" "groups_done dir flr w gs rs w'"
      using Cons.IH [OF H(3) Cons.prems(2,3)] by blast
    have "merged_path (g # gs) = merged_path gs"
      using True by (auto simp: merged_path_def)
    then have "compact_groups dir flr (map (map fst) (g # gs)) acc cm w =
        (Inr (acc @ map fst (g @ rs), \<lambda>p. cm p \<or> merged_path (g # gs) p), w')"
      using R(1) True by simp
    then show ?thesis
      using groups_done_keep [OF Cons.prems(2,1) R(2) True] by blast
  next
    case False
    let ?cm = "fold (\<lambda>sst m. m(FilePath sst := True)) (map fst g) cm"
    obtain t w1 where M: "mergeGroup (map fst g) dir flr w = (Inr t, w1)"
      "table_holds w1 t (mergeIterators (map snd g) flr)" "only_adds dir w w1" "clock_fresh dir w1" "faults w1 = []"
      "paths_between dir w w1 = {FilePath t}"
      using mergeGroup_correct [OF H(1,5,6) Cons.prems(2,3)] by blast
    obtain rs w' where R: "compact_groups dir flr (map (map fst) gs) (acc @ [t]) ?cm w1 =
        (Inr ((acc @ [t]) @ map fst rs, \<lambda>p. ?cm p \<or> merged_path gs p), w')" "groups_done dir flr w1 gs rs w'"
      using Cons.IH [OF groups_hold_adds [OF Cons.prems(2) M(3) H(3)] M(4,5)] by blast
    have "?cm p \<longleftrightarrow> cm p \<or> p \<in> FilePath ` fst ` set g" for p
      by (induction g arbitrary: cm) auto
    then have "(\<lambda>p. ?cm p \<or> merged_path gs p) = (\<lambda>p. cm p \<or> merged_path (g # gs) p)"
      using False by (auto simp: merged_path_def)
    then have "compact_groups dir flr (map (map fst) (g # gs)) acc cm w =
        (Inr (acc @ map fst ((t, mergeIterators (map snd g) flr) # rs), \<lambda>p. cm p \<or> merged_path (g # gs) p), w')"
      using R(1) False M(1) by simp
    then show ?thesis
      using groups_done_merge [OF Cons.prems(2,1) False M(3,4,2,6) refl R(2)] by blast
  qed
qed

subsection \<open>Removing the merged tables\<close>

lemma remove_compacted_ok:
  assumes "faults w = []" "distinct (map FilePath ts)" "\<forall>t \<in> set ts. cm (FilePath t) \<longrightarrow> fs_get w (FilePath t) \<noteq> None"
  shows "\<exists>w'. remove_compacted ts cm w = (Inr (), w') \<and> faults w' = [] \<and> clock w' = clock w \<and> ticks w' = ticks w \<and>
    (\<forall>q. fs_get w' q = (if q \<in> FilePath ` set ts \<and> cm q then None else fs_get w q))"
  using assms
proof (induction ts arbitrary: w)
  case (Cons t ts)
  show ?case
  proof (cases "cm (FilePath t)")
    case True
    let ?w = "fs_del (FilePath t) w"
    have rm: "os_Remove (FilePath t) w = (Inr (), ?w)"
      using Cons.prems(1,3) True by (auto simp: os_Remove_def split: option.splits)
    have pre: "faults ?w = []" "distinct (map FilePath ts)" "\<forall>t \<in> set ts. cm (FilePath t) \<longrightarrow> fs_get ?w (FilePath t) \<noteq> None"
      using Cons.prems by (auto simp: image_iff)
    obtain w' where "remove_compacted ts cm ?w = (Inr (), w')" "faults w' = []" "clock w' = clock w" "ticks w' = ticks w"
      "\<forall>q. fs_get w' q = (if q \<in> FilePath ` set ts \<and> cm q then None else fs_get ?w q)"
      using Cons.IH [OF pre] by auto
    then show ?thesis
      using True rm by auto
  next
    case False
    then show ?thesis
      using Cons.IH [of w] Cons.prems by auto
  qed
qed simp

subsection \<open>Compaction as a whole\<close>

text \<open>The relation between the tables before and after: same answers at and above the floor, old files
  only removed, new files only under fresh names.\<close>

definition compacts ::
  "gostring \<Rightarrow> SeqNum \<Rightarrow> world \<Rightarrow> (SSTable \<times> BlockEntry list) list \<Rightarrow> (SSTable \<times> BlockEntry list) list \<Rightarrow> world \<Rightarrow> bool" where
  "compacts dir flr w ts ts' w' \<longleftrightarrow>
     tables_hold w' ts' \<and> newest_first (map snd ts') \<and>
     (\<forall>u s. flr \<le> s \<longrightarrow>
        newest u s (versions (concat (map snd ts'))) = newest u s (versions (concat (map snd ts)))) \<and>
     set (concat (map snd ts')) \<subseteq> set (concat (map snd ts)) \<and>
     length (concat (map snd ts')) \<le> length (concat (map snd ts)) \<and>
     (\<forall>x \<in> set ts'. FilePath (fst x) \<in> paths_between dir w w' \<or> x \<in> set ts) \<and>
     clock_fresh dir w' \<and> faults w' = [] \<and> clock w' = clock w \<and> ticks w \<le> ticks w' \<and>
     (\<forall>q. q \<notin> FilePath ` fst ` set ts \<union> paths_between dir w w' \<longrightarrow> fs_get w' q = fs_get w q) \<and>
     (\<forall>q \<in> FilePath ` fst ` set ts \<union> paths_between dir w w'. fs_get w' q \<noteq> None \<longrightarrow> q \<in> FilePath ` fst ` set ts')"

definition adjacent_groups :: "SSTable list \<Rightarrow> world \<Rightarrow> bool" where
  "adjacent_groups tables w \<longleftrightarrow> concat (groupBySimilarSize tables w) = tables"

lemma small_entries_mono: "set es' \<subseteq> set es \<Longrightarrow> length es' \<le> length es \<Longrightarrow> small_entries es \<Longrightarrow> small_entries es'"
  by (auto simp: small_entries_def list_all_iff)

text \<open>The groups of tables that carry their entries along.\<close>

definition entry_groups :: "world \<Rightarrow> (SSTable \<times> BlockEntry list) list \<Rightarrow> (SSTable \<times> BlockEntry list) list list" where
  "entry_groups w = group_spec (\<lambda>a b. isSimilarSize (table_size (fst a) w) (table_size (fst b) w))"

lemma entry_groups_fst: "groupBySimilarSize (map fst ts) w = map (map fst) (entry_groups w ts)"
  by (simp add: groupBySimilarSize_eq group_spec_map entry_groups_def)

lemma entry_groups_mset: "mset (concat (entry_groups w ts)) = mset ts"
  by (simp add: entry_groups_def group_spec_mset)

lemma entry_groups_set: "set (concat (entry_groups w ts)) = set ts"
  using mset_eq_setD [OF entry_groups_mset] .

lemma tables_hold_mset: "mset ts' = mset ts \<Longrightarrow> tables_hold w ts \<Longrightarrow> tables_hold w ts'"
  using mset_eq_setD [of ts' ts] mset_eq_imp_distinct_iff [of "map (FilePath \<circ> fst) ts'" "map (FilePath \<circ> fst) ts"]
  by (auto simp: tables_hold_def list_all_iff)

lemma group_spec_subseq: "g \<in> set (group_spec sim xs) \<Longrightarrow> subseq g xs"
proof (induction sim xs rule: group_spec.induct)
  case (2 sim x xs)
  show ?case
  proof (cases "g = x # filter (sim x) xs")
    case True
    then show ?thesis by simp
  next
    case False
    then have "subseq g (filter (\<lambda>y. \<not> sim x y) xs)"
      using 2 by simp
    then show ?thesis
      using subseq_filter_left [of "\<lambda>y. \<not> sim x y" xs] subseq_order.trans by blast
  qed
qed simp

lemma sorted_wrt_subseq: "subseq xs ys \<Longrightarrow> sorted_wrt P ys \<Longrightarrow> sorted_wrt P xs"
  by (induction xs ys rule: list_emb.induct) (auto dest: list_emb_set)

lemma subseq_concat: "subseq gs ts \<Longrightarrow> subseq (concat (map snd gs)) (concat (map snd ts))"
  by (induction gs ts rule: list_emb.induct) (auto intro: list_emb_append_mono)

lemma groups_hold_tables:
  assumes "tables_hold w ts" "newest_first (map snd ts)" "small_entries (concat (map snd ts))"
  shows "groups_hold w (entry_groups w ts)"
proof -
  have "newest_first (map snd g) \<and> small_entries (concat (map snd g))" if g: "g \<in> set (entry_groups w ts)" for g
  proof -
    have sub: "subseq (concat (map snd g)) (concat (map snd ts))"
      using g group_spec_subseq subseq_concat unfolding entry_groups_def by blast
    have "set (concat (map snd g)) \<subseteq> set (concat (map snd ts))"
      using list_emb_set [OF sub] by blast
    then show ?thesis
      using sorted_wrt_subseq [OF sub] small_entries_mono [OF _ list_emb_length [OF sub] assms(3)] assms(2)
      unfolding newest_first_def by blast
  qed
  then show ?thesis
    using tables_hold_mset [OF entry_groups_mset assms(1)]
    by (auto simp: groups_hold_def tables_hold_def list_all_iff)
qed

lemma groups_done_tables:
  assumes "tables_hold w (concat gs)" "clock_fresh dir w" "groups_done dir flr w gs rs w1"
    and "\<forall>q. fs_get w2 q = (if q \<in> FilePath ` fst ` set (concat gs) \<and> merged_path gs q then None else fs_get w1 q)"
  shows "tables_hold w2 rs"
proof -
  have D: "\<forall>(t, es) \<in> set rs. table_holds w1 t es" "distinct (map (FilePath \<circ> fst) rs)"
    "\<forall>x \<in> set rs. FilePath (fst x) \<in> paths_between dir w w1 \<or> (\<exists>g \<in> set gs. length g < 2 \<and> x \<in> set g)"
    using assms(3) by (simp_all add: groups_done_def)
  have old: "fs_get w (FilePath (fst x)) \<noteq> None" if "x \<in> set (concat gs)" for x
    using assms(1) that table_holds_exists by (fastforce simp: tables_hold_def list_all_iff)
  have inj: "x = y" if "x \<in> set (concat gs)" "y \<in> set (concat gs)" "FilePath (fst x) = FilePath (fst y)" for x y
    using assms(1) that unfolding tables_hold_def distinct_map by (metis comp_apply inj_onD)
  have "fs_get w2 (FilePath (fst x)) = fs_get w1 (FilePath (fst x))" if x: "x \<in> set rs" for x
  proof (cases "FilePath (fst x) \<in> paths_between dir w w1")
    case True
    then have "FilePath (fst x) \<notin> FilePath ` fst ` set (concat gs)"
      using paths_between_fresh [OF assms(2) True] old by (metis (no_types, lifting) imageE)
    then show ?thesis
      using assms(4) by simp
  next
    case False
    then obtain g where g: "g \<in> set gs" "length g < 2" "x \<in> set g"
      using D(3) x by blast
    have "\<not> merged_path gs (FilePath (fst x))"
    proof
      assume "merged_path gs (FilePath (fst x))"
      then obtain h y where h: "h \<in> set gs" "2 \<le> length h" "y \<in> set h" "FilePath (fst x) = FilePath (fst y)"
        by (auto simp: merged_path_def)
      then have "x = y"
        using inj [of x y] g by auto
      moreover have "distinct (concat gs)"
        using assms(1) by (simp add: tables_hold_def distinct_map)
      ultimately have "g = h"
        using g h unfolding distinct_concat_iff by blast
      then show False
        using g h by simp
    qed
    then show ?thesis
      using assms(4) by simp
  qed
  then show ?thesis
    using D(1,2) by (auto simp: tables_hold_def list_all_iff intro: table_holds_frame)
qed

lemma groups_done_files:
  assumes "groups_done dir flr w gs rs w1" "q \<in> FilePath ` fst ` set (concat gs) \<union> paths_between dir w w1"
    and "q \<in> FilePath ` fst ` set (concat gs) \<longrightarrow> \<not> merged_path gs q"
  shows "q \<in> FilePath ` fst ` set rs"
proof (cases "q \<in> paths_between dir w w1")
  case True
  with assms(1) show ?thesis by (auto simp: groups_done_def)
next
  case False
  then obtain g x where g: "g \<in> set gs" "x \<in> set g" "q = FilePath (fst x)"
    using assms(2) by auto
  then have "length g < 2"
    using assms(3) by (force simp: merged_path_def)
  then have "x \<in> set rs"
    using assms(1) g unfolding groups_done_def by blast
  then show ?thesis
    by (simp add: g(3))
qed

lemma groups_done_compacts:
  assumes "tables_hold w (concat gs)" "newest_first (map snd (concat gs))" "clock_fresh dir w"
    and "groups_done dir flr w gs rs w1"
    and "faults w2 = []" "clock w2 = clock w1" "ticks w2 = ticks w1"
    and "\<forall>q. fs_get w2 q = (if q \<in> FilePath ` fst ` set (concat gs) \<and> merged_path gs q then None else fs_get w1 q)"
  shows "compacts dir flr w (concat gs) rs w2"
proof -
  have D: "map snd rs = concat (map (group_entries flr) (map (map snd) gs))"
    "only_adds dir w w1" "clock_fresh dir w1"
    "\<forall>x \<in> set rs. FilePath (fst x) \<in> paths_between dir w w1 \<or> (\<exists>g \<in> set gs. length g < 2 \<and> x \<in> set g)"
    using assms(4) by (simp_all add: groups_done_def comp_def)
  have between: "paths_between dir w w2 = paths_between dir w w1"
    by (simp add: paths_between_def assms(7))
  have valid: "\<forall>e \<in> set (concat (concat (map (map snd) gs))). key_Valid (dkey e)"
    using assms(1)
    by (fastforce simp: tables_hold_def list_all_iff table_holds_def sorted_versions_def set_versions entry_version_def)
  have flat: "concat (map (map snd) gs) = map snd (concat gs)"
    by (simp add: map_concat)
  have G: "set (concat (map snd rs)) \<subseteq> set (concat (map snd (concat gs)))" "newest_first (map snd rs)"
    "length (concat (map snd rs)) \<le> length (concat (map snd (concat gs)))"
    "\<forall>u s. flr \<le> s \<longrightarrow> newest u s (versions (concat (map snd rs))) = newest u s (versions (concat (map snd (concat gs))))"
    using groups_entries_correct [of "map (map snd) gs" flr, unfolded flat, OF assms(2) valid [unfolded flat]]
    unfolding D(1) by blast+
  have "tables_hold w2 rs"
    by (rule groups_done_tables [OF assms(1,3,4,8)])
  moreover have "clock_fresh dir w2"
    using D(3) assms(6-8) by (auto simp: clock_fresh_def)
  moreover have "\<forall>x \<in> set rs. FilePath (fst x) \<in> paths_between dir w w2 \<or> x \<in> set (concat gs)"
    using D(4) unfolding between by fastforce
  moreover have "\<forall>q. q \<notin> FilePath ` fst ` set (concat gs) \<union> paths_between dir w w2 \<longrightarrow> fs_get w2 q = fs_get w q"
    using D(2) assms(8) unfolding between by (auto simp: only_adds_def)
  moreover have "clock w2 = clock w" "ticks w \<le> ticks w2"
    using D(2) assms(6,7) by (simp_all add: only_adds_def)
  moreover have "\<forall>q \<in> FilePath ` fst ` set (concat gs) \<union> paths_between dir w w2. fs_get w2 q \<noteq> None \<longrightarrow> q \<in> FilePath ` fst ` set rs"
    using groups_done_files [OF assms(4)] assms(8) unfolding between by auto
  ultimately show ?thesis
    using G assms(5) unfolding compacts_def by blast
qed

text \<open>Compaction with any groups: the result stands for the merged groups in the order of the groups.\<close>

lemma Compact_run:
  assumes "tables_hold w ts" "newest_first (map snd ts)" "small_entries (concat (map snd ts))"
    and "clock_fresh dir w" "faults w = []" "DEFAULT_COMPACTION_THRESHOLD \<le> length ts"
  shows "\<exists>rs w1 w2. Compact (map fst ts) dir flr w = (Inr (map fst rs), w2) \<and> groups_done dir flr w (entry_groups w ts) rs w1 \<and>
    faults w2 = [] \<and> clock w2 = clock w1 \<and> ticks w2 = ticks w1 \<and>
    (\<forall>q. fs_get w2 q = (if q \<in> FilePath ` fst ` set ts \<and> merged_path (entry_groups w ts) q then None else fs_get w1 q))"
proof -
  define gs where "gs = entry_groups w ts"
  have hold: "groups_hold w gs"
    unfolding gs_def by (rule groups_hold_tables [OF assms(1-3)])
  obtain rs w1 where C: "compact_groups dir flr (map (map fst) gs) [] (\<lambda>_. False) w =
      (Inr ([] @ map fst rs, \<lambda>p. False \<or> merged_path gs p), w1)" "groups_done dir flr w gs rs w1"
    using compact_groups_correct [OF hold assms(4,5)] by blast
  have D: "only_adds dir w w1" "faults w1 = []"
    using C(2) by (simp_all add: groups_done_def)
  have "distinct (map FilePath (map fst ts))"
    using assms(1) by (simp add: tables_hold_def)
  moreover have "\<forall>t \<in> set (map fst ts). merged_path gs (FilePath t) \<longrightarrow> fs_get w1 (FilePath t) \<noteq> None"
    using groups_hold_exists [OF groups_hold_adds [OF assms(4) D(1) hold], unfolded gs_def entry_groups_set] by force
  ultimately obtain w2 where R: "remove_compacted (map fst ts) (merged_path gs) w1 = (Inr (), w2)"
    "faults w2 = []" "clock w2 = clock w1" "ticks w2 = ticks w1"
    "\<forall>q. fs_get w2 q = (if q \<in> FilePath ` set (map fst ts) \<and> merged_path gs q then None else fs_get w1 q)"
    using remove_compacted_ok [OF D(2)] by blast
  moreover have "Compact (map fst ts) dir flr w = (Inr (map fst rs), w2)"
    using assms(6) C(1) R(1) entry_groups_fst [of ts w] by (simp add: Compact_def gs_def)
  ultimately show ?thesis
    using C(2) unfolding gs_def by auto
qed

lemma adjacent_entry_groups:
  assumes "tables_hold w ts" "adjacent_groups (map fst ts) w"
  shows "concat (entry_groups w ts) = ts"
proof (rule map_inj_on [where f = fst])
  show "map fst (concat (entry_groups w ts)) = map fst ts"
    using assms(2) by (simp add: adjacent_groups_def entry_groups_fst map_concat)
  have "inj_on (FilePath \<circ> fst) (set ts)"
    using assms(1) by (simp add: tables_hold_def distinct_map)
  then show "inj_on fst (set (concat (entry_groups w ts)) \<union> set ts)"
    unfolding entry_groups_set by (auto simp: inj_on_def)
qed

lemma Compact_correct:
  assumes "tables_hold w ts" "newest_first (map snd ts)" "small_entries (concat (map snd ts))"
    and "clock_fresh dir w" "faults w = []"
    and "DEFAULT_COMPACTION_THRESHOLD \<le> length ts \<Longrightarrow> adjacent_groups (map fst ts) w"
  shows "\<exists>ts' w'. Compact (map fst ts) dir flr w = (Inr (map fst ts'), w') \<and> compacts dir flr w ts ts' w'"
proof (cases "length ts < DEFAULT_COMPACTION_THRESHOLD")
  case True
  then show ?thesis
    using assms by (intro exI [of _ ts] exI [of _ w]) (auto simp: Compact_def compacts_def paths_between_def)
next
  case False
  then have adj: "concat (entry_groups w ts) = ts"
    using adjacent_entry_groups assms(1,6) by simp
  obtain rs w1 w2 where R: "Compact (map fst ts) dir flr w = (Inr (map fst rs), w2)"
    "groups_done dir flr w (entry_groups w ts) rs w1" "faults w2 = []" "clock w2 = clock w1" "ticks w2 = ticks w1"
    "\<forall>q. fs_get w2 q = (if q \<in> FilePath ` fst ` set ts \<and> merged_path (entry_groups w ts) q then None else fs_get w1 q)"
    using Compact_run [OF assms(1-5) leI [OF False], of flr] by blast
  have "compacts dir flr w ts rs w2"
    using groups_done_compacts [OF _ _ assms(4) R(2-5)] R(6) assms(1,2) unfolding adj by blast
  then show ?thesis
    using R(1) by blast
qed

section \<open>Files with one entry\<close>

lemma chunk_single: "chunk [] [e] = [[e]]"
  by simp

lemma length_bloom_of: "length (bits (bloom_of es)) = length (bits (NewBloomFilter DEFAULT_BLOOM_EXPECTED_KEYS))"
  using bloom_Add_all_length default_bloom(1) by blast

definition overhead :: nat where
  "overhead = 64 + (length (bits (NewBloomFilter DEFAULT_BLOOM_EXPECTED_KEYS)) + 7) div 8"

lemma overhead_bounds: "0 < overhead" "overhead \<le> 5000000"
  using NewBloomFilter_default(2) by (simp_all add: overhead_def)

lemma length_table_single:
  "length (table_bytes [e]) = 2 * length (be_Key e) + length (be_Value e) + overhead"
  unfolding table_bytes_def Let_def chunk_single
  by (simp add: blocks_bytes_def length_encodeBlock index_of_def block_index_def index_bytes_def length_Serialize
      length_bloom_of overhead_def entry_size_def)

lemma sst_path_long: "4 \<le> length (sst_path dir n)"
  by (simp add: sst_path_def lit_def)

text \<open>Four tables with one version each, in files with one-letter names.\<close>

definition version_entry :: "bytes \<Rightarrow> SeqNum \<Rightarrow> bytes \<Rightarrow> BlockEntry" where
  "version_entry u s v = BlockEntry (encode_key (MakeInternalKey u s InternalKeyKindSet)) v"

definition four :: "BlockEntry list \<Rightarrow> (SSTable \<times> BlockEntry list) list" where
  "four es = map2 (\<lambda>p e. (table_of [p] [e], [e])) [1, 2, 3, 4] es"

definition four_world :: "BlockEntry list \<Rightarrow> world" where
  "four_world es = world_of (map2 (\<lambda>p e. ([p], complete_file [e])) [1, 2, 3, 4] es)"

lemma dkey_version_entry [simp]:
  "dkey (version_entry u s v) = MakeInternalKey u s InternalKeyKindSet"
  "be_Value (version_entry u s v) = v" "length (be_Key (version_entry u s v)) = length u + 8"
  by (simp_all add: version_entry_def)

lemma four_holds:
  assumes "list_all (\<lambda>e. entry_size e < 2 ^ 28 \<and> key_Valid (dkey e)) [a, b, c, d]"
  shows "tables_hold (four_world [a, b, c, d]) (four [a, b, c, d])"
proof -
  have "table_holds (four_world [a, b, c, d]) (table_of [p] [e]) [e]"
    if pe: "(p, e) \<in> {(1, a), (2, b), (3, c), (4, d)}" for p e
  proof (rule table_holds_complete(1))
    show "fs_get (four_world [a, b, c, d]) [p] = Some (complete_file [e])"
      using pe by (auto simp: four_world_def world_of_def fs_get_def)
    have e: "e \<in> {a, b, c, d}"
      using pe by auto
    show "table_fits [e]"
      by (rule table_fits_limits) (use assms e in auto)
    show "sorted_versions (versions [e])"
      using assms e by (auto simp: sorted_versions_def entry_version_def)
  qed
  then show ?thesis
    by (simp add: tables_hold_def four_def table_of_def)
qed

lemma four_fresh: "clock_fresh dir (four_world [a, b, c, d])"
proof -
  have "sst_path dir n \<noteq> [p]" "sst_path dir n @ lit ''.tmp'' \<noteq> [p]" for n p
    using sst_path_long [of dir n] by (auto dest: arg_cong [of _ _ length])
  then show ?thesis
    by (simp add: clock_fresh_def four_world_def world_of_def fs_get_def)
qed

lemma four_sizes:
  "map (\<lambda>x. table_size (fst x) (four_world [a, b, c, d])) (four [a, b, c, d]) =
    map (\<lambda>e. int (length (table_bytes [e]))) [a, b, c, d]"
  by (simp add: four_def four_world_def table_size_def table_of_def world_of_def fs_get_def complete_file_def)

lemmas four_simps = four_def four_world_def newest_first_def newer_def less_InternalKey_def MakeInternalKey_def
  MakeTrailer_def key_Kind_def trailer_Kind_def key_Valid_def InternalKeyKindSet_def InternalKeyKindMax_def

text \<open>C40: Compaction puts tables into the same groups as the quadratic specification (each ungrouped table
  collects all later tables of similar size), and the groups partition the tables: none is lost, none
  is used twice, and no group is empty.\<close>

theorem grouping_partitions:
  "groupBySimilarSize tables w = group_spec (\<lambda>a b. isSimilarSize (table_size a w) (table_size b w)) tables \<and>
   mset (concat (groupBySimilarSize tables w)) = mset tables \<and> [] \<notin> set (groupBySimilarSize tables w)"
  using group_spec_nonempty by (auto simp: groupBySimilarSize_eq group_spec_mset)

lemma keep_one:
  "length (filter (\<lambda>e. UserKey (dkey e) = u \<and> key_SeqNum (dkey e) \<le> flr) (keep flr kept es)) \<le> (if kept u then 0 else 1)"
proof (induction es arbitrary: kept)
  case (Cons e es)
  have IH: "length (filter (\<lambda>e. UserKey (dkey e) = u \<and> key_SeqNum (dkey e) \<le> flr) (keep flr k es)) \<le> (if k u then 0 else 1)" for k
    by (rule Cons.IH)
  show ?case
    using IH [of kept] IH [of "kept(UserKey (dkey e) := True)"] by (auto simp del: fun_upd_apply simp: fun_upd_same fun_upd_other)
qed simp



text \<open>C33: Compaction keeps every read of a live snapshot. On a file system without faults, for tables listed
  newest first whose groups are runs of neighbours, \<^verbatim>\<open>Compact\<close> succeeds; the tables it returns are backed by
  complete files, are again newest first and together answer every lookup at or above the floor as
  before; and no file other than those of the given tables and newly named ones is touched.\<close>

theorem Compact_preserves_reads:
  assumes "tables_hold w ts" "newest_first (map snd ts)" "small_entries (concat (map snd ts))"
    and "clock_fresh dir w" "faults w = []" "adjacent_groups (map fst ts) w"
  shows "\<exists>ts' w'. Compact (map fst ts) dir flr w = (Inr (map fst ts'), w') \<and> tables_hold w' ts' \<and> newest_first (map snd ts') \<and>
    (\<forall>u s. flr \<le> s \<longrightarrow> level_lookup u s (map (versions \<circ> snd) ts') = level_lookup u s (map (versions \<circ> snd) ts)) \<and>
    (\<forall>q. q \<notin> FilePath ` fst ` set ts \<union> paths_between dir w w' \<longrightarrow> fs_get w' q = fs_get w q)"
proof -
  obtain ts' w' where C: "Compact (map fst ts) dir flr w = (Inr (map fst ts'), w')" "compacts dir flr w ts ts' w'"
    using Compact_correct [OF assms(1-5)] assms(6) by blast
  have nf: "newest_first (map snd ts')"
    using C(2) by (simp add: compacts_def)
  have "level_lookup u s (map (versions \<circ> snd) ts') = level_lookup u s (map (versions \<circ> snd) ts)" if "flr \<le> s" for u s
    using C(2) that level_lookup_concat [OF nf] level_lookup_concat [OF assms(2)]
    by (simp add: compacts_def lookup_spec_def)
  then have "\<forall>u s. flr \<le> s \<longrightarrow> level_lookup u s (map (versions \<circ> snd) ts') = level_lookup u s (map (versions \<circ> snd) ts)"
    by blast
  moreover have "tables_hold w' ts'"
    "\<forall>q. q \<notin> FilePath ` fst ` set ts \<union> paths_between dir w w' \<longrightarrow> fs_get w' q = fs_get w q"
    using C(2) by (simp_all add: compacts_def)
  ultimately show ?thesis
    using C(1) nf by (intro exI conjI)
qed

theorem Compact_preserves_reads_witness:
  "let ts = four [version_entry [7] 4 [1], version_entry [7] 3 [2], version_entry [7] 2 [3], version_entry [7] 1 [4]];
       w = four_world [version_entry [7] 4 [1], version_entry [7] 3 [2], version_entry [7] 2 [3], version_entry [7] 1 [4]]
   in \<exists>ts' w'. Compact (map fst ts) [47] 9 w = (Inr (map fst ts'), w') \<and>
        level_lookup [7] 9 (map (versions \<circ> snd) ts') = ([1], KEY_FOUND)"
proof -
  let ?a = "version_entry [7] 4 [1]" and ?b = "version_entry [7] 3 [2]" and ?c = "version_entry [7] 2 [3]"
    and ?d = "version_entry [7] 1 [4]"
  let ?ts = "four [?a, ?b, ?c, ?d]" and ?w = "four_world [?a, ?b, ?c, ?d]"
  have "tables_hold ?w ?ts"
    by (rule four_holds) (simp add: four_simps entry_size_def)
  moreover have "newest_first (map snd ?ts)"
    by (simp add: four_simps)
  moreover have "small_entries (concat (map snd ?ts))"
    by (simp add: four_def small_entries_def entry_size_def)
  moreover have "adjacent_groups (map fst ?ts) ?w"
    using four_sizes [of ?a ?b ?c ?d] overhead_bounds(1)
    by (simp add: adjacent_groups_def groupBySimilarSize_eq four_def length_table_single isSimilarSize_def
        DEFAULT_SIMILAR_SIZE_RATIO_def)
  moreover have read: "level_lookup [7] 9 (map (versions \<circ> snd) ?ts) = ([1], KEY_FOUND)"
    by (simp add: four_def lookup_spec_def newest_def answer_def matches_def Visible_def entry_version_def SeqNumMax_eq
        InternalKeyKindSet_def InternalKeyKindDelete_def)
  moreover have "faults ?w = []"
    by (simp add: four_world_def world_of_def)
  ultimately obtain ts' w' where "Compact (map fst ?ts) [47] 9 ?w = (Inr (map fst ts'), w')"
    "\<forall>u s. 9 \<le> s \<longrightarrow> level_lookup u s (map (versions \<circ> snd) ts') = level_lookup u s (map (versions \<circ> snd) ?ts)"
    using Compact_preserves_reads [of ?w ?ts "[47]" 9] four_fresh [of "[47]" ?a ?b ?c ?d] by blast
  then show ?thesis
    unfolding Let_def using read by (intro exI [of _ ts'] exI [of _ w']) simp
qed

lemma Compact_run_tables:
  assumes "tables_hold w ts" "newest_first (map snd ts)" "small_entries (concat (map snd ts))"
    and "clock_fresh dir w" "faults w = []" "DEFAULT_COMPACTION_THRESHOLD \<le> length ts"
  shows "\<exists>rs w2. Compact (map fst ts) dir flr w = (Inr (map fst rs), w2) \<and> tables_hold w2 rs \<and>
    map snd rs = concat (map (\<lambda>g. group_entries flr (map snd g)) (entry_groups w ts))"
proof -
  obtain rs w1 w2 where R: "Compact (map fst ts) dir flr w = (Inr (map fst rs), w2)"
    "groups_done dir flr w (entry_groups w ts) rs w1"
    "\<forall>q. fs_get w2 q = (if q \<in> FilePath ` fst ` set ts \<and> merged_path (entry_groups w ts) q then None else fs_get w1 q)"
    using Compact_run [OF assms, of flr] by blast
  have "tables_hold w2 rs"
    by (rule groups_done_tables [OF tables_hold_mset [OF entry_groups_mset assms(1)] assms(4) R(2)])
      (use R(3) in \<open>unfold entry_groups_set\<close>)
  then show ?thesis
    using R(1,2) by (auto simp: groups_done_def)
qed

text \<open>Without the assumption on neighbours reads can go back in time. Four tables hold, newest first, an
  unrelated key, a large value of a key, an older small value of the same key, and another unrelated
  key. The three small tables form a group and their merge is listed before the large table, so the
  older value is found first.\<close>

theorem Compact_stale_read:
  "\<exists>ts w ts' w'. tables_hold w ts \<and> newest_first (map snd ts) \<and> clock_fresh [47] w \<and> faults w = [] \<and>
     Compact (map fst ts) [47] 9 w = (Inr (map fst ts'), w') \<and> tables_hold w' ts' \<and>
     level_lookup [7] 9 (map (versions \<circ> snd) ts) = (replicate 100000000 0, KEY_FOUND) \<and>
     level_lookup [7] 9 (map (versions \<circ> snd) ts') = ([3], KEY_FOUND)"
proof -
  define big :: bytes where "big = replicate 100000000 0"
  let ?a = "version_entry [5] 4 [1]" and ?b = "version_entry [7] 3 big" and ?c = "version_entry [7] 2 [3]"
    and ?d = "version_entry [6] 1 [4]"
  let ?ts = "four [?a, ?b, ?c, ?d]" and ?w = "four_world [?a, ?b, ?c, ?d]"
  have big: "length big = 100000000"
    by (simp add: big_def)
  have hold: "tables_hold ?w ?ts"
    by (rule four_holds) (simp add: four_simps entry_size_def big)
  have nf: "newest_first (map snd ?ts)"
    by (simp add: four_simps)
  have small: "small_entries (concat (map snd ?ts))"
    by (simp add: four_def small_entries_def entry_size_def big)
  have ok: "faults ?w = []" "DEFAULT_COMPACTION_THRESHOLD \<le> length ?ts"
    by (simp_all add: four_def four_world_def world_of_def DEFAULT_COMPACTION_THRESHOLD_def)
  have "3 * (19 + int overhead) div (19 + int overhead) \<le> (100000018 + int overhead) div (19 + int overhead)"
    by (rule zdiv_mono1) (use overhead_bounds(2) in auto)
  moreover have "3 * (19 + int overhead) div (19 + int overhead) = 3"
    by (rule nonzero_mult_div_cancel_right) simp
  ultimately have "2 < (100000018 + int overhead) div (19 + int overhead)"
    by linarith
  then have groups: "entry_groups ?w ?ts = [[?ts ! 0, ?ts ! 2, ?ts ! 3], [?ts ! 1]]"
    using four_sizes [of ?a ?b ?c ?d] overhead_bounds(1)
    by (simp add: entry_groups_def four_def length_table_single isSimilarSize_def big DEFAULT_SIMILAR_SIZE_RATIO_def)
  have "concat (map (\<lambda>g. group_entries 9 (map snd g)) (entry_groups ?w ?ts)) = [mergeIterators [[?a], [?c], [?d]] 9, [?b]]"
    unfolding groups by (simp add: group_entries_def four_def)
  then obtain rs w2 where R: "Compact (map fst ?ts) [47] 9 ?w = (Inr (map fst rs), w2)" "tables_hold w2 rs"
    "map snd rs = [mergeIterators [[?a], [?c], [?d]] 9, [?b]]"
    using Compact_run_tables [OF hold nf small four_fresh ok, of "[47]" 9] by metis
  have "newest [7] 9 (versions (mergeIterators [[?a], [?c], [?d]] 9)) = Some (entry_version ?c)"
    by (subst mergeIterators_correct(4))
      (simp_all add: four_simps newest_def matches_def Visible_def entry_version_def SeqNumMax_eq key_SeqNum_def trailer_SeqNum_def)
  then have "level_lookup [7] 9 (map versions (map snd rs)) = ([3], KEY_FOUND)"
    unfolding R(3) by (simp add: lookup_spec_def answer_def entry_version_def InternalKeyKindSet_def InternalKeyKindDelete_def)
  moreover have "level_lookup [7] 9 (map (versions \<circ> snd) ?ts) = (big, KEY_FOUND)"
    by (simp add: four_def lookup_spec_def newest_def answer_def matches_def Visible_def entry_version_def SeqNumMax_eq
        InternalKeyKindSet_def InternalKeyKindDelete_def)
  ultimately show ?thesis
    using hold nf four_fresh ok(1) R(1,2) unfolding big_def map_map
    by (intro exI [of _ ?ts] exI [of _ ?w] exI [of _ rs] exI [of _ w2]) (simp add: big_def)
qed

end
