(* ===== verification/Sstable_Cache.thy ===== *)
theory Sstable_Cache
  imports Compaction
begin

text \<open>
  The shared block cache across changes of the set of tables. Reading a table only adds keys of that
  table's blocks to the cache, so no block of a file that does not exist yet can be cached, and the
  cache stays in agreement with the files when a flush adds a table or a compaction replaces some.
\<close>

section \<open>Which keys reads add\<close>

definition cache_keys :: "(gostring \<Rightarrow> bool) \<Rightarrow> block_cache \<Rightarrow> bool" where
  "cache_keys Q c \<longleftrightarrow> sharded.coherent (\<lambda>k _. Q k) c"

definition table_keys :: "(gostring \<Rightarrow> bool) \<Rightarrow> SSTable \<Rightarrow> bool" where
  "table_keys Q t \<longleftrightarrow> (\<forall>idx \<in> set (sst_index t). Q (cacheKey t idx))"

lemma left_triple: "(\<And>a b c. y = ((a, b), c) \<Longrightarrow> P) \<Longrightarrow> P"
  by (metis surj_pair)

lemma readBlock_keys:
  assumes "cache_keys Q c" "Q (cacheKey t idx)" "readBlock t idx c w = (r, c')"
  shows "cache_keys Q c'"
proof (cases "sst_cache t")
  case True
  obtain g c1 where g: "sharded_Get (cacheKey t idx) c = (g, c1)"
    by (cases "sharded_Get (cacheKey t idx) c")
  have "cache_keys Q c1"
    using sharded.coherent_get(1) [OF assms(1) [unfolded cache_keys_def] g] by (simp add: cache_keys_def)
  moreover from this have "cache_keys Q (sharded_Put (cacheKey t idx) es c1)" for es
    using sharded.coherent_put [of "\<lambda>k _. Q k" c1] assms(2) by (simp add: cache_keys_def)
  ultimately show ?thesis
    using assms(3) True g by (auto simp: readBlock_def split: option.splits sum.splits)
next
  case False
  with assms(1,3) show ?thesis by (simp add: readBlock_def)
qed

lemma loadBlock_keys:
  assumes "cache_keys Q c" "table_keys Q (si_sst it)" "loadBlock it c w = ((e, it'), c')"
  shows "cache_keys Q c'" "si_sst it' = si_sst it"
proof -
  show "si_sst it' = si_sst it"
    using assms(3) by (auto simp: loadBlock_def split: if_splits prod.splits sum.splits)
  have "cache_keys Q (snd (readBlock (si_sst it) (sst_index (si_sst it) ! si_blockIdx it) c w))"
    if "si_blockIdx it < length (sst_index (si_sst it))"
    using assms(2) that by (intro readBlock_keys [OF assms(1) _ prod.collapse [symmetric]]) (simp add: table_keys_def)
  then show "cache_keys Q c'"
    using assms(1,3) by (auto simp: loadBlock_def split: if_splits prod.splits sum.splits)
qed

lemma advance_keys:
  assumes "cache_keys Q c" "table_keys Q (si_sst it)" "advance it c w = ((b, it'), c')"
  shows "cache_keys Q c'" "si_sst it' = si_sst it"
proof -
  let ?it = "it\<lparr>si_pos := si_pos it + 1, si_blockIdx := si_blockIdx it + 1\<rparr>"
  obtain e it2 c2 where l: "loadBlock ?it c w = ((e, it2), c2)"
    by (rule left_triple)
  have "cache_keys Q c2" "si_sst it2 = si_sst it"
    using loadBlock_keys [OF assms(1) _ l] assms(2) by simp_all
  then show "cache_keys Q c'" "si_sst it' = si_sst it"
    using assms(1,3) l by (auto simp: advance_def Let_def split: if_splits)
qed

lemma scan_until_keys:
  assumes "cache_keys Q c" "table_keys Q (si_sst it)" "scan_until P it c w = (it', c')"
  shows "cache_keys Q c' \<and> si_sst it' = si_sst it"
  using assms
proof (induction P it c w rule: scan_until.induct)
  case (1 P it c w)
  show ?case
  proof (cases "si_valid it \<and> \<not> P (si_entries it ! si_pos it)")
    case True
    obtain b it1 c1 where a: "advance it c w = ((b, it1), c1)"
      by (rule left_triple)
    note A = advance_keys [OF 1(2,3) a]
    have step: "scan_until P it c w = (if b then scan_until P it1 c1 w else (it1, c1))"
      using True a by (subst scan_until.simps) (simp split: bool.splits)
    show ?thesis
      using 1(1) [OF True a [symmetric] refl] 1(4) A 1(3) unfolding step by (cases b) auto
  next
    case False
    then have "scan_until P it c w = (it, c)"
      by (subst scan_until.simps) auto
    with 1(2,4) show ?thesis by simp
  qed
qed

lemma sst_NewIterator_keys:
  assumes "cache_keys Q c" "table_keys Q t" "sst_NewIterator t lower s c w = (r, c')"
  shows "cache_keys Q c' \<and> (\<forall>it. r = Inr it \<longrightarrow> si_sst it = t)"
proof -
  define it0 where "it0 = \<lparr>si_sst = t, si_snapshot = s,
    si_blockIdx = (if searchIndex (sst_index t) (EncodeSearchKeyAt lower s) < 0 then 0
      else nat (searchIndex (sst_index t) (EncodeSearchKeyAt lower s))), si_entries = [], si_pos = 0, si_valid = False\<rparr>"
  let ?P = "\<lambda>e. InternalCompare bytes_Compare (DecodeInternalKey (be_Key e)) (MakeSearchKeyAt lower s) \<ge> 0"
  obtain e it1 c1 where l: "loadBlock it0 c w = ((e, it1), c1)"
    by (rule left_triple)
  obtain it2 c2 where s2: "scan_until ?P it1 c1 w = (it2, c2)"
    by (rule prod.exhaust)
  obtain it3 c3 where s3: "skipInvisible it2 c2 w = (it3, c3)"
    by (rule prod.exhaust)
  have 0: "si_sst it0 = t"
    by (simp add: it0_def)
  note 1 = loadBlock_keys [OF assms(1) _ l, unfolded 0, OF assms(2)]
  note 2 = scan_until_keys [OF 1(1) _ s2, unfolded 1(2), OF assms(2)]
  have 3: "cache_keys Q c3 \<and> si_sst it3 = si_sst it2"
    using scan_until_keys [of Q c2 it2 _ w it3 c3] 2 assms(2) s3 by (simp add: skipInvisible_def)
  show ?thesis
    using assms(3) l s2 s3 1 2 3
    by (auto simp: sst_NewIterator_def Let_def it0_def [symmetric] split: option.splits)
qed

lemma sst_Next_keys:
  assumes "cache_keys Q c" "table_keys Q (si_sst it)" "sst_Next it c w = (it', c')"
  shows "cache_keys Q c' \<and> si_sst it' = si_sst it"
proof -
  obtain b it1 c1 where a: "advance it c w = ((b, it1), c1)"
    by (rule left_triple)
  note A = advance_keys [OF assms(1,2) a]
  show ?thesis
    using assms(2,3) A a scan_until_keys [of Q c1 it1 _ w it' c']
    by (cases b) (auto simp: sst_Next_def skipInvisible_def)
qed

lemma Lookup_keys:
  assumes "cache_keys Q c" "table_keys Q t" "Lookup t u s c w = (r, c')"
  shows "cache_keys Q c'"
proof -
  obtain r1 c1 where n: "sst_NewIterator t u s c w = (r1, c1)"
    by (rule prod.exhaust)
  have "cache_keys Q c1"
    using sst_NewIterator_keys [OF assms(1,2) n] by simp
  then show ?thesis
    using assms(1,3) n by (auto simp: Lookup_def Let_def split: option.splits bool.splits sum.splits if_splits)
qed

section \<open>Future files are not cached\<close>

text \<open>Not a block of a file that a later clock reading will name.\<close>

definition past_key :: "gostring \<Rightarrow> world \<Rightarrow> gostring \<Rightarrow> bool" where
  "past_key dir w k \<longleftrightarrow> (\<forall>i \<ge> ticks w. \<forall>t idx. FilePath t = sst_path dir (clock w i) \<longrightarrow> k \<noteq> cacheKey t idx)"

lemma table_keys_past:
  assumes "clock_fresh dir w" "fs_get w (FilePath t) \<noteq> None"
  shows "table_keys (past_key dir w) t"
  using assms by (auto simp: table_keys_def past_key_def cacheKey_inj clock_fresh_def)

lemma cache_keys_mono: "cache_keys Q c \<Longrightarrow> (\<And>k. Q k \<Longrightarrow> Q' k) \<Longrightarrow> cache_keys Q' c"
  by (auto simp: cache_keys_def sharded.coherent_def)

lemma past_key_later: "clock w' = clock w \<Longrightarrow> ticks w \<le> ticks w' \<Longrightarrow> past_key dir w k \<Longrightarrow> past_key dir w' k"
  unfolding past_key_def by (metis le_trans)

lemma cache_keys_later:
  "cache_keys (past_key dir w) c \<Longrightarrow> clock w' = clock w \<Longrightarrow> ticks w \<le> ticks w' \<Longrightarrow> cache_keys (past_key dir w') c"
  by (erule cache_keys_mono) (rule past_key_later)

lemma load_block_data:
  "map_option fdata (fs_get w (FilePath t)) = map_option fdata (fs_get w' (FilePath t)) \<Longrightarrow> load_block t idx w = load_block t idx w'"
  by (auto simp: load_block_def os_ReadFile_def split: option.splits)

text \<open>The tables change: each one is an old one, its file unchanged, or has a file with a new name.\<close>

lemma cache_ok_change:
  assumes "cache_ok T w c" "cache_keys (past_key dir w) c" "clock w' = clock w"
    and "\<And>t'. t' \<in> T' \<Longrightarrow> FilePath t' \<in> paths_between dir w w' \<or>
      (\<exists>t \<in> T. FilePath t' = FilePath t \<and> sst_index t' = sst_index t \<and>
        map_option fdata (fs_get w' (FilePath t)) = map_option fdata (fs_get w (FilePath t)))"
  shows "cache_ok T' w' c"
proof -
  have "block_cached T' w' k es" if h: "sharded_holds c k = Some es" for k es
    unfolding block_cached_def
  proof (intro ballI impI)
    fix t' idx
    assume t': "t' \<in> T'" and idx: "idx \<in> set (sst_index t')" "k = cacheKey t' idx"
    have past: "past_key dir w k" and cached: "block_cached T w k es"
      using h assms(1,2) by (auto simp: cache_ok_def cache_keys_def sharded.coherent_def)
    have "FilePath t' \<notin> paths_between dir w w'"
      using past idx(2) unfolding past_key_def paths_between_def by fastforce
    then obtain t where t: "t \<in> T" "FilePath t' = FilePath t" "sst_index t' = sst_index t"
      "map_option fdata (fs_get w' (FilePath t)) = map_option fdata (fs_get w (FilePath t))"
      using assms(4) [OF t'] by blast
    have "load_block t idx w = Inr es"
      using cached t(1,3) idx t(2) by (auto simp: block_cached_def cacheKey_inj)
    moreover have "load_block t' idx w' = load_block t idx w"
      using load_block_data [of w' t w idx] t(2,4) by (simp add: load_block_def)
    ultimately show "load_block t' idx w' = Inr es"
      by simp
  qed
  then show ?thesis
    using assms(1) by (simp add: cache_ok_def sharded.coherent_def)
qed

end
