(* ===== verification/Database.thy ===== *)
theory Database
  imports Wal_Durability Watermark Sstable_Cache
begin

text \<open>
  Model of the package \<^verbatim>\<open>db\<close> without the merging iterator: opening a database, reads at snapshots, writes,
  flushing and compaction. An operation takes the database and the \<open>world\<close> and returns them updated; it
  runs as one step, as under \<^verbatim>\<open>db.mu\<close>. The ordered tree of the memtable is the argument \<open>bt\<close>. A
  panic while decoding a damaged table inside a lookup or while opening is not told apart from an error.
\<close>

section \<open>Definitions\<close>

record 't DB =
  db_wal :: WAL
  db_memtable :: "'t MemTable"
  db_sstables :: "SSTable list"
  db_conf :: Config
  db_blockCache :: block_cache
  db_seqNum :: SeqNum
  db_watermark :: Watermark

definition ErrKeyTooLong :: go_error where
  "ErrKeyTooLong = ErrMsg (lit ''key exceeds '' @ dec_nat MAX_KEY_LENGTH @ lit '' bytes'')"

definition ErrValueTooLong :: go_error where
  "ErrValueTooLong = ErrMsg (lit ''value exceeds '' @ dec_nat MAX_VALUE_LENGTH @ lit '' bytes'')"

subsection \<open>Opening\<close>

text \<open>Directories are implicit in the paths of the files; making one can fail.\<close>

definition os_MkdirAll :: "gostring \<Rightarrow> unit io" where
  "os_MkdirAll p w = (case sys_fault w of (Some _, w') \<Rightarrow> (Inl ErrIO, w') | (None, w') \<Rightarrow> (Inr (), w'))"

definition rebuild_entry :: "'t btree \<Rightarrow> Entry \<Rightarrow> 't MemTable \<times> SeqNum \<Rightarrow> 't MemTable \<times> SeqNum" where
  "rebuild_entry bt e s =
     (case s of (mem, maxSeq) \<Rightarrow>
        (let ik = DecodeInternalKey (Key e);
             seq = key_SeqNum ik
         in (if key_Kind ik = InternalKeyKindDelete then memtable_Delete bt (Key e) mem
             else memtable_Put bt (Key e) (Value e) mem,
             if seq > maxSeq then seq else maxSeq)))"

definition rebuildMemtable :: "'t btree \<Rightarrow> WAL \<Rightarrow> world \<Rightarrow> (go_error + 't MemTable \<times> SeqNum) \<times> WAL \<times> world" where
  "rebuildMemtable bt walObj w =
     (case Replay walObj w of
        (Inl e, walObj', w') \<Rightarrow> (Inl e, walObj', w')
      | (Inr entries, walObj', w') \<Rightarrow> (Inr (fold (rebuild_entry bt) entries (NewMemTable bt, 0)), walObj', w'))"

definition max_seq :: "BlockEntry list \<Rightarrow> SeqNum \<Rightarrow> SeqNum" where
  "max_seq entries maxSeq =
     fold (\<lambda>e m. let seq = key_SeqNum (DecodeInternalKey (be_Key e)) in if seq > m then seq else m) entries maxSeq"

fun max_seq_tables :: "SSTable list \<Rightarrow> SeqNum \<Rightarrow> world \<Rightarrow> go_error + SeqNum" where
  "max_seq_tables [] maxSeq w = Inr maxSeq"
| "max_seq_tables (sst # tables) maxSeq w =
     (case NewBlockIterator sst w of
        Inl e \<Rightarrow> Inl e
      | Inr entries \<Rightarrow> max_seq_tables tables (max_seq entries maxSeq) w)"

definition maxSeqNumInTables :: "SSTable list \<Rightarrow> world \<Rightarrow> go_error + SeqNum" where
  "maxSeqNumInTables tables w = max_seq_tables tables 0 w"

definition db_Open :: "'t btree \<Rightarrow> Config \<Rightarrow> 't DB io" where
  "db_Open bt conf w =
     (case os_MkdirAll (SSTDir conf) w of
        (Inl e, w1) \<Rightarrow> (Inl e, w1)
      | (Inr _, w1) \<Rightarrow>
          (case wal_Open (WALPath conf) w1 of
             (Inl e, w2) \<Rightarrow> (Inl e, w2)
           | (Inr walObj, w2) \<Rightarrow>
               (case rebuildMemtable bt walObj w2 of
                  (Inl e, _, w3) \<Rightarrow> (Inl e, w3)
                | (Inr (mem, walMaxSeq), walObj', w3) \<Rightarrow>
                    (case OpenAllInDir (SSTDir conf) w3 of
                       Inl e \<Rightarrow> (Inl e, w3)
                     | Inr opened \<Rightarrow>
                         (let blockCache = NewShardedLRU DEFAULT_CACHE_SHARD_COUNT
                                (DEFAULT_BLOCK_CACHE_ENTRIES div DEFAULT_CACHE_SHARD_COUNT);
                              tables = map SetCache opened
                          in case maxSeqNumInTables tables w3 of
                               Inl e \<Rightarrow> (Inl e, w3)
                             | Inr sstMaxSeq \<Rightarrow>
                                 (Inr \<lparr>db_wal = walObj', db_memtable = mem, db_sstables = tables, db_conf = conf,
                                       db_blockCache = blockCache, db_seqNum = max walMaxSeq sstMaxSeq,
                                       db_watermark = NewWatermark\<rparr>, w3))))))"

subsection \<open>Reads\<close>

fun search_tables :: "SSTable list \<Rightarrow> bytes \<Rightarrow> SeqNum \<Rightarrow> block_cache \<Rightarrow> world \<Rightarrow> (bytes \<times> bool) \<times> block_cache" where
  "search_tables [] key snapshot c w = (([], False), c)"
| "search_tables (sst # tables) key snapshot c w =
     (case Lookup sst key snapshot c w of
        ((val, st, err), c1) \<Rightarrow>
          if err \<noteq> None then (([], False), c1)
          else if st = KEY_DELETED then (([], False), c1)
          else if st = KEY_FOUND then ((val, True), c1)
          else search_tables tables key snapshot c1 w)"

definition searchSSTables :: "bytes \<Rightarrow> SeqNum \<Rightarrow> 't DB \<Rightarrow> world \<Rightarrow> (bytes \<times> bool) \<times> 't DB" where
  "searchSSTables key snapshot db w =
     (case search_tables (db_sstables db) key snapshot (db_blockCache db) w of
        (r, c) \<Rightarrow> (r, db\<lparr>db_blockCache := c\<rparr>))"

definition GetAt :: "'t btree \<Rightarrow> gostring \<Rightarrow> SeqNum \<Rightarrow> 't DB \<Rightarrow> world \<Rightarrow> (bytes \<times> bool) \<times> 't DB" where
  "GetAt bt key snapshot db w =
     (case memtable_Get bt key snapshot (db_memtable db) of
        (val, KEY_FOUND) \<Rightarrow> ((val, True), db)
      | (_, KEY_DELETED) \<Rightarrow> (([], False), db)
      | (_, KEY_ABSENT) \<Rightarrow> searchSSTables key snapshot db w)"

definition Get :: "'t btree \<Rightarrow> gostring \<Rightarrow> 't DB \<Rightarrow> world \<Rightarrow> (bytes \<times> bool) \<times> 't DB" where
  "Get bt key db w = GetAt bt key SeqNumMax db w"

definition GetSnapshot :: "'t DB \<Rightarrow> SeqNum \<times> 't DB" where
  "GetSnapshot db = (let snap = db_seqNum db in (snap, db\<lparr>db_watermark := Begin snap (db_watermark db)\<rparr>))"

definition ReleaseSnapshot :: "SeqNum \<Rightarrow> 't DB \<Rightarrow> 't DB" where
  "ReleaseSnapshot snap db = db\<lparr>db_watermark := Done snap (db_watermark db)\<rparr>"

subsection \<open>Flushing\<close>

text \<open>The handle is in append mode, so \<^verbatim>\<open>Seek(0, 0)\<close> does not change where writes go.\<close>

definition resetWAL :: "'t DB \<Rightarrow> world \<Rightarrow> (go_error option \<times> 't DB) \<times> world" where
  "resetWAL db w =
     (let path = bw_path (BufWriter (db_wal db))
      in case file_Truncate path 0 w of
           (Inl e, w1) \<Rightarrow> ((Some e, db), w1)
         | (Inr _, w1) \<Rightarrow> ((None, db\<lparr>db_wal := (db_wal db)\<lparr>BufWriter := bw_new path None\<rparr>\<rparr>), w1))"

definition flushMemtableLocked :: "'t btree \<Rightarrow> 't DB \<Rightarrow> world \<Rightarrow> (go_error option \<times> 't DB) \<times> world" where
  "flushMemtableLocked bt db w =
     (case Flush bt (db_memtable db) (SSTDir (db_conf db)) w of
        (Inl e, w1) \<Rightarrow> ((Some e, db), w1)
      | (Inr sst, w1) \<Rightarrow>
          (let db1 = db\<lparr>db_sstables := SetCache sst # db_sstables db, db_memtable := NewMemTable bt\<rparr>
           in case resetWAL db1 w1 of
                ((Some e, db2), w2) \<Rightarrow> ((Some e, db2), w2)
              | ((None, db2), w2) \<Rightarrow>
                  (case Compact (db_sstables db2) (SSTDir (db_conf db2)) (Floor (db_watermark db2)) w2 of
                     (Inl e, w3) \<Rightarrow> ((Some e, db2), w3)
                   | (Inr compacted, w3) \<Rightarrow> ((None, db2\<lparr>db_sstables := map SetCache compacted\<rparr>), w3))))"

definition ForceFlush :: "'t btree \<Rightarrow> 't DB \<Rightarrow> world \<Rightarrow> (go_error option \<times> 't DB) \<times> world" where
  "ForceFlush bt db w = flushMemtableLocked bt db w"

definition flushIfFullLocked :: "'t btree \<Rightarrow> 't DB \<Rightarrow> world \<Rightarrow> (go_error option \<times> 't DB) \<times> world" where
  "flushIfFullLocked bt db w =
     (if memtable_Size (db_memtable db) < DEFAULT_MEMTABLE_FLUSH_SIZE then ((None, db), w)
      else flushMemtableLocked bt db w)"

definition db_Close :: "'t DB \<Rightarrow> world \<Rightarrow> (go_error option \<times> 't DB) \<times> world" where
  "db_Close db w = (case wal_Sync (db_wal db) w of ((e, l), w1) \<Rightarrow> ((e, db\<lparr>db_wal := l\<rparr>), w1))"

subsection \<open>Writes\<close>

definition encodeNextKey :: "bytes \<Rightarrow> InternalKeyKind \<Rightarrow> 't DB \<Rightarrow> bytes \<times> 't DB" where
  "encodeNextKey userKey kind db =
     (let seqNum = db_seqNum db + 1
      in (encode_key (MakeInternalKey userKey seqNum kind), db\<lparr>db_seqNum := seqNum\<rparr>))"

definition Put :: "'t btree \<Rightarrow> gostring \<Rightarrow> gostring \<Rightarrow> 't DB \<Rightarrow> world \<Rightarrow> (go_error option \<times> 't DB) \<times> world" where
  "Put bt key value db w =
     (if length key > MAX_KEY_LENGTH then ((Some ErrKeyTooLong, db), w)
      else if length value > MAX_VALUE_LENGTH then ((Some ErrValueTooLong, db), w)
      else (case encodeNextKey key InternalKeyKindSet db of
              (internalKey, db1) \<Rightarrow>
                (case wal_Put internalKey value (db_wal db1) w of
                   ((Some e, l), w1) \<Rightarrow> ((Some e, db1\<lparr>db_wal := l\<rparr>), w1)
                 | ((None, l), w1) \<Rightarrow>
                     flushIfFullLocked bt
                       (db1\<lparr>db_wal := l, db_memtable := memtable_Put bt internalKey value (db_memtable db1)\<rparr>) w1)))"

definition Delete :: "'t btree \<Rightarrow> gostring \<Rightarrow> 't DB \<Rightarrow> world \<Rightarrow> (go_error option \<times> 't DB) \<times> world" where
  "Delete bt key db w =
     (if length key > MAX_KEY_LENGTH then ((Some ErrKeyTooLong, db), w)
      else (case encodeNextKey key InternalKeyKindDelete db of
              (internalKey, db1) \<Rightarrow>
                (case wal_Delete internalKey (db_wal db1) w of
                   ((Some e, l), w1) \<Rightarrow> ((Some e, db1\<lparr>db_wal := l\<rparr>), w1)
                 | ((None, l), w1) \<Rightarrow>
                     flushIfFullLocked bt
                       (db1\<lparr>db_wal := l, db_memtable := memtable_Delete bt internalKey (db_memtable db1)\<rparr>) w1)))"

subsection \<open>Printing the memtable\<close>

text \<open>What \<^verbatim>\<open>PrintMemTable\<close> writes to standard output.\<close>

definition PrintMemTable :: "'t btree \<Rightarrow> 't DB \<Rightarrow> gostring" where
  "PrintMemTable bt db =
     [10] @ lit ''--- Memtable (sorted keys) ---'' @ [10] @
     memtable_Ascend bt (\<lambda>key value out.
         let ik = DecodeInternalKey key
         in (True, out @ UserKey ik @ lit ''@'' @ dec_nat (unat (key_SeqNum ik)) @ lit '' => '' @
               (if key_Kind ik = InternalKeyKindDelete then lit ''[tombstone]'' else value) @ [10]))
       (db_memtable db) [] @
     [10] @ lit ''--- Memtable Ended ---'' @ [10] @ [10]"

end
