(* ===== verification/Db_Refinement.thy ===== *)
theory Db_Refinement
  imports Database
begin

text \<open>
  The database refines a history of versions. The history is split into the part \<open>F\<close> that has been
  flushed and the entries \<open>es\<close> that are in the log and the memtable. The invariant \<open>db_inv\<close> relates
  them to the state; every operation preserves it, and a read at a live snapshot (one that is pinned,
  or not older than the last write) returns what the history says.
\<close>

section \<open>Writing to the log\<close>

text \<open>A run of a buffered writer on the file \<open>p\<close> changes no other file, and without faults it succeeds.\<close>

definition calm :: "gostring \<Rightarrow> BufWriter \<Rightarrow> world \<Rightarrow> go_error option \<Rightarrow> BufWriter \<Rightarrow> world \<Rightarrow> bool" where
  "calm p b w e b' w' \<longleftrightarrow>
     only_touches p w w' \<and> bw_path b' = p \<and>
     (faults w = [] \<and> bw_err b = None \<and> fs_get w p \<noteq> None \<longrightarrow>
        e = None \<and> bw_err b' = None \<and> faults w' = [] \<and> fs_get w' p \<noteq> None)"

lemma calm_trans:
  assumes "calm p b w None b1 w1" "calm p b1 w1 e b2 w2"
  shows "calm p b w e b2 w2"
  using assms only_touches_trans unfolding calm_def by blast

lemma bw_raw_calm:
  assumes "bw_path b = p" "bw_raw b q w = ((n, b'), w')"
  shows "calm p b w (bw_err b') b' w'"
proof -
  obtain fault w1 where s: "sys_fault w = (fault, w1)"
    by (cases "sys_fault w")
  note fr = sys_fault_frame [OF s]
  have "only_touches p w w'"
    using assms s fr(1) only_touches_trans [OF fr(1) only_touches_put]
    by (auto simp: bw_raw_def file_Write_def Let_def split: option.splits)
  moreover have "bw_err b' = None \<and> faults w' = [] \<and> fs_get w' p \<noteq> None" if "faults w = []" "fs_get w p \<noteq> None"
    using assms s fr that by (auto simp: bw_raw_def file_Write_def Let_def)
  moreover have "bw_path b' = p"
    using assms by (auto simp: bw_raw_def split: prod.splits)
  ultimately show ?thesis
    by (auto simp: calm_def)
qed

lemma bw_Flush_calm:
  assumes "bw_path b = p" "bw_Flush b w = ((e, b'), w')"
  shows "calm p b w e b' w'"
proof (cases "bw_err b \<noteq> None \<or> bw_buf b = []")
  case True
  with assms show ?thesis by (auto simp: bw_Flush_def calm_def split: if_splits)
next
  case False
  obtain n b1 w1 where r: "bw_raw b (bw_buf b) w = ((n, b1), w1)"
    by (rule left_triple)
  show ?thesis
    using bw_raw_calm [OF assms(1) r] False assms(2) r by (auto simp: bw_Flush_def calm_def)
qed

lemma bw_Write_fit_calm:
  assumes "bw_path b = p" "bw_Write_fit b q w = ((e, b'), w')"
  shows "calm p b w e b' w'"
proof (cases "length q > bw_Available b")
  case True
  obtain n b1 w1 where r: "bw_raw b q w = ((n, b1), w1)"
    by (rule left_triple)
  show ?thesis
    using bw_raw_calm [OF assms(1) r] True assms(2) r by (auto simp: bw_Write_fit_def)
next
  case False
  with assms show ?thesis by (auto simp: bw_Write_fit_def calm_def)
qed

lemma bw_Write_calm:
  assumes "bw_path b = p" "bw_Write b q w = ((e, b'), w')"
  shows "calm p b w e b' w'"
proof (cases "bw_err b \<noteq> None \<or> bw_buf b = [] \<or> length q \<le> bw_Available b")
  case True
  then show ?thesis
    using assms bw_Write_fit_calm [OF assms(1), of q w e b' w'] by (auto simp: bw_Write_def calm_def split: if_splits)
next
  case False
  let ?k = "bw_Available b"
  obtain e1 b1 w1 where f: "bw_Flush (b\<lparr>bw_buf := bw_buf b @ take ?k q\<rparr>) w = ((e1, b1), w1)"
    by (rule left_triple)
  have 1: "calm p b w e1 b1 w1"
    using bw_Flush_calm [OF _ f, of p] assms(1) by (simp add: calm_def)
  show ?thesis
  proof (cases e1)
    case (Some x)
    then show ?thesis using False assms(2) f 1 by (simp add: bw_Write_def)
  next
    case None
    then have w: "bw_Write_fit b1 (drop ?k q) w1 = ((e, b'), w')"
      using False assms(2) f by (simp add: bw_Write_def)
    have "bw_path b1 = p"
      using 1 by (simp add: calm_def)
    then show ?thesis
      using calm_trans [OF 1 [unfolded None] bw_Write_fit_calm [OF _ w]] by simp
  qed
qed

lemma wal_buf_write_calm:
  assumes "bw_path (BufWriter l) = p" "wal_buf_write q l w = ((e, l'), w')"
  shows "calm p (BufWriter l) w e (BufWriter l') w'"
  using assms bw_Write_calm [OF assms(1)] by (auto simp: wal_buf_write_def split: prod.splits)

lemma Append_calm:
  assumes "bw_path (BufWriter l) = p" "Append x l w = ((e, l'), w')"
  shows "calm p (BufWriter l) w e (BufWriter l') w'"
proof -
  let ?d = "writeDataBuff x"
  obtain e1 l1 w1 where 1: "wal_buf_write (PutUint32 (word_of_nat (length ?d) + 4)) l w = ((e1, l1), w1)"
    by (rule left_triple)
  obtain e2 l2 w2 where 2: "wal_buf_write ?d l1 w1 = ((e2, l2), w2)"
    by (rule left_triple)
  note c1 = wal_buf_write_calm [OF assms(1) 1]
  have p1: "bw_path (BufWriter l1) = p"
    using c1 by (simp add: calm_def)
  note c2 = wal_buf_write_calm [OF p1 2]
  have p2: "bw_path (BufWriter l2) = p"
    using c2 by (simp add: calm_def)
  show ?thesis
  proof (cases e1)
    case (Some y)
    then show ?thesis using assms(2) 1 c1 by (simp add: Append_def)
  next
    case e1: None
    note c12 = calm_trans [OF c1 [unfolded e1] c2]
    show ?thesis
    proof (cases e2)
      case (Some y)
      then show ?thesis using assms(2) 1 2 e1 c12 by (simp add: Append_def)
    next
      case None
      then have "wal_buf_write (PutUint32 (ChecksumIEEE ?d)) l2 w2 = ((e, l'), w')"
        using assms(2) 1 2 e1 by (simp add: Append_def)
      from calm_trans [OF c12 [unfolded None] wal_buf_write_calm [OF p2 this]] show ?thesis .
    qed
  qed
qed

lemma wal_Sync_calm:
  assumes "bw_path (BufWriter l) = p" "wal_Sync l w = ((e, l'), w')"
  shows "calm p (BufWriter l) w e (BufWriter l') w'"
proof -
  obtain e1 b1 w1 where f: "bw_Flush (BufWriter l) w = ((e1, b1), w1)"
    by (rule left_triple)
  note c = bw_Flush_calm [OF assms(1) f]
  have p1: "bw_path b1 = p"
    using c by (simp add: calm_def)
  show ?thesis
  proof (cases e1)
    case (Some y)
    then show ?thesis using assms(2) f c by (auto simp: wal_Sync_def)
  next
    case None
    obtain fault w2 where s: "sys_fault w1 = (fault, w2)"
      by (cases "sys_fault w1")
    note fr = sys_fault_frame [OF s]
    have "only_touches p w1 w'"
      using assms(2) f None s p1 fr only_touches_trans [OF fr(1) only_touches_put]
      by (auto simp: wal_Sync_def file_Sync_def split: option.splits)
    moreover have "BufWriter l' = b1"
      using assms(2) f None by (auto simp: wal_Sync_def split: sum.splits prod.splits)
    moreover have "e = None \<and> faults w' = [] \<and> fs_get w' p \<noteq> None" if "faults w1 = []" "fs_get w1 p \<noteq> None"
      using assms(2) f None s p1 fr that by (auto simp: wal_Sync_def file_Sync_def)
    ultimately have "calm p b1 w1 e (BufWriter l') w'"
      using p1 by (auto simp: calm_def)
    then show ?thesis
      using calm_trans [OF c [unfolded None]] by simp
  qed
qed

lemma wal_write_calm:
  assumes "bw_path (BufWriter l) = p" "wal_write k v l w = ((e, l'), w')"
  shows "calm p (BufWriter l) w e (BufWriter l') w'"
proof -
  obtain e1 l1 w1 where a: "Append (Entry k v) l w = ((e1, l1), w1)"
    by (rule left_triple)
  note c = Append_calm [OF assms(1) a]
  let ?l = "l1\<lparr>putCounter := putCounter l1 + 1\<rparr>"
  obtain e2 l2 w2 where s: "wal_Sync ?l w1 = ((e2, l2), w2)"
    by (rule left_triple)
  have "bw_path (BufWriter ?l) = p"
    using c by (simp add: calm_def)
  note c2 = wal_Sync_calm [OF this s]
  show ?thesis
  proof (cases e1)
    case (Some y)
    then show ?thesis using assms(2) a c by (simp add: wal_write_def)
  next
    case None
    then show ?thesis
      using assms(2) a s c calm_trans [OF c [unfolded None], of e2 "BufWriter l2" w2] c2
      by (cases e2) (auto simp: wal_write_def Let_def split: if_splits)
  qed
qed

section \<open>Histories\<close>

definition ent_version :: "Entry \<Rightarrow> version" where
  "ent_version e = (DecodeInternalKey (Key e), Value e)"

abbreviation seq_of :: "version \<Rightarrow> SeqNum" where
  "seq_of kv \<equiv> key_SeqNum (fst kv)"

text \<open>Versions in the order they were written, with increasing sequence numbers up to \<open>n\<close>.\<close>

definition hist_ok :: "SeqNum \<Rightarrow> version list \<Rightarrow> bool" where
  "hist_ok n H \<longleftrightarrow>
     sorted_wrt (\<lambda>a b. seq_of a < seq_of b) H \<and>
     (\<forall>kv \<in> set H. seq_of kv \<le> n \<and> wf_version kv \<and> length (UserKey (fst kv)) \<le> MAX_KEY_LENGTH \<and>
        length (snd kv) \<le> MAX_VALUE_LENGTH)"

text \<open>The answer of a read: the value, and whether there is one.\<close>

definition found :: "bytes \<times> KEY_LOOKUP_ENUM \<Rightarrow> bytes \<times> bool" where
  "found r = (if snd r = KEY_FOUND then (fst r, True) else ([], False))"

definition hist_get :: "gostring \<Rightarrow> SeqNum \<Rightarrow> version list \<Rightarrow> bytes \<times> bool" where
  "hist_get u s H = found (lookup_spec u s H)"

lemma seq_less_key:
  assumes "UserKey a = UserKey b" "key_SeqNum b < key_SeqNum a"
  shows "a < b"
  using assms trailer_le_iff [of "Trailer a" "Trailer b"]
  by (auto simp: less_InternalKey_def key_SeqNum_def not_le [symmetric])

lemma hist_ok_append: "hist_ok n (F @ E) \<Longrightarrow> hist_ok n F \<and> hist_ok n E"
  by (auto simp: hist_ok_def sorted_wrt_append)

lemma hist_ok_mono: "hist_ok n H \<Longrightarrow> n \<le> m \<Longrightarrow> hist_ok m H"
  by (auto simp: hist_ok_def)

lemma hist_ok_fun:
  assumes "hist_ok n H" "x \<in> set H" "y \<in> set H" "fst x = fst y"
  shows "x = y"
proof -
  have "sorted_wrt (<) (map seq_of H)"
    using assms(1) by (simp add: hist_ok_def sorted_wrt_map)
  then have "inj_on seq_of (set H)"
    by (simp add: strict_sorted_iff distinct_map)
  then show ?thesis
    using assms(2-4) by (metis inj_onD)
qed

lemma newest_split:
  assumes "hist_ok n (F @ E)"
  shows "newest u s (F @ E) = (case newest u s E of None \<Rightarrow> newest u s F | Some v \<Rightarrow> Some v)"
proof (cases "newest u s E")
  case None
  then have "filter (matches u s) E = []"
    by (simp add: newest_None_iff filter_empty_conv)
  then show ?thesis
    by (simp add: None newest_def)
next
  case (Some v)
  note v = newest_Some [OF Some]
  have "newest u s (F @ E) \<noteq> None"
    using v(1,2) by (auto simp: newest_None_iff)
  then obtain r where r: "newest u s (F @ E) = Some r"
    by blast
  note R = newest_Some [OF r]
  have "fst r \<le> fst v"
    using R(3) [of v] v(1,2) by simp
  moreover have "fst v < fst r" if "r \<in> set F"
    using that assms v(1,2) R(2) by (intro seq_less_key) (auto simp: hist_ok_def sorted_wrt_append matches_def)
  ultimately have "r \<in> set E"
    using R(1) by auto
  then have "fst r = fst v"
    using v(3) [of r] R(2) \<open>fst r \<le> fst v\<close> by simp
  then have "r = v"
    using hist_ok_fun [OF assms] R(1) v(1) by simp
  then show ?thesis
    by (simp add: Some r)
qed

lemma newest_all_visible:
  assumes "\<forall>kv \<in> set X. seq_of kv \<le> s" "\<forall>kv \<in> set X. seq_of kv \<le> t"
  shows "newest u s X = newest u t X"
proof -
  have "filter (matches u s) X = filter (matches u t) X"
    using assms by (intro filter_cong) (auto simp: matches_def Visible_def)
  then show ?thesis by (simp add: newest_def)
qed

lemma versions_mt_entries: "versions (mt_entries bt mt) = mt_versions bt mt"
  by (simp add: versions_def mt_entries_def mt_versions_def item_version_def item_entry_def ikey_def entry_version_def)

lemma entry_small:
  assumes "length (UserKey (dkey e)) \<le> MAX_KEY_LENGTH" "length (be_Value e) \<le> MAX_VALUE_LENGTH"
  shows "entry_size e < 2 ^ 28"
proof -
  have "length (be_Key e) \<le> length (UserKey (dkey e)) + 8"
    by (simp add: DecodeInternalKey_def InternalTrailerLen_def Let_def) linarith
  then show ?thesis
    using assms by (simp add: entry_size_def MAX_KEY_LENGTH_def MAX_VALUE_LENGTH_def)
qed

section \<open>Searching the tables\<close>

lemma search_tables_spec:
  assumes "tables_hold w ts" "set sub \<subseteq> set ts" "cache_ok (fst ` set ts) w c" "s \<le> SeqNumMax"
    and "cache_keys Q c" "\<forall>t \<in> fst ` set ts. table_keys Q t"
  shows "\<exists>c'. search_tables (map fst sub) u s c w = (found (level_lookup u s (map (versions \<circ> snd) sub)), c') \<and>
    cache_ok (fst ` set ts) w c' \<and> cache_keys Q c'"
  using assms(2,3,5)
proof (induction sub arbitrary: c)
  case Nil
  then show ?case by (simp add: found_def)
next
  case (Cons x sub)
  obtain t es where x: "x = (t, es)"
    by (cases x)
  let ?r = "lookup_spec u s (versions es)"
  obtain c1 where l: "Lookup t u s c w = ((fst ?r, snd ?r, None), c1)" "cache_ok (fst ` set ts) w c1"
    using Lookup_table [OF assms(1) _ Cons.prems(2) assms(4), of t es u] Cons.prems(1) x by auto
  have "table_keys Q t"
    using assms(6) Cons.prems(1) x by force
  then have k1: "cache_keys Q c1"
    using Lookup_keys [OF Cons.prems(3) _ l(1)] by blast
  show ?case
    using Cons.IH [OF _ l(2) k1] Cons.prems(1) l k1 x
    by (cases "snd ?r") (auto simp: found_def)
qed

section \<open>The invariant\<close>

text \<open>Snapshots whose reads must be exact: pinned, or not older than the last write.\<close>

definition live :: "'t DB \<Rightarrow> SeqNum \<Rightarrow> bool" where
  "live db s \<longleftrightarrow> s \<le> SeqNumMax \<and> (db_seqNum db \<le> s \<or> 0 < refcount (db_watermark db) s)"

abbreviation table_versions :: "(SSTable \<times> BlockEntry list) list \<Rightarrow> version list" where
  "table_versions ts \<equiv> versions (concat (map snd ts))"

definition tables_for :: "'t DB \<Rightarrow> version list \<Rightarrow> (SSTable \<times> BlockEntry list) list \<Rightarrow> world \<Rightarrow> bool" where
  "tables_for db F ts w \<longleftrightarrow>
     db_sstables db = map fst ts \<and> tables_hold w ts \<and> newest_first (map snd ts) \<and>
     set (table_versions ts) \<subseteq> set F \<and> length (concat (map snd ts)) \<le> length F \<and>
     (\<forall>u s. live db s \<longrightarrow> newest u s (table_versions ts) = newest u s F)"

definition mem_for :: "'t btree \<Rightarrow> ('t \<Rightarrow> bool) \<Rightarrow> Entry list \<Rightarrow> 't DB \<Rightarrow> bool" where
  "mem_for bt ok es db \<longleftrightarrow>
     mt_inv bt ok (db_memtable db) \<and> set (mt_versions bt (db_memtable db)) = ent_version ` set es"

definition log_for :: "Entry list \<Rightarrow> 't DB \<Rightarrow> world \<Rightarrow> bool" where
  "log_for es db w \<longleftrightarrow>
     wal_inv es (db_wal db) w \<and> bw_err (BufWriter (db_wal db)) = None \<and>
     putCounter (db_wal db) < DEFAULT_SYNC_THRESHOLD \<and> (\<forall>e \<in> set es. wf_entry e)"

text \<open>The path of a file directly in a directory.\<close>

definition in_dir :: "gostring \<Rightarrow> gostring \<Rightarrow> bool" where
  "in_dir dir q \<longleftrightarrow> take (length dir + 1) q = dir @ lit ''/'' \<and> 47 \<notin> set (drop (length dir + 1) q)"

text \<open>The files of a directory are those of the tables.\<close>

definition dir_exact :: "gostring \<Rightarrow> SSTable list \<Rightarrow> world \<Rightarrow> bool" where
  "dir_exact dir tables w \<longleftrightarrow>
     (\<forall>t \<in> set tables. in_dir dir (FilePath t)) \<and>
     (\<forall>q. in_dir dir q \<and> fs_get w q \<noteq> None \<longrightarrow> q \<in> FilePath ` set tables)"

text \<open>No faults, a clock that gives fresh file names, and a log file outside the directory of the tables.\<close>

definition env_ok :: "'t DB \<Rightarrow> world \<Rightarrow> bool" where
  "env_ok db w \<longleftrightarrow>
     faults w = [] \<and> clock_fresh (SSTDir (db_conf db)) w \<and> bw_path (BufWriter (db_wal db)) = WALPath (db_conf db) \<and>
     \<not> in_dir (SSTDir (db_conf db)) (WALPath (db_conf db)) \<and> dir_exact (SSTDir (db_conf db)) (db_sstables db) w"

definition cache_fine :: "'t DB \<Rightarrow> world \<Rightarrow> bool" where
  "cache_fine db w \<longleftrightarrow>
     cache_ok (set (db_sstables db)) w (db_blockCache db) \<and>
     cache_keys (past_key (SSTDir (db_conf db)) w) (db_blockCache db)"

definition pins_ok :: "'t DB \<Rightarrow> bool" where
  "pins_ok db \<longleftrightarrow>
     watermark_inv (db_watermark db) \<and> (\<forall>s. 0 < refcount (db_watermark db) s \<longrightarrow> s \<le> db_seqNum db) \<and>
     db_seqNum db \<le> SeqNumMax"

definition db_inv :: "'t btree \<Rightarrow> ('t \<Rightarrow> bool) \<Rightarrow> version list \<Rightarrow> Entry list \<Rightarrow> 't DB \<Rightarrow> world \<Rightarrow> bool" where
  "db_inv bt ok F es db w \<longleftrightarrow>
     (\<exists>ts. tables_for db F ts w) \<and> mem_for bt ok es db \<and> log_for es db w \<and>
     hist_ok (db_seqNum db) (F @ map ent_version es) \<and> env_ok db w \<and> cache_fine db w \<and> pins_ok db"

text \<open>Files that are neither the log nor in the table directory are as before.\<close>

definition outside :: "Config \<Rightarrow> world \<Rightarrow> world \<Rightarrow> bool" where
  "outside conf w w' \<longleftrightarrow> (\<forall>q. q \<noteq> WALPath conf \<longrightarrow> \<not> in_dir (SSTDir conf) q \<longrightarrow> fs_get w' q = fs_get w q)"

lemma outside_refl [simp]: "outside conf w w"
  by (simp add: outside_def)

lemma outside_trans: "outside conf a b \<Longrightarrow> outside conf b c \<Longrightarrow> outside conf a c"
  by (simp add: outside_def)

lemma outside_log: "only_touches (WALPath conf) w w' \<Longrightarrow> outside conf w w'"
  by (simp add: outside_def only_touches_def)

lemma in_dir_sst_path: "in_dir dir (sst_path dir n)" "in_dir dir (sst_path dir n @ lit ''.tmp'')"
proof -
  have "(47 :: u8) \<notin> set (dec_nat n)"
    by (rule digit_not_in_dec_nat) (simp add: is_digit_def)
  then show "in_dir dir (sst_path dir n)" "in_dir dir (sst_path dir n @ lit ''.tmp'')"
    by (simp_all add: in_dir_def sst_path_def lit_def)
qed

lemma env_apart:
  assumes "env_ok db w"
  shows "\<forall>n. WALPath (db_conf db) \<noteq> sst_path (SSTDir (db_conf db)) n \<and>
      WALPath (db_conf db) \<noteq> sst_path (SSTDir (db_conf db)) n @ lit ''.tmp''"
    "WALPath (db_conf db) \<notin> FilePath ` set (db_sstables db)"
proof -
  let ?p = "WALPath (db_conf db)"
  have no: "\<not> in_dir (SSTDir (db_conf db)) ?p" and dir: "dir_exact (SSTDir (db_conf db)) (db_sstables db) w"
    using assms by (simp_all add: env_ok_def)
  show "\<forall>n. ?p \<noteq> sst_path (SSTDir (db_conf db)) n \<and> ?p \<noteq> sst_path (SSTDir (db_conf db)) n @ lit ''.tmp''"
    using no in_dir_sst_path by metis
  show "?p \<notin> FilePath ` set (db_sstables db)"
    using no dir unfolding dir_exact_def by auto
qed

lemma tables_past:
  assumes "env_ok db w" "tables_for db F ts w"
  shows "\<forall>t \<in> fst ` set ts. table_keys (past_key (SSTDir (db_conf db)) w) t"
proof -
  have "fs_get w (FilePath t) \<noteq> None" if "t \<in> fst ` set ts" for t
    using assms(2) that table_holds_exists by (fastforce simp: tables_for_def tables_hold_def list_all_iff)
  then show ?thesis
    using assms(1) table_keys_past unfolding env_ok_def by blast
qed

context google_btree
begin

lemma newest_mem:
  assumes "mem_for bt ok es db" "hist_ok n (F @ map ent_version es)"
  shows "newest u s (mt_versions bt (db_memtable db)) = newest u s (map ent_version es)"
proof (rule newest_cong)
  show "set (mt_versions bt (db_memtable db)) = set (map ent_version es)"
    using assms(1) by (simp add: mem_for_def)
  show "x = y" if "x \<in> set (mt_versions bt (db_memtable db))" "y \<in> set (mt_versions bt (db_memtable db))" "fst x = fst y" for x y
    using sorted_versions_fun [OF sorted_mt_versions] that assms(1) unfolding mem_for_def by blast
qed

text \<open>Reads are exact at live snapshots.\<close>

lemma GetAt_spec:
  assumes "db_inv bt ok F es db w" "live db s"
  shows "\<exists>c. GetAt bt u s db w = (hist_get u s (F @ map ent_version es), db\<lparr>db_blockCache := c\<rparr>) \<and>
    db_inv bt ok F es (db\<lparr>db_blockCache := c\<rparr>) w"
proof -
  obtain ts where ts: "tables_for db F ts w"
    using assms(1) by (auto simp: db_inv_def)
  have parts: "mem_for bt ok es db" "hist_ok (db_seqNum db) (F @ map ent_version es)" "env_ok db w" "cache_fine db w"
    using assms(1) by (simp_all add: db_inv_def)
  have s: "s \<le> SeqNumMax"
    using assms(2) by (simp add: live_def)
  have T: "db_sstables db = map fst ts" "tables_hold w ts" "newest_first (map snd ts)"
    "newest u s (table_versions ts) = newest u s F"
    using ts assms(2) by (simp_all add: tables_for_def)
  have mem: "memtable_Get bt u s (db_memtable db) = lookup_spec u s (map ent_version es)"
    using memtable_Get_spec [of "db_memtable db" s u] newest_mem [OF parts(1,2)] parts(1) s
    by (simp add: mem_for_def lookup_spec_def)
  have lvl: "level_lookup u s (map (versions \<circ> snd) ts) = lookup_spec u s F"
    using level_lookup_concat [OF T(3)] T(4) by (simp add: lookup_spec_def)
  obtain c where c: "search_tables (db_sstables db) u s (db_blockCache db) w = (found (lookup_spec u s F), c)"
    "cache_ok (set (db_sstables db)) w c" "cache_keys (past_key (SSTDir (db_conf db)) w) c"
    using search_tables_spec [OF T(2) subset_refl _ s _ tables_past [OF parts(3) ts], of "db_blockCache db" u] parts(4) T(1) lvl
    by (auto simp: cache_fine_def)
  have keep: "db_inv bt ok F es (db\<lparr>db_blockCache := c\<rparr>) w"
    using assms(1) c(2,3) unfolding db_inv_def tables_for_def mem_for_def log_for_def env_ok_def cache_fine_def pins_ok_def live_def
    by simp
  have same: "db\<lparr>db_blockCache := db_blockCache db\<rparr> = db"
    by simp
  note split = newest_split [OF parts(2), of u s]
  show ?thesis
  proof (cases "newest u s (map ent_version es)")
    case None
    then have "GetAt bt u s db w = (hist_get u s (F @ map ent_version es), db\<lparr>db_blockCache := c\<rparr>)"
      using mem c(1) split by (simp add: GetAt_def searchSSTables_def hist_get_def lookup_spec_def answer_def)
    then show ?thesis
      using keep by blast
  next
    case (Some v)
    then have "GetAt bt u s db w = (hist_get u s (F @ map ent_version es), db)"
      using mem split by (auto simp: GetAt_def hist_get_def lookup_spec_def answer_def found_def)
    then show ?thesis
      using same assms(1) by metis
  qed
qed

end

section \<open>Flushing\<close>

lemma wal_inv_frame:
  "wal_inv es l w \<Longrightarrow> fs_get w' (bw_path (BufWriter l)) = fs_get w (bw_path (BufWriter l)) \<Longrightarrow> wal_inv es l w'"
  by (simp add: wal_inv_def)

lemma SetCache_simps [simp]: "FilePath (SetCache t) = FilePath t" "sst_index (SetCache t) = sst_index t"
  by (simp_all add: SetCache_def)

lemma table_holds_SetCache [simp]: "table_holds w (SetCache t) es = table_holds w t es"
  by (simp add: table_holds_def SetCache_def)

lemma newer_hist:
  assumes "hist_ok n (F @ E)" "entry_version a \<in> set E" "entry_version b \<in> set F"
  shows "newer a b"
proof -
  have "key_SeqNum (dkey b) < key_SeqNum (dkey a)"
    using assms unfolding hist_ok_def sorted_wrt_append entry_version_def by fastforce
  then show ?thesis
    by (simp add: newer_def seq_less_key)
qed

lemma small_hist:
  assumes "hist_ok n H" "set (versions es) \<subseteq> set H" "length es < 2 ^ 30"
  shows "small_entries es"
proof -
  have "entry_size e < 2 ^ 28" if "e \<in> set es" for e
  proof (rule entry_small)
    have "entry_version e \<in> set H"
      using that assms(2) by (auto simp: set_versions)
    then show "length (UserKey (dkey e)) \<le> MAX_KEY_LENGTH" "length (be_Value e) \<le> MAX_VALUE_LENGTH"
      using assms(1) by (auto simp: hist_ok_def entry_version_def)
  qed
  then show ?thesis
    using assms(3) by (simp add: small_entries_def list_all_iff)
qed

context google_btree
begin

lemma mem_entries:
  assumes "mem_for bt ok es db" "hist_ok n (F @ map ent_version es)"
  shows "sorted_versions (versions (mt_entries bt (db_memtable db)))"
    "set (versions (mt_entries bt (db_memtable db))) = ent_version ` set es"
    "length (mt_entries bt (db_memtable db)) \<le> length es"
    "length es < 2 ^ 30 \<Longrightarrow> small_entries (mt_entries bt (db_memtable db))"
proof -
  let ?ms = "mt_entries bt (db_memtable db)"
  show sorted: "sorted_versions (versions ?ms)"
    using assms(1) sorted_mt_versions by (simp add: mem_for_def versions_mt_entries)
  show set: "set (versions ?ms) = ent_version ` set es"
    using assms(1) by (simp add: mem_for_def versions_mt_entries)
  have "distinct (versions ?ms)"
    using sorted by (auto simp: sorted_versions_def strict_sorted_iff distinct_map)
  then have "length (versions ?ms) = card (ent_version ` set es)"
    using set distinct_card by metis
  also have "\<dots> \<le> length es"
    using card_image_le [of "set es" ent_version] card_length [of es] by simp
  finally show len: "length ?ms \<le> length es"
    by (simp add: versions_def)
  show "small_entries ?ms" if "length es < 2 ^ 30"
    using small_hist [of n "map ent_version es" ?ms] hist_ok_append [OF assms(2)] set len that by simp
qed

lemma Flush_ok:
  assumes "mem_for bt ok es db" "hist_ok n (F @ map ent_version es)" "length es < 2 ^ 30"
    and "clock_fresh dir w" "faults w = []"
  shows "\<exists>sst w1. Flush bt (db_memtable db) dir w = (Inr sst, w1) \<and> table_holds w1 sst (mt_entries bt (db_memtable db)) \<and>
    only_adds dir w w1 \<and> clock_fresh dir w1 \<and> faults w1 = [] \<and> paths_between dir w w1 = {FilePath sst}"
proof -
  let ?ms = "mt_entries bt (db_memtable db)"
  note M = mem_entries [OF assms(1,2)]
  obtain now w0 where t: "time_Now w = (now, w0)"
    by (cases "time_Now w")
  obtain w1 where wr: "WriteSSTableFromBlockEntries (sst_path dir now) ?ms w0 = (Inr (table_of (sst_path dir now) ?ms), w1)"
    "only_adds dir w w1" "clock_fresh dir w1" "faults w1 = []" "ticks w1 = Suc (ticks w)" "now = clock w (ticks w)"
    "fs_get w1 (sst_path dir now) = Some (complete_file ?ms)"
    using write_fresh_table [OF assms(4,5) t, of ?ms] by blast
  have "table_fits ?ms"
    using M(4) assms(3) by (intro table_fits_limits) (auto simp: small_entries_def)
  then have "table_holds w1 (table_of (sst_path dir now) ?ms) ?ms"
    using table_holds_complete(1) wr(7) M(1) by blast
  moreover have "paths_between dir w w1 = {FilePath (table_of (sst_path dir now) ?ms)}"
    by (simp add: table_of_def paths_between_def wr(5,6))
  ultimately show ?thesis
    using wr t by (auto simp: Flush_eq)
qed

lemma flush_tables:
  assumes "tables_for db F ts w" "mem_for bt ok es db" "hist_ok n (F @ map ent_version es)"
    and "only_adds dir w w1" "clock_fresh dir w"
    and "table_holds w1 sst (mt_entries bt (db_memtable db))" "FilePath sst \<in> paths_between dir w w1"
  defines "ts1 \<equiv> (SetCache sst, mt_entries bt (db_memtable db)) # ts"
  shows "tables_hold w1 ts1" "newest_first (map snd ts1)"
    "set (table_versions ts1) \<subseteq> set (F @ map ent_version es)"
    "length (concat (map snd ts1)) \<le> length (F @ map ent_version es)"
    "live db s \<Longrightarrow> newest u s (table_versions ts1) = newest u s (F @ map ent_version es)"
proof -
  let ?ms = "mt_entries bt (db_memtable db)"
  note M = mem_entries [OF assms(2,3)]
  have T: "tables_hold w ts" "newest_first (map snd ts)" "set (table_versions ts) \<subseteq> set F"
    "length (concat (map snd ts)) \<le> length F"
    "live db s \<Longrightarrow> newest u s (table_versions ts) = newest u s F"
    using assms(1) by (simp_all add: tables_for_def)
  have old: "table_holds w1 t x" "fs_get w (FilePath t) \<noteq> None" if "(t, x) \<in> set ts" for t x
    using T(1) that table_holds_adds [OF assms(5,4), of t x] table_holds_exists [of w t x]
    by (auto simp: tables_hold_def list_all_iff)
  have "FilePath sst \<noteq> FilePath t" if "(t, x) \<in> set ts" for t x
    using old(2) [OF that] paths_between_fresh [OF assms(5,7)] by auto
  then have "FilePath sst \<notin> (FilePath \<circ> fst) ` set ts"
    by force
  then show "tables_hold w1 ts1"
    using T(1) old(1) assms(6) by (auto simp: ts1_def tables_hold_def list_all_iff)
  have cross: "newer a b" if "a \<in> set ?ms" "b \<in> set (concat (map snd ts))" for a b
  proof (rule newer_hist [OF assms(3)])
    show "entry_version a \<in> set (map ent_version es)"
      using M(2) that(1) by (auto simp: set_versions)
    show "entry_version b \<in> set F"
      using T(3) that(2) by (auto simp: set_versions)
  qed
  have nf: "sorted_wrt newer (?ms @ concat (map snd ts))"
    using T(2) cross sorted_versions_newer [OF M(1)] by (simp add: sorted_wrt_append newest_first_def)
  then show "newest_first (map snd ts1)"
    by (simp add: ts1_def newest_first_def)
  show "set (table_versions ts1) \<subseteq> set (F @ map ent_version es)"
    using T(3) M(2) by (auto simp: ts1_def)
  show "length (concat (map snd ts1)) \<le> length (F @ map ent_version es)"
    using T(4) M(3) by (simp add: ts1_def)
  show "newest u s (table_versions ts1) = newest u s (F @ map ent_version es)" if "live db s"
    using newest_append [OF nf, of u s] newest_mem [OF assms(2,3), of u s] newest_split [OF assms(3), of u s] T(5) [OF that]
    by (cases "newest u s (map ent_version es)") (simp_all add: ts1_def versions_mt_entries)
qed

end

text \<open>Compaction drops only versions that no live snapshot reads.\<close>

lemma live_floor:
  assumes "pins_ok db" "live db s" "set X \<subseteq> set H" "set Y \<subseteq> set H" "hist_ok (db_seqNum db) H"
    and "\<forall>u s. Floor (db_watermark db) \<le> s \<longrightarrow> newest u s X = newest u s Y"
  shows "newest u s X = newest u s Y"
proof (cases "Floor (db_watermark db) \<le> s")
  case True
  with assms(6) show ?thesis by blast
next
  case False
  have inv: "watermark_inv (db_watermark db)"
    using assms(1) by (simp add: pins_ok_def)
  have "\<not> 0 < refcount (db_watermark db) s"
    using wm.floor_le_pinned [OF inv, of s] False by auto
  then have le: "db_seqNum db \<le> s" "s \<le> SeqNumMax"
    using assms(2) by (auto simp: live_def)
  have bound: "\<forall>kv \<in> set X. seq_of kv \<le> t" "\<forall>kv \<in> set Y. seq_of kv \<le> t" if "db_seqNum db \<le> t" for t
    using assms(3-5) that unfolding hist_ok_def by (meson order.trans subsetD)+
  have "Floor (db_watermark db) = SeqNumMax"
  proof (rule ccontr)
    assume "Floor (db_watermark db) \<noteq> SeqNumMax"
    then have "0 < refcount (db_watermark db) (Floor (db_watermark db))"
      using wm.floor_attained [OF inv] by simp
    then have "Floor (db_watermark db) \<le> db_seqNum db"
      using assms(1) by (simp add: pins_ok_def)
    with le(1) False show False by simp
  qed
  then have "newest u SeqNumMax X = newest u SeqNumMax Y"
    using assms(6) by simp
  moreover have "newest u s X = newest u SeqNumMax X" "newest u s Y = newest u SeqNumMax Y"
    using bound le order.trans [OF le] by (auto intro!: newest_all_visible)
  ultimately show ?thesis by simp
qed

lemma resetWAL_ok:
  assumes "log_for es db w" "faults w = []" "bw_path (BufWriter (db_wal db)) = p"
  shows "\<exists>w'. resetWAL db w = ((None, db\<lparr>db_wal := (db_wal db)\<lparr>BufWriter := bw_new p None\<rparr>\<rparr>), w') \<and>
    wal_inv [] ((db_wal db)\<lparr>BufWriter := bw_new p None\<rparr>) w' \<and> only_touches p w w' \<and> faults w' = []"
proof -
  obtain f where f: "fs_get w p = Some f"
    using assms(1,3) by (auto simp: log_for_def wal_inv_def)
  let ?w = "fs_put p \<lparr>fdata = [], durable = 0\<rparr> w"
  have "file_Truncate p 0 w = (Inr (), ?w)"
    using assms(2) f by (simp add: file_Truncate_def)
  then show ?thesis
    using assms(2,3) by (simp add: resetWAL_def wal_inv_def bw_new_def)
qed

text \<open>Whether a flush now would make compaction merge only neighbours.\<close>

definition flush_adjacent :: "'t btree \<Rightarrow> 't DB \<Rightarrow> world \<Rightarrow> bool" where
  "flush_adjacent bt db w \<longleftrightarrow>
     (case Flush bt (db_memtable db) (SSTDir (db_conf db)) w of
        (Inl _, _) \<Rightarrow> True
      | (Inr sst, w1) \<Rightarrow>
          length (db_sstables db) + 1 < DEFAULT_COMPACTION_THRESHOLD \<or>
          adjacent_groups (SetCache sst # db_sstables db) w1)"

lemma adjacent_groups_frame:
  assumes "\<And>t. t \<in> set ts \<Longrightarrow> fs_get w' (FilePath t) = fs_get w (FilePath t)"
  shows "adjacent_groups ts w' = adjacent_groups ts w"
proof -
  have "map (\<lambda>t. table_size t w') ts = map (\<lambda>t. table_size t w) ts"
    using assms by (simp add: table_size_def)
  then show ?thesis
    unfolding adjacent_groups_def groupBySimilarSize_def Let_def by (simp only:)
qed

lemma clock_fresh_only_touches:
  assumes "clock_fresh dir w" "only_touches p w w'"
    and "\<forall>n. p \<noteq> sst_path dir n \<and> p \<noteq> sst_path dir n @ lit ''.tmp''"
  shows "clock_fresh dir w'"
proof -
  have "fs_get w' (sst_path dir n) = fs_get w (sst_path dir n)"
    "fs_get w' (sst_path dir n @ lit ''.tmp'') = fs_get w (sst_path dir n @ lit ''.tmp'')" for n
    using assms(2,3) by (auto simp: only_touches_def)
  then show ?thesis
    using assms(1,2) by (simp add: clock_fresh_def only_touches_def)
qed

lemma tables_hold_frame:
  assumes "tables_hold w ts" "\<And>t. t \<in> fst ` set ts \<Longrightarrow> fs_get w' (FilePath t) = fs_get w (FilePath t)"
  shows "tables_hold w' ts"
  using assms by (force simp: tables_hold_def list_all_iff intro: table_holds_frame)

lemma paths_between_sub:
  assumes "clock w1 = clock w" "ticks w \<le> ticks w1" "ticks w1 \<le> ticks w2"
  shows "paths_between dir w w1 \<subseteq> paths_between dir w w2" "paths_between dir w1 w2 \<subseteq> paths_between dir w w2"
  using assms by (auto simp: paths_between_def)

lemma compacted_dir:
  assumes "dir_exact dir (map fst ts) w" "compacts dir flr w ts ts' w'"
  shows "dir_exact dir (map SetCache (map fst ts')) w'"
  unfolding dir_exact_def
proof (intro conjI ballI allI impI)
  have C: "\<forall>x \<in> set ts'. FilePath (fst x) \<in> paths_between dir w w' \<or> x \<in> set ts"
    "\<forall>q. q \<notin> FilePath ` fst ` set ts \<union> paths_between dir w w' \<longrightarrow> fs_get w' q = fs_get w q"
    "\<forall>q \<in> FilePath ` fst ` set ts \<union> paths_between dir w w'. fs_get w' q \<noteq> None \<longrightarrow> q \<in> FilePath ` fst ` set ts'"
    using assms(2) by (simp_all add: compacts_def)
  have D: "\<forall>t \<in> fst ` set ts. in_dir dir (FilePath t)" "\<forall>q. in_dir dir q \<and> fs_get w q \<noteq> None \<longrightarrow> q \<in> FilePath ` fst ` set ts"
    using assms(1) by (simp_all add: dir_exact_def)
  show "in_dir dir (FilePath t)" if "t \<in> set (map SetCache (map fst ts'))" for t
    using that C(1) D(1) in_dir_sst_path(1) by (fastforce simp: paths_between_def)
  show "q \<in> FilePath ` set (map SetCache (map fst ts'))" if "in_dir dir q \<and> fs_get w' q \<noteq> None" for q
  proof -
    have "q \<in> FilePath ` fst ` set ts \<union> paths_between dir w w'"
      using that C(2) D(2) by (cases "q \<in> FilePath ` fst ` set ts \<union> paths_between dir w w'") auto
    then have "q \<in> FilePath ` fst ` set ts'"
      using C(3) that by blast
    then show ?thesis
      by (auto simp: image_iff)
  qed
qed

lemma flushed_dir:
  assumes "dir_exact dir tables w" "only_adds dir w w1" "paths_between dir w w1 = {FilePath sst}"
    and "only_touches p w1 w2" "\<not> in_dir dir p"
  shows "dir_exact dir (SetCache sst # tables) w2"
proof -
  have "in_dir dir (FilePath sst)"
    using assms(3) in_dir_sst_path(1) [of dir] unfolding paths_between_def by (metis imageE insertI1)
  moreover have "fs_get w2 q = fs_get w q" if "in_dir dir q" "q \<noteq> FilePath sst" for q
    using that assms(2-5) by (auto simp: only_adds_def only_touches_def)
  ultimately show ?thesis
    using assms(1) unfolding dir_exact_def by auto
qed

text \<open>A flush with its compaction changes the log and files of the directory only.\<close>

lemma flush_outside:
  assumes "dir_exact (SSTDir conf) (map fst ts) w" "only_adds (SSTDir conf) w w1" "only_touches (WALPath conf) w1 w2"
    and "FilePath sst \<in> paths_between (SSTDir conf) w w1"
    and "\<forall>q. q \<notin> FilePath ` fst ` set ((SetCache sst, ms) # ts) \<union> paths_between (SSTDir conf) w2 w3 \<longrightarrow> fs_get w3 q = fs_get w2 q"
  shows "outside conf w w3"
  unfolding outside_def
proof (intro allI impI)
  fix q
  assume q: "q \<noteq> WALPath conf" "\<not> in_dir (SSTDir conf) q"
  have between: "q \<notin> paths_between (SSTDir conf) a b" for a b
    using q(2) in_dir_sst_path(1) by (auto simp: paths_between_def)
  have "q \<notin> FilePath ` fst ` set ts"
    using assms(1) q(2) by (auto simp: dir_exact_def)
  moreover have "q \<noteq> FilePath sst"
    using assms(4) between by metis
  ultimately have "fs_get w3 q = fs_get w2 q"
    using assms(5) between by simp
  then show "fs_get w3 q = fs_get w q"
    using assms(2,3) q(1) between by (simp add: only_adds_def only_touches_def)
qed

text \<open>After the merges, the cache agrees with the new tables.\<close>

lemma compacted_cache:
  assumes "cache_ok (fst ` set ts) w c" "cache_keys (past_key dir w) c" "tables_hold w ts"
    and "clock w1 = clock w" "ticks w \<le> ticks w1" "compacts dir flr w1 ((t0, es0) # ts) ts' w'"
    and "FilePath t0 \<in> paths_between dir w w1"
  shows "cache_ok (SetCache ` fst ` set ts') w' c" "cache_keys (past_key dir w') c"
proof -
  have C: "tables_hold w' ts'" "clock w' = clock w1" "ticks w1 \<le> ticks w'"
    "\<forall>x \<in> set ts'. FilePath (fst x) \<in> paths_between dir w1 w' \<or> x \<in> set ((t0, es0) # ts)"
    using assms(6) by (simp_all add: compacts_def)
  note sub = paths_between_sub [OF assms(4,5) C(3), of dir]
  show "cache_keys (past_key dir w') c"
    using cache_keys_later [OF assms(2)] assms(4,5) C(2,3) by simp
  show "cache_ok (SetCache ` fst ` set ts') w' c"
  proof (rule cache_ok_change [OF assms(1,2)])
    show "clock w' = clock w"
      using C(2) assms(4) by simp
    fix t'
    assume "t' \<in> SetCache ` fst ` set ts'"
    then obtain t es where t: "(t, es) \<in> set ts'" "t' = SetCache t"
      by auto
    show "FilePath t' \<in> paths_between dir w w' \<or>
      (\<exists>t \<in> fst ` set ts. FilePath t' = FilePath t \<and> sst_index t' = sst_index t \<and>
        map_option fdata (fs_get w' (FilePath t)) = map_option fdata (fs_get w (FilePath t)))"
    proof (cases "(t, es) \<in> set ts")
      case True
      have "table_holds w t es" "table_holds w' t es"
        using True t(1) assms(3) C(1) by (auto simp: tables_hold_def list_all_iff)
      then have "map_option fdata (fs_get w' (FilePath t)) = map_option fdata (fs_get w (FilePath t))"
        by (auto simp: table_holds_def)
      then show ?thesis
        using True t(2) by (intro disjI2 bexI [of _ t]) (auto simp: image_iff intro!: bexI [of _ "(t, es)"])
    next
      case False
      then show ?thesis
        using C(4) t sub assms(7) by fastforce
    qed
  qed
qed

lemma tables_for_compacted:
  assumes "tables_hold w1 ts1" "set (table_versions ts1) \<subseteq> set H" "length (concat (map snd ts1)) \<le> length H"
    and "\<And>u s. live db s \<Longrightarrow> newest u s (table_versions ts1) = newest u s H"
    and "compacts dir (Floor (db_watermark db)) w1 ts1 ts' w'" "pins_ok db" "hist_ok (db_seqNum db) H"
    and "db_sstables db' = map SetCache (map fst ts')" "db_watermark db' = db_watermark db" "db_seqNum db' = db_seqNum db"
  shows "tables_for db' H (map (apfst SetCache) ts') w'"
proof -
  have C: "tables_hold w' ts'" "newest_first (map snd ts')"
    "\<forall>u s. Floor (db_watermark db) \<le> s \<longrightarrow> newest u s (table_versions ts') = newest u s (table_versions ts1)"
    "set (concat (map snd ts')) \<subseteq> set (concat (map snd ts1))"
    "length (concat (map snd ts')) \<le> length (concat (map snd ts1))"
    using assms(5) by (simp_all add: compacts_def)
  let ?ts = "map (apfst SetCache) ts'"
  have snd: "map snd ?ts = map snd ts'"
    by simp
  have sub: "set (table_versions ts') \<subseteq> set (table_versions ts1)"
    unfolding set_versions by (rule image_mono [OF C(4)])
  have "newest u s (table_versions ts') = newest u s H" if "live db s" for u s
    using live_floor [OF assms(6) that order.trans [OF sub assms(2)] assms(2,7) C(3), of u] assms(4) [OF that, of u] by simp
  moreover have "tables_hold w' ?ts"
    using C(1) by (auto simp: tables_hold_def list_all_iff comp_def case_prod_beta)
  moreover have "live db' s = live db s" for s
    using assms(9,10) by (simp add: live_def)
  ultimately show ?thesis
    unfolding tables_for_def snd using assms(3,8) sub assms(2) C(2,5) by auto
qed

context google_btree
begin

lemma mem_for_New: "db_memtable db = NewMemTable bt \<Longrightarrow> mem_for bt ok [] db"
  by (simp add: mem_for_def mt_inv_New mt_versions_New)

lemma flush_correct:
  assumes "db_inv bt ok F es db w" "length F + length es < 2 ^ 30" "flush_adjacent bt db w"
  shows "\<exists>db' w'. flushMemtableLocked bt db w = ((None, db'), w') \<and> db_inv bt ok (F @ map ent_version es) [] db' w' \<and>
    db_seqNum db' = db_seqNum db \<and> db_watermark db' = db_watermark db \<and> db_conf db' = db_conf db \<and>
    outside (db_conf db) w w'"
proof -
  let ?dir = "SSTDir (db_conf db)" and ?p = "WALPath (db_conf db)" and ?H = "F @ map ent_version es"
    and ?ms = "mt_entries bt (db_memtable db)"
  obtain ts where ts: "tables_for db F ts w"
    using assms(1) by (auto simp: db_inv_def)
  have I: "mem_for bt ok es db" "log_for es db w" "hist_ok (db_seqNum db) ?H" "env_ok db w" "cache_fine db w" "pins_ok db"
    using assms(1) by (simp_all add: db_inv_def)
  have E: "faults w = []" "clock_fresh ?dir w" "bw_path (BufWriter (db_wal db)) = ?p"
    "\<forall>n. ?p \<noteq> sst_path ?dir n \<and> ?p \<noteq> sst_path ?dir n @ lit ''.tmp''" "?p \<notin> FilePath ` set (db_sstables db)"
    "\<not> in_dir ?dir ?p" "dir_exact ?dir (db_sstables db) w"
    using I(4) env_apart [OF I(4)] by (simp_all add: env_ok_def)
  have T: "db_sstables db = map fst ts" "tables_hold w ts"
    using ts by (simp_all add: tables_for_def)
  obtain sst w1 where fl: "Flush bt (db_memtable db) ?dir w = (Inr sst, w1)" "table_holds w1 sst ?ms"
    "only_adds ?dir w w1" "clock_fresh ?dir w1" "faults w1 = []" "paths_between ?dir w w1 = {FilePath sst}"
    using Flush_ok [OF I(1,3) _ E(2,1)] assms(2) by auto
  let ?ts1 = "(SetCache sst, ?ms) # ts"
  have new: "FilePath sst \<in> paths_between ?dir w w1"
    by (simp add: fl(6))
  note FT = flush_tables [OF ts I(1,3) fl(3) E(2) fl(2) new]
  have nop: "?p \<notin> paths_between ?dir a b" for a b
    using E(4) by (auto simp: paths_between_def)
  have ne: "FilePath sst \<noteq> ?p"
    using new nop by metis
  define db1 where "db1 = db\<lparr>db_sstables := SetCache sst # db_sstables db, db_memtable := NewMemTable bt\<rparr>"
  have "log_for es db1 w1"
    using I(2) E(3) fl(3) nop wal_inv_frame [of es "db_wal db" w w1] by (simp add: log_for_def db1_def only_adds_def)
  then obtain w2 where rs: "resetWAL db1 w1 = ((None, db1\<lparr>db_wal := (db_wal db)\<lparr>BufWriter := bw_new ?p None\<rparr>\<rparr>), w2)"
    "wal_inv [] ((db_wal db)\<lparr>BufWriter := bw_new ?p None\<rparr>) w2" "only_touches ?p w1 w2" "faults w2 = []"
    using resetWAL_ok [of es db1 w1 ?p] fl(5) E(3) by (auto simp: db1_def)
  have files: "fs_get w2 (FilePath t) = fs_get w1 (FilePath t)" if "t \<in> set (SetCache sst # db_sstables db)" for t
  proof -
    have "FilePath t \<noteq> ?p"
      using that E(5) ne by (auto simp: image_iff)
    then show ?thesis
      using rs(3) by (simp add: only_touches_def)
  qed
  have hold2: "tables_hold w2 ?ts1"
    by (rule tables_hold_frame [OF FT(1)]) (use files T(1) in auto)
  have fresh2: "clock_fresh ?dir w2"
    by (rule clock_fresh_only_touches [OF fl(4) rs(3) E(4)])
  have small: "small_entries (concat (map snd ?ts1))"
    using small_hist [OF I(3) FT(3)] FT(4) assms(2) by simp
  have adj: "adjacent_groups (map fst ?ts1) w2" if "DEFAULT_COMPACTION_THRESHOLD \<le> length ?ts1"
    using assms(3) fl(1) that adjacent_groups_frame [of "SetCache sst # db_sstables db" w2 w1] files T(1)
    by (simp add: flush_adjacent_def)
  obtain ts' w3 where C: "Compact (map fst ?ts1) ?dir (Floor (db_watermark db)) w2 = (Inr (map fst ts'), w3)"
    "compacts ?dir (Floor (db_watermark db)) w2 ?ts1 ts' w3"
    using Compact_correct [OF hold2 FT(2) small fresh2 rs(4) adj] by blast
  define db' where "db' = db1\<lparr>db_wal := (db_wal db)\<lparr>BufWriter := bw_new ?p None\<rparr>, db_sstables := map SetCache (map fst ts')\<rparr>"
  have run: "flushMemtableLocked bt db w = ((None, db'), w3)"
    using fl(1) rs(1) C(1) T(1) by (simp add: flushMemtableLocked_def db1_def db'_def)
  have c: "clock w2 = clock w" "ticks w \<le> ticks w2"
    using fl(3) rs(3) by (simp_all add: only_adds_def only_touches_def)
  have cache: "cache_fine db' w3"
    using compacted_cache [OF _ _ T(2) c C(2)] I(5) T(1) new rs(3)
    by (simp add: cache_fine_def db'_def db1_def only_touches_def paths_between_def image_comp)
  have CC: "faults w3 = []" "clock_fresh ?dir w3"
    "\<forall>q. q \<notin> FilePath ` fst ` set ?ts1 \<union> paths_between ?dir w2 w3 \<longrightarrow> fs_get w3 q = fs_get w2 q"
    using C(2) by (simp_all add: compacts_def)
  have pold: "?p \<notin> FilePath ` fst ` set ?ts1"
    using E(5) T(1) ne by auto
  have "dir_exact ?dir (SetCache sst # db_sstables db) w2"
    by (rule flushed_dir [OF E(7) fl(3,6) rs(3) E(6)])
  then have env: "env_ok db' w3"
    using compacted_dir [OF _ C(2)] CC(1,2) E(6) T(1) by (simp add: env_ok_def db'_def db1_def bw_new_def)
  have "fs_get w3 ?p = fs_get w2 ?p"
    using CC(3) pold nop by blast
  then have log: "log_for [] db' w3"
    using wal_inv_frame [OF rs(2), of w3] I(2) by (simp add: log_for_def db'_def bw_new_def)
  have tab: "tables_for db' ?H (map (apfst SetCache) ts') w3"
    by (rule tables_for_compacted [OF hold2 FT(3,4,5) C(2) I(6,3)]) (simp_all add: db'_def db1_def)
  have "db_inv bt ok ?H [] db' w3"
    using tab mem_for_New [of db'] log env cache I(3,6)
    by (auto simp: db_inv_def db'_def db1_def pins_ok_def)
  moreover have "outside (db_conf db) w w3"
    by (rule flush_outside [OF E(7) [unfolded T(1)] fl(3) rs(3) new CC(3)])
  ultimately show ?thesis
    using run by (auto simp: db'_def db1_def)
qed

end

section \<open>Writing\<close>

text \<open>Changes of the log file alone do not disturb the tables and the cache.\<close>

text \<open>Changing a file outside the table directory keeps tables, cache and environment.\<close>

lemma tables_file_frame:
  assumes "env_ok db w" "tables_for db F ts w" "cache_fine db w" "only_touches p w w'" "faults w' = []"
    and "\<not> in_dir (SSTDir (db_conf db)) p"
  shows "tables_for db F ts w'" "cache_fine db w'" "env_ok db w'"
proof -
  have dir: "dir_exact (SSTDir (db_conf db)) (db_sstables db) w"
    using assms(1) by (simp add: env_ok_def)
  have files: "fs_get w' (FilePath t) = fs_get w (FilePath t)" if "t \<in> set (db_sstables db)" for t
    using dir assms(4,6) that by (auto simp: only_touches_def dir_exact_def)
  have T: "set (db_sstables db) = fst ` set ts" "tables_hold w ts"
    using assms(2) by (simp_all add: tables_for_def)
  have "tables_hold w' ts"
    by (rule tables_hold_frame [OF T(2)]) (rule files, simp only: T(1))
  then show "tables_for db F ts w'"
    using assms(2) by (simp add: tables_for_def)
  have ck: "clock w' = clock w" "ticks w' = ticks w"
    using assms(4) by (simp_all add: only_touches_def)
  have "cache_ok (set (db_sstables db)) w' (db_blockCache db)"
    by (rule cache_ok_change [of "set (db_sstables db)" w _ "SSTDir (db_conf db)"])
      (use assms(3) ck files in \<open>auto simp: cache_fine_def\<close>)
  moreover have "cache_keys (past_key (SSTDir (db_conf db)) w') (db_blockCache db)"
    using cache_keys_later [of "SSTDir (db_conf db)" w _ w'] assms(3) ck by (simp add: cache_fine_def)
  ultimately show "cache_fine db w'"
    by (simp add: cache_fine_def)
  have "dir_exact (SSTDir (db_conf db)) (db_sstables db) w'"
    using dir assms(4,6) unfolding dir_exact_def only_touches_def by metis
  moreover have "\<forall>n. p \<noteq> sst_path (SSTDir (db_conf db)) n \<and> p \<noteq> sst_path (SSTDir (db_conf db)) n @ lit ''.tmp''"
    using assms(6) in_dir_sst_path by auto
  ultimately show "env_ok db w'"
    using assms(1,5) clock_fresh_only_touches [OF _ assms(4), of "SSTDir (db_conf db)"] by (simp add: env_ok_def)
qed

lemma tables_log_frame:
  assumes "env_ok db w" "tables_for db F ts w" "cache_fine db w" "only_touches (WALPath (db_conf db)) w w'" "faults w' = []"
  shows "tables_for db F ts w'" "cache_fine db w'" "env_ok db w'"
  using tables_file_frame [OF assms] assms(1) by (simp_all add: env_ok_def)

text \<open>The entry a write logs, and the version it stands for.\<close>

definition write_entry :: "'t DB \<Rightarrow> gostring \<Rightarrow> InternalKeyKind \<Rightarrow> bytes \<Rightarrow> Entry" where
  "write_entry db k kind v = Entry (encode_key (MakeInternalKey k (db_seqNum db + 1) kind)) v"

definition write_version :: "'t DB \<Rightarrow> gostring \<Rightarrow> InternalKeyKind \<Rightarrow> bytes \<Rightarrow> version" where
  "write_version db k kind v = (MakeInternalKey k (db_seqNum db + 1) kind, v)"

lemma ent_version_write [simp]: "ent_version (write_entry db k kind v) = write_version db k kind v"
  by (simp add: ent_version_def write_entry_def write_version_def)

definition good_write :: "gostring \<Rightarrow> InternalKeyKind \<Rightarrow> bytes \<Rightarrow> bool" where
  "good_write k kind v \<longleftrightarrow>
     length k \<le> MAX_KEY_LENGTH \<and> length v \<le> MAX_VALUE_LENGTH \<and>
     (kind = InternalKeyKindSet \<or> kind = InternalKeyKindDelete \<and> v = [])"

lemma seq_plus_1:
  assumes "n < SeqNumMax"
  shows "n < n + 1" "n + 1 \<le> SeqNumMax" "m \<le> n \<Longrightarrow> m < n + 1"
proof -
  have u: "unat (n + 1) = unat n + 1"
    using assms unat_word_ariths(1) [of n 1] by (simp add: word_less_nat_alt unat_SeqNumMax)
  show "n < n + 1" "n + 1 \<le> SeqNumMax" "m \<le> n \<Longrightarrow> m < n + 1"
    using assms u by (simp_all add: word_less_nat_alt word_le_nat_alt)
qed

lemma write_version_facts:
  assumes "db_seqNum db < SeqNumMax" "good_write k kind v"
  shows "seq_of (write_version db k kind v) = db_seqNum db + 1" "wf_version (write_version db k kind v)"
    "key_Valid (MakeInternalKey k (db_seqNum db + 1) kind)"
  using assms seq_plus_1(2) [OF assms(1)]
  by (auto simp: write_version_def good_write_def wf_version_def key_Valid_def InternalKeyKindMax_def
      InternalKeyKindSet_def InternalKeyKindDelete_def)

lemma hist_ok_write:
  assumes "hist_ok (db_seqNum db) H" "db_seqNum db < SeqNumMax" "good_write k kind v"
  shows "hist_ok (db_seqNum db + 1) (H @ [write_version db k kind v])"
proof -
  note W = write_version_facts [OF assms(2,3)]
  have "seq_of kv < db_seqNum db + 1" if "kv \<in> set H" for kv
    using assms(1) that seq_plus_1(3) [OF assms(2)] by (simp add: hist_ok_def)
  then show ?thesis
    using assms(1,3) W by (auto simp: hist_ok_def sorted_wrt_append good_write_def write_version_def less_imp_le)
qed

context google_btree
begin

lemma mem_for_write:
  assumes "mem_for bt ok es db" "hist_ok (db_seqNum db) (F @ map ent_version es)" "db_seqNum db < SeqNumMax" "good_write k kind v"
    and "e = write_entry db k kind v" "db_memtable db' = memtable_insert bt (Key e) (Value e) (db_memtable db)"
  shows "mem_for bt ok (es @ [e]) db'"
proof -
  note W = write_version_facts [OF assms(3,4)]
  let ?k = "MakeInternalKey k (db_seqNum db + 1) kind"
  have item: "item_ok (Item (Key e) (Value e))"
    using W(3) by (simp add: assms(5) item_ok_def ikey_def write_entry_def)
  have dk: "DecodeInternalKey (Key e) = ?k" "Value e = v"
    by (simp_all add: assms(5) write_entry_def)
  have new: "fst kv \<noteq> ?k" if "kv \<in> ent_version ` set es" for kv
  proof
    assume "fst kv = ?k"
    then have "seq_of kv = db_seqNum db + 1"
      using W(1) by (simp add: write_version_def)
    moreover have "seq_of kv \<le> db_seqNum db"
      using that assms(2) by (auto simp: hist_ok_def)
    ultimately show False
      using seq_plus_1(1) [OF assms(3)] by simp
  qed
  have inv: "mt_inv bt ok (db_memtable db)" and set: "set (mt_versions bt (db_memtable db)) = ent_version ` set es"
    using assms(1) by (simp_all add: mem_for_def)
  have "set (mt_versions bt (db_memtable db')) = insert (?k, v) {kv \<in> ent_version ` set es. fst kv \<noteq> ?k}"
    unfolding assms(6) mt_versions_insert [OF inv] set dk ..
  also have "\<dots> = ent_version ` set (es @ [e])"
    using new by (auto simp: assms(5) write_version_def)
  finally show ?thesis
    using mt_inv_insert [OF inv item] by (simp add: mem_for_def assms(6))
qed

lemma write_correct:
  assumes "db_inv bt ok F es db w" "db_seqNum db < SeqNumMax" "good_write k kind v"
    and e: "e = write_entry db k kind v"
  shows "\<exists>l w1. wal_write (Key e) (Value e) (db_wal db) w = ((None, l), w1) \<and>
    db_inv bt ok F (es @ [e])
      (db\<lparr>db_seqNum := db_seqNum db + 1, db_wal := l, db_memtable := memtable_insert bt (Key e) (Value e) (db_memtable db)\<rparr>) w1"
proof -
  let ?p = "WALPath (db_conf db)"
  obtain ts where ts: "tables_for db F ts w"
    using assms(1) by (auto simp: db_inv_def)
  have I: "mem_for bt ok es db" "log_for es db w" "hist_ok (db_seqNum db) (F @ map ent_version es)" "env_ok db w"
    "cache_fine db w" "pins_ok db"
    using assms(1) by (simp_all add: db_inv_def)
  have p: "bw_path (BufWriter (db_wal db)) = ?p" "faults w = []"
    using I(4) by (simp_all add: env_ok_def)
  obtain x l w1 where wr: "wal_write (Key e) (Value e) (db_wal db) w = ((x, l), w1)"
    by (rule left_triple)
  note C = wal_write_calm [OF p(1) wr, unfolded calm_def]
  have "fs_get w ?p \<noteq> None"
    using I(2) p(1) by (auto simp: log_for_def wal_inv_def)
  then have c: "x = None" "faults w1 = []" "only_touches ?p w w1" "bw_path (BufWriter l) = ?p"
    using C p(2) I(2) by (auto simp: log_for_def)
  have "wf_entry e"
    using assms(3) by (simp add: e write_entry_def wf_entry_def good_write_def maxEncodedKeyLen_def InternalTrailerLen_def)
  then have log: "wal_inv (es @ [e]) l w1" "bw_err (BufWriter l) = None" "putCounter l < DEFAULT_SYNC_THRESHOLD"
    "\<forall>x \<in> set (es @ [e]). wf_entry x"
    using wal_inv_write [OF _ wr, of es] I(2) c(1) by (auto simp: log_for_def)
  note FR = tables_log_frame [OF I(4) ts I(5) c(3,2)]
  let ?db = "db\<lparr>db_seqNum := db_seqNum db + 1, db_wal := l, db_memtable := memtable_insert bt (Key e) (Value e) (db_memtable db)\<rparr>"
  have "live db s" if "live ?db s" for s
    using that seq_plus_1(1) [OF assms(2)] by (auto simp: live_def)
  then have tab: "tables_for ?db F ts w1"
    using FR(1) by (simp add: tables_for_def)
  have pins: "pins_ok ?db"
    using I(6) seq_plus_1 [OF assms(2)] by (auto simp: pins_ok_def dest: less_imp_le order.trans)
  have hist: "hist_ok (db_seqNum ?db) (F @ map ent_version (es @ [e]))"
    using hist_ok_write [OF I(3) assms(2,3)] by (simp add: e)
  have "db_inv bt ok F (es @ [e]) ?db w1"
    using tab mem_for_write [OF I(1,3) assms(2,3) e, of ?db] log FR(2,3) c(4) pins hist
    by (auto simp: db_inv_def log_for_def env_ok_def cache_fine_def)
  then show ?thesis
    using wr c(1) by blast
qed

end

text \<open>The state between logging a write and the check whether the memtable is full.\<close>

definition logged :: "'t btree \<Rightarrow> gostring \<Rightarrow> InternalKeyKind \<Rightarrow> bytes \<Rightarrow> 't DB \<Rightarrow> world \<Rightarrow> 't DB \<times> world" where
  "logged bt k kind v db w =
     (let e = write_entry db k kind v
      in case wal_write (Key e) (Value e) (db_wal db) w of
           ((_, l), w1) \<Rightarrow>
             (db\<lparr>db_seqNum := db_seqNum db + 1, db_wal := l,
                 db_memtable := memtable_insert bt (Key e) (Value e) (db_memtable db)\<rparr>, w1))"

definition write_adjacent :: "'t btree \<Rightarrow> gostring \<Rightarrow> InternalKeyKind \<Rightarrow> bytes \<Rightarrow> 't DB \<Rightarrow> world \<Rightarrow> bool" where
  "write_adjacent bt k kind v db w \<longleftrightarrow>
     (case logged bt k kind v db w of
        (db1, w1) \<Rightarrow> memtable_Size (db_memtable db1) < DEFAULT_MEMTABLE_FLUSH_SIZE \<or> flush_adjacent bt db1 w1)"

lemma Put_logged:
  assumes "good_write k InternalKeyKindSet v" "e = write_entry db k InternalKeyKindSet v"
    and "wal_write (Key e) (Value e) (db_wal db) w = ((None, l), w1)"
  shows "Put bt k v db w = (case logged bt k InternalKeyKindSet v db w of (db1, w1) \<Rightarrow> flushIfFullLocked bt db1 w1)"
  using assms
  by (simp add: Put_def logged_def encodeNextKey_def Let_def wal_Put_def memtable_Put_def write_entry_def good_write_def)

lemma Delete_logged:
  assumes "good_write k InternalKeyKindDelete []" "e = write_entry db k InternalKeyKindDelete []"
    and "wal_write (Key e) (Value e) (db_wal db) w = ((None, l), w1)"
  shows "Delete bt k db w = (case logged bt k InternalKeyKindDelete [] db w of (db1, w1) \<Rightarrow> flushIfFullLocked bt db1 w1)"
  using assms
  by (simp add: Delete_def logged_def encodeNextKey_def Let_def wal_Delete_def memtable_Delete_def write_entry_def good_write_def)

text \<open>What a successful write leaves: the invariant for the history with one more version.\<close>

definition wrote_version :: "'t btree \<Rightarrow> ('t \<Rightarrow> bool) \<Rightarrow> version list \<Rightarrow> 't DB \<Rightarrow> version \<Rightarrow> (go_error option \<times> 't DB) \<times> world \<Rightarrow> bool" where
  "wrote_version bt ok H db kv r \<longleftrightarrow>
     (case r of ((e, db'), w') \<Rightarrow>
        e = None \<and> db_seqNum db' = db_seqNum db + 1 \<and> db_watermark db' = db_watermark db \<and> db_conf db' = db_conf db \<and>
        (\<exists>F es. db_inv bt ok F es db' w' \<and> F @ map ent_version es = H @ [kv]))"

context google_btree
begin

lemma flushIfFull_correct:
  assumes "db_inv bt ok F es db w" "length F + length es < 2 ^ 30"
    and "memtable_Size (db_memtable db) < DEFAULT_MEMTABLE_FLUSH_SIZE \<or> flush_adjacent bt db w"
  shows "\<exists>db' w' F' es'. flushIfFullLocked bt db w = ((None, db'), w') \<and> db_inv bt ok F' es' db' w' \<and>
    F' @ map ent_version es' = F @ map ent_version es \<and>
    db_seqNum db' = db_seqNum db \<and> db_watermark db' = db_watermark db \<and> db_conf db' = db_conf db \<and> outside (db_conf db) w w'"
proof (cases "memtable_Size (db_memtable db) < DEFAULT_MEMTABLE_FLUSH_SIZE")
  case True
  then show ?thesis
    using assms(1) by (auto simp: flushIfFullLocked_def)
next
  case False
  then obtain db' w' where "flushMemtableLocked bt db w = ((None, db'), w')" "db_inv bt ok (F @ map ent_version es) [] db' w'"
    "db_seqNum db' = db_seqNum db" "db_watermark db' = db_watermark db" "db_conf db' = db_conf db" "outside (db_conf db) w w'"
    using flush_correct [OF assms(1,2)] assms(3) by blast
  then show ?thesis
    using False by (intro exI [of _ db'] exI [of _ w'] exI [of _ "F @ map ent_version es"] exI [of _ "[]"])
      (simp add: flushIfFullLocked_def)
qed

lemma logged_flush_correct:
  assumes "db_inv bt ok F es db w" "db_seqNum db < SeqNumMax" "good_write k kind v"
    and "length F + length es + 1 < 2 ^ 30" "write_adjacent bt k kind v db w"
  shows "\<exists>l w1. wal_write (Key (write_entry db k kind v)) (Value (write_entry db k kind v)) (db_wal db) w = ((None, l), w1) \<and>
    wrote_version bt ok (F @ map ent_version es) db (write_version db k kind v)
      (case logged bt k kind v db w of (db1, w1) \<Rightarrow> flushIfFullLocked bt db1 w1) \<and>
    outside (db_conf db) w (snd (case logged bt k kind v db w of (db1, w1) \<Rightarrow> flushIfFullLocked bt db1 w1))"
proof -
  let ?e = "write_entry db k kind v"
  obtain l w1 where wr: "wal_write (Key ?e) (Value ?e) (db_wal db) w = ((None, l), w1)"
    and inv: "db_inv bt ok F (es @ [?e]) (fst (logged bt k kind v db w)) w1" and w1: "snd (logged bt k kind v db w) = w1"
    using write_correct [OF assms(1-3) refl] by (auto simp: logged_def Let_def)
  define db1 where "db1 = fst (logged bt k kind v db w)"
  have lg: "logged bt k kind v db w = (db1, w1)"
    using w1 by (simp add: db1_def prod_eq_iff)
  have same: "db_seqNum db1 = db_seqNum db + 1" "db_watermark db1 = db_watermark db" "db_conf db1 = db_conf db"
    using wr by (simp_all add: db1_def logged_def Let_def)
  have "memtable_Size (db_memtable db1) < DEFAULT_MEMTABLE_FLUSH_SIZE \<or> flush_adjacent bt db1 w1"
    using assms(5) lg by (simp add: write_adjacent_def)
  then obtain db' w' F' es' where "flushIfFullLocked bt db1 w1 = ((None, db'), w')" "db_inv bt ok F' es' db' w'"
    "F' @ map ent_version es' = F @ map ent_version (es @ [?e])"
    "db_seqNum db' = db_seqNum db1" "db_watermark db' = db_watermark db1" "db_conf db' = db_conf db1" "outside (db_conf db1) w1 w'"
    using flushIfFull_correct [OF inv [folded db1_def]] assms(4) by auto
  then have W: "wrote_version bt ok (F @ map ent_version es) db (write_version db k kind v) (flushIfFullLocked bt db1 w1)"
    "outside (db_conf db) w1 (snd (flushIfFullLocked bt db1 w1))"
    using same by (auto simp: wrote_version_def)
  have "bw_path (BufWriter (db_wal db)) = WALPath (db_conf db)"
    using assms(1) by (simp add: db_inv_def env_ok_def)
  then have "only_touches (WALPath (db_conf db)) w w1"
    using wal_write_calm [OF _ wr] by (simp add: calm_def)
  then show ?thesis
    using wr lg W outside_trans [OF outside_log] by simp
qed

lemma Put_correct:
  assumes "db_inv bt ok F es db w" "db_seqNum db < SeqNumMax" "length k \<le> MAX_KEY_LENGTH" "length v \<le> MAX_VALUE_LENGTH"
    and "length F + length es + 1 < 2 ^ 30" "write_adjacent bt k InternalKeyKindSet v db w"
  shows "wrote_version bt ok (F @ map ent_version es) db (write_version db k InternalKeyKindSet v) (Put bt k v db w)"
    "outside (db_conf db) w (snd (Put bt k v db w))"
proof -
  have g: "good_write k InternalKeyKindSet v"
    using assms(3,4) by (simp add: good_write_def)
  show "wrote_version bt ok (F @ map ent_version es) db (write_version db k InternalKeyKindSet v) (Put bt k v db w)"
    "outside (db_conf db) w (snd (Put bt k v db w))"
    using logged_flush_correct [OF assms(1,2) g assms(5,6)] Put_logged [OF g refl] by metis+
qed

lemma Delete_correct:
  assumes "db_inv bt ok F es db w" "db_seqNum db < SeqNumMax" "length k \<le> MAX_KEY_LENGTH"
    and "length F + length es + 1 < 2 ^ 30" "write_adjacent bt k InternalKeyKindDelete [] db w"
  shows "wrote_version bt ok (F @ map ent_version es) db (write_version db k InternalKeyKindDelete []) (Delete bt k db w)"
    "outside (db_conf db) w (snd (Delete bt k db w))"
proof -
  have g: "good_write k InternalKeyKindDelete []"
    using assms(3) by (simp add: good_write_def)
  show "wrote_version bt ok (F @ map ent_version es) db (write_version db k InternalKeyKindDelete []) (Delete bt k db w)"
    "outside (db_conf db) w (snd (Delete bt k db w))"
    using logged_flush_correct [OF assms(1,2) g assms(4,5)] Delete_logged [OF g refl] by metis+
qed

end

subsection \<open>Snapshots\<close>

lemma tables_for_live:
  assumes "tables_for db F ts w" "\<And>s. live db' s \<Longrightarrow> live db s" "db_sstables db' = db_sstables db"
  shows "tables_for db' F ts w"
  using assms unfolding tables_for_def by metis

lemma GetSnapshot_inv:
  assumes "db_inv bt ok F es db w"
  shows "db_inv bt ok F es (snd (GetSnapshot db)) w" "live (snd (GetSnapshot db)) (fst (GetSnapshot db))"
proof -
  let ?db = "snd (GetSnapshot db)"
  have P: "watermark_inv (db_watermark db)" "\<forall>s. 0 < refcount (db_watermark db) s \<longrightarrow> s \<le> db_seqNum db" "db_seqNum db \<le> SeqNumMax"
    using assms by (simp_all add: db_inv_def pins_ok_def)
  have "live db s" if "live ?db s" for s
    using that P(3) by (auto simp: live_def GetSnapshot_def Let_def split: if_splits)
  moreover obtain ts where "tables_for db F ts w"
    using assms by (auto simp: db_inv_def)
  ultimately have "tables_for ?db F ts w"
    using tables_for_live [of db F ts w ?db] by (simp add: GetSnapshot_def Let_def)
  moreover have "pins_ok ?db"
    using P watermark_inv_Begin by (auto simp: pins_ok_def GetSnapshot_def Let_def)
  ultimately show "db_inv bt ok F es ?db w"
    using assms by (auto simp: db_inv_def mem_for_def log_for_def env_ok_def cache_fine_def GetSnapshot_def Let_def)
  show "live ?db (fst (GetSnapshot db))"
    using P(3) by (simp add: live_def GetSnapshot_def Let_def)
qed

lemma ReleaseSnapshot_inv:
  assumes "db_inv bt ok F es db w"
  shows "db_inv bt ok F es (ReleaseSnapshot s db) w"
proof -
  let ?db = "ReleaseSnapshot s db"
  have P: "watermark_inv (db_watermark db)" "\<forall>s. 0 < refcount (db_watermark db) s \<longrightarrow> s \<le> db_seqNum db" "db_seqNum db \<le> SeqNumMax"
    using assms by (simp_all add: db_inv_def pins_ok_def)
  have pos: "0 < refcount (db_watermark db) t" if "0 < refcount (Done s (db_watermark db)) t" for t
    using that refcount_Done [OF P(1), of s t] by (auto split: if_splits)
  then have "live db t" if "live ?db t" for t
    using that by (auto simp: live_def ReleaseSnapshot_def)
  moreover obtain ts where "tables_for db F ts w"
    using assms by (auto simp: db_inv_def)
  ultimately have "tables_for ?db F ts w"
    using tables_for_live [of db F ts w ?db] by (simp add: ReleaseSnapshot_def)
  moreover have "pins_ok ?db"
    using P watermark_inv_Done pos by (auto simp: pins_ok_def ReleaseSnapshot_def)
  ultimately show ?thesis
    using assms by (auto simp: db_inv_def mem_for_def log_for_def env_ok_def cache_fine_def ReleaseSnapshot_def)
qed

end
