(* ===== verification/Db_Recovery.thy ===== *)
theory Db_Recovery
  imports Db_Refinement
begin

text \<open>
  Opening a database, and what a crash can lose. The tables in the directory are opened newest name
  first, the log is replayed into a new memtable and cut at the first damaged record, and the last
  sequence number is recovered from both. If the names of the tables are ordered as the tables are,
  the opened database satisfies the invariant of \<^verbatim>\<open>Db_Refinement\<close> for a history that lacks at most the
  writes that were not synced.
\<close>

section \<open>Opening the tables\<close>

definition table_name :: "gostring \<Rightarrow> SSTable \<Rightarrow> gostring" where
  "table_name dir t = drop (length dir + 1) (FilePath t)"

text \<open>The file names sort as the list of tables does, newest first.\<close>

definition names_newest_first :: "gostring \<Rightarrow> SSTable list \<Rightarrow> bool" where
  "names_newest_first dir tables \<longleftrightarrow> sorted_wrt (\<lambda>a b. table_name dir b < table_name dir a) tables"

lemma in_dir_split: "in_dir dir q \<Longrightarrow> dir @ lit ''/'' @ drop (length dir + 1) q = q"
  by (metis append.assoc append_take_drop_id in_dir_def)

lemma set_dir_names: "set (dir_names dir w) = drop (length dir + 1) ` {q. in_dir dir q \<and> fs_get w q \<noteq> None}"
proof -
  have "q \<in> fst ` set (files w) \<longleftrightarrow> fs_get w q \<noteq> None" for q
    by (simp add: fs_get_def map_of_eq_None_iff)
  then show ?thesis
    by (auto simp: dir_names_def in_dir_def image_iff)
qed

lemma dir_names_tables:
  assumes "dir_exact dir (map fst ts) w" "tables_hold w ts" "names_newest_first dir (map fst ts)"
  shows "rev (sort (dir_names dir w)) = map (table_name dir) (map fst ts)"
proof -
  let ?ns = "map (table_name dir) (map fst ts)"
  have "fs_get w (FilePath t) \<noteq> None" if "t \<in> fst ` set ts" for t
    using assms(2) that table_holds_exists by (fastforce simp: tables_hold_def list_all_iff)
  then have "{q. in_dir dir q \<and> fs_get w q \<noteq> None} = FilePath ` fst ` set ts"
    using assms(1) by (auto simp: dir_exact_def)
  then have set: "set (dir_names dir w) = set ?ns"
    by (auto simp: set_dir_names table_name_def image_iff)
  have sorted: "sorted_wrt (<) (rev ?ns)"
    using assms(3) by (simp add: names_newest_first_def sorted_wrt_rev sorted_wrt_map)
  have "sort (dir_names dir w) = rev ?ns"
    by (rule sorted_distinct_set_unique) (use sorted set in \<open>auto simp: strict_sorted_iff dir_names_def\<close>)
  then show ?thesis by simp
qed

definition reopened :: "(SSTable \<times> BlockEntry list) list \<Rightarrow> (SSTable \<times> BlockEntry list) list" where
  "reopened ts = map (\<lambda>(t, es). (SetCache (table_of (FilePath t) es), es)) ts"

lemma open_all_tables:
  assumes "\<forall>(t, es) \<in> set ts. table_holds w t es"
  shows "open_all (map FilePath (map fst ts)) acc w = Inr (acc @ map (\<lambda>(t, es). table_of (FilePath t) es) ts)"
  using assms
proof (induction ts arbitrary: acc)
  case (Cons x ts)
  obtain t es where x: "x = (t, es)"
    by (cases x)
  then have "sst_Open (FilePath t) w = Inr (table_of (FilePath t) es)"
    using Cons.prems by (intro sst_Open_table [of w _ "complete_file es"]) (auto simp: table_holds_def complete_file_def)
  then show ?case
    using Cons x by simp
qed simp

lemma OpenAllInDir_tables:
  assumes "dir_exact dir (map fst ts) w" "tables_hold w ts" "names_newest_first dir (map fst ts)"
  shows "OpenAllInDir dir w = Inr (map (\<lambda>(t, es). table_of (FilePath t) es) ts)"
proof -
  have "dir @ lit ''/'' @ table_name dir t = FilePath t" if "t \<in> fst ` set ts" for t
    using assms(1) that in_dir_split [of dir "FilePath t"] by (auto simp: dir_exact_def table_name_def)
  then have "map (\<lambda>name. dir @ lit ''/'' @ name) (rev (sort (dir_names dir w))) = map FilePath (map fst ts)"
    unfolding dir_names_tables [OF assms] by simp
  moreover have "\<forall>(t, es) \<in> set ts. table_holds w t es"
    using assms(2) by (simp add: tables_hold_def list_all_iff)
  ultimately show ?thesis
    using open_all_tables [of ts w "[]"] by (simp add: OpenAllInDir_def)
qed

lemma reopened_snd [simp]: "map snd (reopened ts) = map snd ts"
  by (simp add: reopened_def comp_def case_prod_beta)

lemma reopened_fst: "map fst (reopened ts) = map SetCache (map (\<lambda>(t, es). table_of (FilePath t) es) ts)"
  by (simp add: reopened_def comp_def case_prod_beta)

lemma tables_hold_reopened:
  assumes "tables_hold w ts"
  shows "tables_hold w (reopened ts)"
proof -
  have "table_holds w (table_of (FilePath t) es) es" if "table_holds w t es" for t es
    using that by (simp add: table_holds_def table_of_def)
  then show ?thesis
    using assms by (auto simp: tables_hold_def list_all_iff reopened_def comp_def case_prod_beta table_of_def)
qed

section \<open>The last sequence number\<close>

lemma max_seq_Cons: "max_seq (x # es) m = max_seq es (if m < key_SeqNum (dkey x) then key_SeqNum (dkey x) else m)"
  by (simp add: max_seq_def Let_def)

lemma max_seq_ge: "m \<le> max_seq es m" "e \<in> set es \<Longrightarrow> key_SeqNum (dkey e) \<le> max_seq es m"
proof -
  show ge: "m \<le> max_seq es m" for es m
  proof (induction es arbitrary: m)
    case (Cons x es)
    from Cons [of "if m < key_SeqNum (dkey x) then key_SeqNum (dkey x) else m"] show ?case
      unfolding max_seq_Cons by (auto split: if_splits)
  qed (simp add: max_seq_def)
  show "e \<in> set es \<Longrightarrow> key_SeqNum (dkey e) \<le> max_seq es m"
  proof (induction es arbitrary: m)
    case (Cons x es)
    then show ?case
      using ge [of "key_SeqNum (dkey x)" es] ge [of m es] unfolding max_seq_Cons by (auto simp: not_less)
  qed simp
qed

lemma max_seq_bound: "m \<le> SeqNumMax \<Longrightarrow> max_seq es m \<le> SeqNumMax"
proof (induction es arbitrary: m)
  case (Cons x es)
  then show ?case
    unfolding max_seq_Cons using unat_trailer_SeqNum_bound by (simp add: key_SeqNum_def)
qed (simp add: max_seq_def)

lemma max_seq_append: "max_seq (xs @ ys) m = max_seq ys (max_seq xs m)"
  by (simp add: max_seq_def)

lemma max_seq_tables_eq:
  "\<forall>(t, es) \<in> set ts. table_holds w t es \<Longrightarrow> max_seq_tables (map fst ts) m w = Inr (max_seq (concat (map snd ts)) m)"
proof (induction ts arbitrary: m)
  case (Cons x ts)
  then show ?case
    by (cases x) (auto simp: NewBlockIterator_table max_seq_append)
qed (simp add: max_seq_def)

section \<open>Replaying the log\<close>

lemma Key_encode:
  assumes "wf_version (ent_version e)"
  shows "encode_key (fst (ent_version e)) = Key e"
proof -
  have "8 \<le> length (Key e)"
  proof (rule ccontr)
    assume "\<not> 8 \<le> length (Key e)"
    then have "key_Kind (DecodeInternalKey (Key e)) = InternalKeyKindInvalid"
      by (simp add: DecodeInternalKey_def InternalTrailerLen_def key_Kind_def trailer_Kind_def InternalKeyKindInvalid_def)
    then show False
      using assms by (simp add: wf_version_def ent_version_def key_Valid_def InternalKeyKindMax_def InternalKeyKindInvalid_def
          word_le_nat_alt)
  qed
  then show ?thesis
    by (simp add: ent_version_def encode_Decode_key)
qed

lemma rebuild_entries:
  assumes "\<forall>e \<in> set rs. wf_version (ent_version e)"
  shows "\<exists>m'. fold (rebuild_entry bt) rs (mt, m) = (fold (mem_apply bt) (map ent_version rs) mt, m') \<and> m \<le> m' \<and>
    (\<forall>e \<in> set rs. seq_of (ent_version e) \<le> m') \<and> (m \<le> SeqNumMax \<longrightarrow> m' \<le> SeqNumMax)"
  using assms
proof (induction rs arbitrary: mt m)
  case (Cons e rs)
  let ?m = "if m < seq_of (ent_version e) then seq_of (ent_version e) else m"
  have step: "rebuild_entry bt e (mt, m) = (mem_apply bt (ent_version e) mt, ?m)"
    using Key_encode [of e] Cons.prems by (simp add: rebuild_entry_def mem_apply_def Let_def ent_version_def)
  obtain m' where "fold (rebuild_entry bt) rs (mem_apply bt (ent_version e) mt, ?m) =
      (fold (mem_apply bt) (map ent_version rs) (mem_apply bt (ent_version e) mt), m')" "?m \<le> m'"
    "\<forall>e \<in> set rs. seq_of (ent_version e) \<le> m'" "?m \<le> SeqNumMax \<longrightarrow> m' \<le> SeqNumMax"
    using Cons.IH [of "mem_apply bt (ent_version e) mt" ?m] Cons.prems by auto
  moreover have "m \<le> ?m" "seq_of (ent_version e) \<le> ?m" "m \<le> SeqNumMax \<longrightarrow> ?m \<le> SeqNumMax"
    using unat_trailer_SeqNum_bound by (auto simp: key_SeqNum_def)
  ultimately show ?case
    using step by (intro exI [of _ m']) auto
qed simp

lemma replay_log:
  assumes "\<forall>e \<in> set es. wf_entry e" "faults w = []"
    and "fs_get w p = Some \<lparr>fdata = take n (encode_log es), durable = length (take n (encode_log es))\<rparr>"
  defines "l \<equiv> \<lparr>BufWriter = bw_new p None, putCounter = 0\<rparr>" and "rs \<equiv> complete_records n es"
  shows "\<exists>w'. Replay l w = (Inr rs, l, w') \<and> only_touches p w w' \<and> faults w' = [] \<and> wal_inv rs l w'"
proof -
  let ?f = "\<lparr>fdata = take n (encode_log es), durable = length (take n (encode_log es))\<rparr>"
  have "log_file l ?f w"
    using assms(2,3) by (simp add: log_file_def l_def bw_new_def)
  then have R: "replays_to l ?f w rs"
    using Replay_torn [OF assms(1), of l ?f w n] by (simp add: rs_def)
  have k: "length (encode_log rs) \<le> length (take n (encode_log es))"
    using length_complete_records [of n es] arg_cong [OF take_complete_records [of n es], of length] by (simp add: rs_def)
  have "wal_inv rs l w'" if "fs_get w' p = Some \<lparr>fdata = encode_log rs, durable = length (encode_log rs)\<rparr>" for w'
    using that by (simp add: wal_inv_def l_def bw_new_def)
  then show ?thesis
    using R k by (auto simp: replays_to_def l_def bw_new_def min_absorb1 simp del: length_take)
qed

section \<open>Opening\<close>

text \<open>A disk that holds the tables \<open>ts\<close> of the flushed history \<open>F\<close> and the first \<open>n\<close> bytes of the log of \<open>es\<close>.\<close>

definition disk_ok :: "Config \<Rightarrow> version list \<Rightarrow> Entry list \<Rightarrow> nat \<Rightarrow> (SSTable \<times> BlockEntry list) list \<Rightarrow> world \<Rightarrow> bool" where
  "disk_ok conf F es n ts w \<longleftrightarrow>
     faults w = [] \<and> clock_fresh (SSTDir conf) w \<and> \<not> in_dir (SSTDir conf) (WALPath conf) \<and>
     dir_exact (SSTDir conf) (map fst ts) w \<and> names_newest_first (SSTDir conf) (map fst ts) \<and>
     tables_hold w ts \<and> newest_first (map snd ts) \<and>
     set (table_versions ts) \<subseteq> set F \<and> length (concat (map snd ts)) \<le> length F \<and>
     (\<forall>u. newest u SeqNumMax (table_versions ts) = newest u SeqNumMax F) \<and>
     hist_ok SeqNumMax (F @ map ent_version es) \<and> (\<forall>e \<in> set es. wf_entry e) \<and>
     (case fs_get w (WALPath conf) of
        None \<Rightarrow> es = []
      | Some f \<Rightarrow> f = \<lparr>fdata = take n (encode_log es), durable = length (take n (encode_log es))\<rparr>)"

text \<open>The greatest sequence number in the tables bounds the flushed history.\<close>

lemma flushed_bound:
  assumes "\<forall>u. newest u SeqNumMax (table_versions ts) = newest u SeqNumMax F" "kv \<in> set F"
  shows "seq_of kv \<le> max_seq (concat (map snd ts)) 0"
proof -
  let ?u = "UserKey (fst kv)"
  have m: "matches ?u SeqNumMax kv"
    using unat_trailer_SeqNum_bound by (simp add: matches_def Visible_def key_SeqNum_def)
  then obtain r where r: "newest ?u SeqNumMax F = Some r"
    using assms(2) by (metis newest_None_iff not_Some_eq)
  have "r \<in> set (table_versions ts)"
    using newest_Some(1) [of ?u SeqNumMax "table_versions ts" r] r assms(1) by simp
  then obtain e where e: "e \<in> set (concat (map snd ts))" "r = entry_version e"
    by (auto simp: set_versions)
  have "seq_of kv \<le> seq_of r"
    by (rule newest_seqnum [OF r assms(2) m])
  also have "seq_of r \<le> max_seq (concat (map snd ts)) 0"
    using max_seq_ge(2) [OF e(1)] by (simp add: e(2) entry_version_def)
  finally show ?thesis .
qed

lemma wal_Open_log:
  assumes "disk_ok conf F es n ts w"
  defines "p \<equiv> WALPath conf"
  shows "\<exists>w'. wal_Open p w = (Inr \<lparr>BufWriter = bw_new p None, putCounter = 0\<rparr>, w') \<and> only_touches p w w' \<and> faults w' = [] \<and>
    fs_get w' p = Some \<lparr>fdata = take n (encode_log es), durable = length (take n (encode_log es))\<rparr>"
  using assms(1)
  by (auto simp: disk_ok_def wal_Open_def bind_io_def return_io_def os_Create_def p_def split: option.splits)

lemma db_Open_unfold:
  assumes "faults w = []" "wal_Open (WALPath conf) w = (Inr l, w1)" "Replay l w1 = (Inr rs, l', w2)"
    and "fold (rebuild_entry bt) rs (NewMemTable bt, 0) = (mt, m)"
    and "OpenAllInDir (SSTDir conf) w2 = Inr ss" "maxSeqNumInTables (map SetCache ss) w2 = Inr m2"
  shows "db_Open bt conf w =
    (Inr \<lparr>db_wal = l', db_memtable = mt, db_sstables = map SetCache ss, db_conf = conf,
      db_blockCache = NewShardedLRU DEFAULT_CACHE_SHARD_COUNT (DEFAULT_BLOCK_CACHE_ENTRIES div DEFAULT_CACHE_SHARD_COUNT),
      db_seqNum = max m m2, db_watermark = NewWatermark\<rparr>, w2)"
  using assms by (simp add: db_Open_def os_MkdirAll_def rebuildMemtable_def)

lemma cache_New: "cache_ok T w (NewShardedLRU 16 k)" "cache_keys Q (NewShardedLRU 16 k)"
  by (simp_all add: cache_ok_New cache_keys_def sharded.coherent_def sharded_inv_New)

lemma hist_ok_distinct: "hist_ok n H \<Longrightarrow> distinct (map fst H)"
proof -
  assume "hist_ok n H"
  then have "sorted_wrt (<) (map key_SeqNum (map fst H))"
    by (simp add: hist_ok_def sorted_wrt_map)
  then show ?thesis
    unfolding strict_sorted_iff distinct_map by blast
qed

lemma hist_ok_prefix: "hist_ok n H \<Longrightarrow> prefix G H \<Longrightarrow> hist_ok n G"
  unfolding prefix_def using hist_ok_append by blast

context google_btree
begin

lemma Open_correct:
  assumes "disk_ok conf F es n ts w"
  shows "\<exists>db w'. db_Open bt conf w = (Inr db, w') \<and> db_inv bt ok F (complete_records n es) db w' \<and>
    db_conf db = conf \<and> db_watermark db = NewWatermark"
proof -
  let ?dir = "SSTDir conf" and ?p = "WALPath conf"
  define rs where "rs = complete_records n es"
  have D: "faults w = []" "clock_fresh ?dir w" "\<not> in_dir ?dir ?p" "dir_exact ?dir (map fst ts) w"
    "names_newest_first ?dir (map fst ts)" "tables_hold w ts" "newest_first (map snd ts)"
    "set (table_versions ts) \<subseteq> set F" "length (concat (map snd ts)) \<le> length F"
    "\<forall>u. newest u SeqNumMax (table_versions ts) = newest u SeqNumMax F"
    "hist_ok SeqNumMax (F @ map ent_version es)" "\<forall>e \<in> set es. wf_entry e"
    using assms by (simp_all add: disk_ok_def)
  let ?l = "\<lparr>BufWriter = bw_new ?p None, putCounter = 0\<rparr>"
  obtain w1 where W1: "wal_Open ?p w = (Inr ?l, w1)" "only_touches ?p w w1" "faults w1 = []"
    "fs_get w1 ?p = Some \<lparr>fdata = take n (encode_log es), durable = length (take n (encode_log es))\<rparr>"
    using wal_Open_log [OF assms] by blast
  obtain w2 where W2: "Replay ?l w1 = (Inr rs, ?l, w2)" "only_touches ?p w1 w2" "faults w2 = []" "wal_inv rs ?l w2"
    using replay_log [OF D(12) W1(3,4)] unfolding rs_def by blast
  have touch: "only_touches ?p w w2"
    by (rule only_touches_trans [OF W1(2) W2(2)])
  have pre: "prefix rs es"
    using complete_records_prefix by (simp add: rs_def)
  then have hist: "hist_ok SeqNumMax (F @ map ent_version rs)"
    by (intro hist_ok_prefix [OF D(11)]) (simp add: map_mono_prefix)
  then have wf: "\<forall>e \<in> set rs. wf_version (ent_version e)"
    by (simp add: hist_ok_def)
  obtain m where m: "fold (rebuild_entry bt) rs (NewMemTable bt, 0) = (fold (mem_apply bt) (map ent_version rs) (NewMemTable bt), m)"
    "\<forall>e \<in> set rs. seq_of (ent_version e) \<le> m" "m \<le> SeqNumMax"
    using rebuild_entries [OF wf, of bt "NewMemTable bt" 0] by auto
  have files: "fs_get w2 q = fs_get w q" if "in_dir ?dir q" for q
    using touch D(3) that unfolding only_touches_def by metis
  have dir2: "dir_exact ?dir (map fst ts) w2"
    using D(4) files unfolding dir_exact_def by metis
  have hold2: "tables_hold w2 ts"
    by (rule tables_hold_frame [OF D(6)]) (use D(4) files in \<open>auto simp: dir_exact_def\<close>)
  have ss: "OpenAllInDir ?dir w2 = Inr (map (\<lambda>(t, es). table_of (FilePath t) es) ts)"
    by (rule OpenAllInDir_tables [OF dir2 hold2 D(5)])
  let ?m2 = "max_seq (concat (map snd ts)) 0"
  have "\<forall>(t, es) \<in> set (reopened ts). table_holds w2 t es"
    using tables_hold_reopened [OF hold2] by (simp add: tables_hold_def list_all_iff)
  then have m2: "maxSeqNumInTables (map fst (reopened ts)) w2 = Inr ?m2"
    unfolding maxSeqNumInTables_def by (simp add: max_seq_tables_eq)
  define db where "db = \<lparr>db_wal = ?l, db_memtable = fold (mem_apply bt) (map ent_version rs) (NewMemTable bt),
    db_sstables = map fst (reopened ts), db_conf = conf,
    db_blockCache = NewShardedLRU DEFAULT_CACHE_SHARD_COUNT (DEFAULT_BLOCK_CACHE_ENTRIES div DEFAULT_CACHE_SHARD_COUNT),
    db_seqNum = max m ?m2, db_watermark = NewWatermark\<rparr>"
  have db: "db_Open bt conf w = (Inr db, w2)" "db_wal db = ?l" "db_sstables db = map fst (reopened ts)"
    "db_memtable db = fold (mem_apply bt) (map ent_version rs) (NewMemTable bt)" "db_conf db = conf" "db_seqNum db = max m ?m2"
    "db_watermark db = NewWatermark" "db_blockCache db = NewShardedLRU 16 16"
    using db_Open_unfold [OF D(1) W1(1) W2(1) m(1) ss m2 [unfolded reopened_fst]]
    by (simp_all add: db_def reopened_fst DEFAULT_CACHE_SHARD_COUNT_def DEFAULT_BLOCK_CACHE_ENTRIES_def)
  have bound: "seq_of kv \<le> db_seqNum db" if "kv \<in> set (F @ map ent_version rs)" for kv
    using that flushed_bound [OF D(10), of kv] m(2) by (auto simp: db(6) le_max_iff_disj)
  have hist2: "hist_ok (db_seqNum db) (F @ map ent_version rs)"
    using hist bound by (auto simp: hist_ok_def)
  have "newest u s (table_versions ts) = newest u s F" if "live db s" for u s
  proof -
    have s: "db_seqNum db \<le> s" "s \<le> SeqNumMax"
      using that by (simp_all add: live_def db(7) refcount_def NewWatermark_def)
    have "seq_of kv \<le> s" "seq_of kv \<le> SeqNumMax" if "kv \<in> set F" for kv
      using bound [of kv] that s by auto
    then have "newest u s X = newest u SeqNumMax X" if "set X \<subseteq> set F" for X
      using that by (intro newest_all_visible) auto
    then show ?thesis
      using D(8,10) by auto
  qed
  then have tab: "tables_for db F (reopened ts) w2"
    using tables_hold_reopened [OF hold2] D(7-9) unfolding tables_for_def reopened_snd db(3) by blast
  have "distinct (map fst (map ent_version rs))"
    using hist_ok_distinct hist_ok_append [OF hist] by blast
  then have mem: "mem_for bt ok rs db"
    using mem_apply_run [of "map ent_version rs"] wf by (simp add: mem_for_def db(4) list_all_iff)
  have log: "log_for rs db w2"
    using W2(4) D(12) pre set_mono_prefix [OF pre] by (auto simp: log_for_def db(2) bw_new_def DEFAULT_SYNC_THRESHOLD_def)
  have "dir_exact ?dir (map fst (reopened ts)) w2"
    using dir2 by (simp add: dir_exact_def reopened_fst image_image table_of_def case_prod_beta)
  moreover have "clock_fresh ?dir w2"
    using D(3) in_dir_sst_path [of ?dir] by (intro clock_fresh_only_touches [OF D(2) touch]) metis
  ultimately have env: "env_ok db w2"
    using W2(3) D(3) by (simp add: env_ok_def db(2,3,5) bw_new_def)
  have "pins_ok db"
    using m(3) max_seq_bound [of 0 "concat (map snd ts)"]
    by (simp add: pins_ok_def db(6,7) watermark_inv_def refcount_def NewWatermark_def)
  then have "db_inv bt ok F rs db w2"
    using tab mem log hist2 env cache_New by (auto simp: db_inv_def cache_fine_def db(8))
  then show ?thesis
    using db(1,5,7) by (auto simp: rs_def)
qed

end

section \<open>Crashes\<close>

text \<open>
  A power failure: every file keeps a prefix of its contents that includes what had been synced, and
  what is left is on the disk. The process that opens the database afterwards meets no faults.
\<close>

definition crash_of :: "world \<Rightarrow> world \<Rightarrow> bool" where
  "crash_of w w' \<longleftrightarrow>
     (\<forall>q. case fs_get w q of
            None \<Rightarrow> fs_get w' q = None
          | Some f \<Rightarrow> \<exists>n \<ge> durable f. fs_get w' q = Some \<lparr>fdata = take n (fdata f), durable = length (take n (fdata f))\<rparr>) \<and>
     faults w' = [] \<and> clock w' = clock w \<and> ticks w \<le> ticks w'"

lemma crash_get:
  assumes "crash_of w w'" "fs_get w q = Some f"
  shows "\<exists>n \<ge> durable f. fs_get w' q = Some \<lparr>fdata = take n (fdata f), durable = length (take n (fdata f))\<rparr>"
  using assms unfolding crash_of_def by (auto dest!: spec [of _ q])

lemma crash_exists: "crash_of w w' \<Longrightarrow> fs_get w' q \<noteq> None \<longleftrightarrow> fs_get w q \<noteq> None"
  unfolding crash_of_def by (auto dest!: spec [of _ q] split: option.splits)

lemma crash_complete:
  assumes "crash_of w w'" "fs_get w q = Some (complete_file es)"
  shows "fs_get w' q = Some (complete_file es)"
  using crash_get [OF assms] by (auto simp: complete_file_def)

lemma crash_tables: "crash_of w w' \<Longrightarrow> tables_hold w ts \<Longrightarrow> tables_hold w' ts"
  using crash_complete by (auto simp: tables_hold_def list_all_iff table_holds_def)

lemma crash_fresh: "crash_of w w' \<Longrightarrow> clock_fresh dir w \<Longrightarrow> clock_fresh dir w'"
  using crash_exists [of w w'] unfolding clock_fresh_def crash_of_def by (metis order.trans)

lemma crash_dir: "crash_of w w' \<Longrightarrow> dir_exact dir tables w \<Longrightarrow> dir_exact dir tables w'"
  unfolding dir_exact_def using crash_exists by blast

lemma crash_log:
  assumes "crash_of w w'" "wal_inv es l w" "bw_err (BufWriter l) = None"
  shows "\<exists>n. fs_get w' (bw_path (BufWriter l)) = Some \<lparr>fdata = take n (encode_log es), durable = length (take n (encode_log es))\<rparr> \<and>
    length es \<le> length (complete_records n es) + putCounter l"
proof -
  obtain f where f: "fs_get w (bw_path (BufWriter l)) = Some f" "durable f \<le> length (fdata f)"
    "fdata f @ bw_buf (BufWriter l) = encode_log es"
    "length (encode_log (take (length es - putCounter l) es)) \<le> durable f"
    using assms(2,3) by (auto simp: wal_inv_def)
  obtain n where n: "durable f \<le> n"
    "fs_get w' (bw_path (BufWriter l)) = Some \<lparr>fdata = take n (fdata f), durable = length (take n (fdata f))\<rparr>"
    using crash_get [OF assms(1) f(1)] by blast
  let ?n = "min n (length (fdata f))"
  have cut: "take n (fdata f) = take ?n (encode_log es)"
    unfolding f(3) [symmetric] by (simp add: min_def)
  have "length (encode_log (take (length es - putCounter l) es)) \<le> ?n"
    using f(2,4) n(1) by simp
  then have "length es - putCounter l \<le> length (complete_records ?n es)"
    by (rule complete_records_ge) simp
  then show ?thesis
    using n(2) cut by (intro exI [of _ ?n]) auto
qed

lemma crash_disk:
  assumes "db_inv bt ok F es db w" "crash_of w w'" "names_newest_first (SSTDir (db_conf db)) (db_sstables db)"
  shows "\<exists>n ts. disk_ok (db_conf db) F es n ts w' \<and> length es \<le> length (complete_records n es) + putCounter (db_wal db)"
proof -
  let ?conf = "db_conf db"
  obtain ts where ts: "tables_for db F ts w"
    using assms(1) by (auto simp: db_inv_def)
  have I: "log_for es db w" "hist_ok (db_seqNum db) (F @ map ent_version es)" "env_ok db w" "pins_ok db"
    using assms(1) by (simp_all add: db_inv_def)
  have L: "wal_inv es (db_wal db) w" "bw_err (BufWriter (db_wal db)) = None" "\<forall>e \<in> set es. wf_entry e"
    using I(1) by (simp_all add: log_for_def)
  have E: "clock_fresh (SSTDir ?conf) w" "bw_path (BufWriter (db_wal db)) = WALPath ?conf"
    "\<not> in_dir (SSTDir ?conf) (WALPath ?conf)" "dir_exact (SSTDir ?conf) (db_sstables db) w"
    using I(3) by (simp_all add: env_ok_def)
  have le: "db_seqNum db \<le> SeqNumMax"
    using I(4) by (simp add: pins_ok_def)
  then have "live db SeqNumMax"
    by (simp add: live_def)
  then have T: "db_sstables db = map fst ts" "tables_hold w ts" "newest_first (map snd ts)" "set (table_versions ts) \<subseteq> set F"
    "length (concat (map snd ts)) \<le> length F" "\<forall>u. newest u SeqNumMax (table_versions ts) = newest u SeqNumMax F"
    using ts by (simp_all add: tables_for_def)
  obtain n where n: "fs_get w' (WALPath ?conf) = Some \<lparr>fdata = take n (encode_log es), durable = length (take n (encode_log es))\<rparr>"
    "length es \<le> length (complete_records n es) + putCounter (db_wal db)"
    using crash_log [OF assms(2) L(1,2)] E(2) by auto
  have "disk_ok ?conf F es n ts w'"
    unfolding disk_ok_def
    using crash_fresh [OF assms(2) E(1)] crash_dir [OF assms(2) E(4)] crash_tables [OF assms(2) T(2)] assms(2,3) E(3) T(1,3-6)
      hist_ok_mono [OF I(2) le] L(3) n(1)
    by (simp add: crash_of_def)
  then show ?thesis
    using n(2) by blast
qed

section \<open>Runs\<close>

text \<open>One operation of a client that succeeds, labelled with the versions it writes.\<close>

inductive db_step :: "'t btree \<Rightarrow> 't DB \<times> world \<Rightarrow> version list \<Rightarrow> 't DB \<times> world \<Rightarrow> bool" for bt where
  step_put: "length k \<le> MAX_KEY_LENGTH \<Longrightarrow> length v \<le> MAX_VALUE_LENGTH \<Longrightarrow> db_seqNum db < SeqNumMax \<Longrightarrow>
    write_adjacent bt k InternalKeyKindSet v db w \<Longrightarrow> Put bt k v db w = ((None, db'), w') \<Longrightarrow>
    db_step bt (db, w) [write_version db k InternalKeyKindSet v] (db', w')"
| step_delete: "length k \<le> MAX_KEY_LENGTH \<Longrightarrow> db_seqNum db < SeqNumMax \<Longrightarrow>
    write_adjacent bt k InternalKeyKindDelete [] db w \<Longrightarrow> Delete bt k db w = ((None, db'), w') \<Longrightarrow>
    db_step bt (db, w) [write_version db k InternalKeyKindDelete []] (db', w')"
| step_flush: "flush_adjacent bt db w \<Longrightarrow> ForceFlush bt db w = ((None, db'), w') \<Longrightarrow> db_step bt (db, w) [] (db', w')"
| step_get: "s \<le> SeqNumMax \<Longrightarrow> GetAt bt k s db w = (r, db') \<Longrightarrow> db_step bt (db, w) [] (db', w)"
| step_snapshot: "GetSnapshot db = (s, db') \<Longrightarrow> db_step bt (db, w) [] (db', w)"
| step_release: "ReleaseSnapshot s db = db' \<Longrightarrow> db_step bt (db, w) [] (db', w)"

inductive db_run :: "'t btree \<Rightarrow> 't DB \<times> world \<Rightarrow> version list \<Rightarrow> 't DB \<times> world \<Rightarrow> bool" for bt c0 where
  run_start: "db_run bt c0 [] c0"
| run_step: "db_run bt c0 H c \<Longrightarrow> db_step bt c vs c' \<Longrightarrow> db_run bt c0 (H @ vs) c'"

context google_btree
begin

text \<open>Reads keep the invariant at any snapshot.\<close>

lemma GetAt_inv:
  assumes "db_inv bt ok F es db w" "s \<le> SeqNumMax"
  shows "db_inv bt ok F es (snd (GetAt bt u s db w)) w" "db_conf (snd (GetAt bt u s db w)) = db_conf db"
proof -
  obtain ts where ts: "tables_for db F ts w"
    using assms(1) by (auto simp: db_inv_def)
  have parts: "env_ok db w" "cache_fine db w"
    using assms(1) by (simp_all add: db_inv_def)
  have T: "db_sstables db = map fst ts" "tables_hold w ts"
    using ts by (simp_all add: tables_for_def)
  have "\<exists>c. search_tables (db_sstables db) u s (db_blockCache db) w = (found (level_lookup u s (map (versions \<circ> snd) ts)), c) \<and>
    cache_ok (set (db_sstables db)) w c \<and> cache_keys (past_key (SSTDir (db_conf db)) w) c"
    using search_tables_spec [OF T(2) subset_refl _ assms(2) _ tables_past [OF parts(1) ts], of "db_blockCache db" u] parts(2) T(1)
    by (simp add: cache_fine_def)
  then obtain r c where c: "search_tables (db_sstables db) u s (db_blockCache db) w = (r, c)"
    "cache_ok (set (db_sstables db)) w c" "cache_keys (past_key (SSTDir (db_conf db)) w) c"
    by blast
  have keep: "db_inv bt ok F es (db\<lparr>db_blockCache := c\<rparr>) w"
    using assms(1) c(2,3) unfolding db_inv_def tables_for_def mem_for_def log_for_def env_ok_def cache_fine_def pins_ok_def live_def
    by simp
  have "snd (GetAt bt u s db w) = db \<or> snd (GetAt bt u s db w) = db\<lparr>db_blockCache := c\<rparr>"
    using c(1) by (auto simp: GetAt_def searchSSTables_def split: prod.splits KEY_LOOKUP_ENUM.splits)
  then show "db_inv bt ok F es (snd (GetAt bt u s db w)) w" "db_conf (snd (GetAt bt u s db w)) = db_conf db"
    using assms(1) keep by auto
qed

lemma step_inv:
  assumes "db_step bt c vs c'" "db_inv bt ok F es (fst c) (snd c)" "length F + length es + length vs < 2 ^ 30"
  shows "\<exists>F' es'. db_inv bt ok F' es' (fst c') (snd c') \<and> F' @ map ent_version es' = F @ map ent_version es @ vs \<and>
    db_conf (fst c') = db_conf (fst c)"
  using assms
proof cases
  case (step_put k v db w db' w')
  then show ?thesis
    using Put_correct(1) [of F es db w k v] assms(2,3) by (auto simp: wrote_version_def)
next
  case (step_delete k db w db' w')
  then show ?thesis
    using Delete_correct(1) [of F es db w k] assms(2,3) by (auto simp: wrote_version_def)
next
  case (step_flush db w db' w')
  then show ?thesis
    using flush_correct [of F es db w] assms(2,3)
    by (intro exI [of _ "F @ map ent_version es"] exI [of _ "[]"]) (auto simp: ForceFlush_def)
next
  case (step_get s k db w r db')
  then show ?thesis
    using GetAt_inv [of F es db w s k] assms(2) by (intro exI [of _ F] exI [of _ es]) auto
next
  case (step_snapshot db s db' w)
  then show ?thesis
    using GetSnapshot_inv(1) [of bt ok F es db w] assms(2)
    by (intro exI [of _ F] exI [of _ es]) (auto simp: GetSnapshot_def Let_def)
next
  case (step_release s db db' w)
  then show ?thesis
    using ReleaseSnapshot_inv [of bt ok F es db w s] assms(2)
    by (intro exI [of _ F] exI [of _ es]) (auto simp: ReleaseSnapshot_def)
qed

lemma run_inv:
  assumes "db_run bt c0 H c" "db_inv bt ok F0 es0 (fst c0) (snd c0)" "length F0 + length es0 + length H < 2 ^ 30"
  shows "\<exists>F es. db_inv bt ok F es (fst c) (snd c) \<and> F @ map ent_version es = F0 @ map ent_version es0 @ H \<and>
    db_conf (fst c) = db_conf (fst c0)"
  using assms(1,3)
proof induction
  case run_start
  then show ?case using assms(2) by auto
next
  case (run_step H c vs c')
  then obtain F es where I: "db_inv bt ok F es (fst c) (snd c)" "F @ map ent_version es = F0 @ map ent_version es0 @ H"
    "db_conf (fst c) = db_conf (fst c0)"
    by auto
  have "length F + length es = length F0 + length es0 + length H"
    using arg_cong [OF I(2), of length] by simp
  then have "\<exists>F' es'. db_inv bt ok F' es' (fst c') (snd c') \<and> F' @ map ent_version es' = F @ map ent_version es @ vs \<and>
    db_conf (fst c') = db_conf (fst c)"
    using run_step.prems by (intro step_inv [OF run_step.hyps(2) I(1)]) simp
  moreover have "F @ map ent_version es @ vs = F0 @ map ent_version es0 @ H @ vs"
    using arg_cong [OF I(2), of "\<lambda>x. x @ vs"] by simp
  ultimately show ?case
    using I(3) by simp
qed

end

end
