(* ===== verification/Db_Properties.thy ===== *)
theory Db_Properties
  imports Db_Recovery
begin

text \<open>
  What a client of the package \<^verbatim>\<open>db\<close> can rely on. A database is measured against a key-value map that
  the writes of its history build up one after the other: reads at a snapshot are reads of the map
  built by the writes up to the snapshot. The theorems cover runs of operations from an empty disk,
  snapshots, crashes and clean shutdown, rejected and failed writes, and the ways in which opening
  can fail.
\<close>

section \<open>Definitions\<close>

text \<open>The abstract store.\<close>

definition kv_write :: "version \<Rightarrow> (gostring \<rightharpoonup> bytes) \<Rightarrow> gostring \<rightharpoonup> bytes" where
  "kv_write kv m =
     (if key_Kind (fst kv) = InternalKeyKindDelete then m(UserKey (fst kv) := None) else m(UserKey (fst kv) \<mapsto> snd kv))"

definition kv_store :: "version list \<Rightarrow> gostring \<rightharpoonup> bytes" where
  "kv_store H = fold kv_write H Map.empty"

definition kv_get :: "gostring \<Rightarrow> (gostring \<rightharpoonup> bytes) \<Rightarrow> bytes \<times> bool" where
  "kv_get u m = (case m u of None \<Rightarrow> ([], False) | Some v \<Rightarrow> (v, True))"

definition writes_until :: "SeqNum \<Rightarrow> version list \<Rightarrow> version list" where
  "writes_until s H = filter (\<lambda>kv. seq_of kv \<le> s) H"

text \<open>A disk without files; the log is not among the table files.\<close>

definition empty_disk :: "Config \<Rightarrow> world \<Rightarrow> bool" where
  "empty_disk conf w \<longleftrightarrow> files w = [] \<and> faults w = [] \<and> inj (clock w) \<and> \<not> in_dir (SSTDir conf) (WALPath conf)"

text \<open>The states a database on an empty disk reaches with fewer than \<open>2 ^ 30\<close> writes, and what was written.\<close>

definition reached :: "'t btree \<Rightarrow> Config \<Rightarrow> version list \<Rightarrow> 't DB \<Rightarrow> world \<Rightarrow> bool" where
  "reached bt conf H db w \<longleftrightarrow>
     length H < 2 ^ 30 \<and>
     (\<exists>w0 db1 w1. empty_disk conf w0 \<and> db_Open bt conf w0 = (Inr db1, w1) \<and> db_run bt (db1, w1) H (db, w))"

section \<open>Histories as maps\<close>

lemma newest_single: "newest u s [x] = (if matches u s x then Some x else None)"
  by (simp add: newest_def)

lemma kv_store_snoc: "kv_store (H @ [x]) = kv_write x (kv_store H)"
  by (simp add: kv_store_def)

lemma hist_get_store:
  assumes "hist_ok n H"
  shows "hist_get u s H = kv_get u (kv_store (writes_until s H))"
  using assms
proof (induction H rule: rev_induct)
  case Nil
  then show ?case
    by (simp add: hist_get_def lookup_spec_def newest_def answer_def found_def kv_get_def kv_store_def writes_until_def)
next
  case (snoc x H)
  have IH: "hist_get u s H = kv_get u (kv_store (writes_until s H))"
    using snoc hist_ok_append by blast
  have split: "newest u s (H @ [x]) = (if matches u s x then Some x else newest u s H)"
    using newest_split [OF snoc.prems, of u s] by (simp add: newest_single)
  show ?case
  proof (cases "seq_of x \<le> s")
    case False
    then have "writes_until s (H @ [x]) = writes_until s H" "\<not> matches u s x"
      by (simp_all add: writes_until_def matches_def Visible_def)
    then show ?thesis
      using IH split by (simp add: hist_get_def lookup_spec_def)
  next
    case True
    then have "writes_until s (H @ [x]) = writes_until s H @ [x]" "matches u s x \<longleftrightarrow> UserKey (fst x) = u"
      by (simp_all add: writes_until_def matches_def Visible_def)
    then show ?thesis
      using IH split
      by (auto simp: hist_get_def lookup_spec_def kv_store_snoc kv_write_def kv_get_def answer_def found_def)
  qed
qed

lemma writes_until_all: "hist_ok n H \<Longrightarrow> n \<le> s \<Longrightarrow> writes_until s H = H"
  by (auto simp: writes_until_def hist_ok_def filter_id_conv intro: order.trans)

section \<open>The disk at the start\<close>

lemma empty_disk_ok: "empty_disk conf w \<Longrightarrow> disk_ok conf [] [] 0 [] w"
  by (simp add: empty_disk_def disk_ok_def clock_fresh_def fs_get_def dir_exact_def names_newest_first_def tables_hold_def
      newest_first_def hist_ok_def)

context google_btree
begin

lemma Open_empty:
  assumes "empty_disk conf w"
  shows "\<exists>db w'. db_Open bt conf w = (Inr db, w') \<and> db_inv bt ok [] [] db w' \<and> db_conf db = conf"
  using Open_correct [OF empty_disk_ok [OF assms]] by auto

lemma reached_inv:
  assumes "reached bt conf H db w"
  shows "\<exists>F es. db_inv bt ok F es db w \<and> F @ map ent_version es = H \<and> db_conf db = conf"
proof -
  obtain w0 db1 w1 where R: "length H < 2 ^ 30" "empty_disk conf w0" "db_Open bt conf w0 = (Inr db1, w1)"
    "db_run bt (db1, w1) H (db, w)"
    using assms by (auto simp: reached_def)
  have "db_inv bt ok [] [] db1 w1" "db_conf db1 = conf"
    using Open_empty [OF R(2)] R(3) by auto
  then show ?thesis
    using run_inv [OF R(4), of "[]" "[]"] R(1) by simp
qed

lemma reached_read:
  assumes "reached bt conf H db w" "live db s"
  shows "fst (GetAt bt u s db w) = kv_get u (kv_store (writes_until s H))"
proof -
  obtain F es where I: "db_inv bt ok F es db w" "F @ map ent_version es = H"
    using reached_inv [OF assms(1)] by blast
  have "hist_ok (db_seqNum db) H"
    using I by (simp add: db_inv_def)
  then show ?thesis
    using GetAt_spec [OF I(1) assms(2), of u] I(2) hist_get_store by auto
qed

end

section \<open>Sequence numbers of a run\<close>

lemma resetWAL_keeps:
  "resetWAL db w = ((e, db'), w') \<Longrightarrow> db_seqNum db' = db_seqNum db \<and> db_watermark db' = db_watermark db"
  by (auto simp: resetWAL_def Let_def split: prod.splits sum.splits)

lemma flush_keeps:
  assumes "flushMemtableLocked bt db w = ((e, db'), w')"
  shows "db_seqNum db' = db_seqNum db" "db_watermark db' = db_watermark db"
  using assms by (auto simp: flushMemtableLocked_def Let_def dest!: resetWAL_keeps split: prod.splits sum.splits option.splits)

lemma flushIfFull_keeps:
  assumes "flushIfFullLocked bt db w = ((e, db'), w')"
  shows "db_seqNum db' = db_seqNum db" "db_watermark db' = db_watermark db"
  using assms flush_keeps [of bt db w e db' w'] by (auto simp: flushIfFullLocked_def split: if_splits)

lemma Put_seq: "Put bt k v db w = ((None, db'), w') \<Longrightarrow> db_seqNum db' = db_seqNum db + 1"
  by (auto simp: Put_def encodeNextKey_def Let_def dest!: flushIfFull_keeps(1) split: prod.splits option.splits if_splits)

lemma Delete_seq: "Delete bt k db w = ((None, db'), w') \<Longrightarrow> db_seqNum db' = db_seqNum db + 1"
  by (auto simp: Delete_def encodeNextKey_def Let_def dest!: flushIfFull_keeps(1) split: prod.splits option.splits if_splits)

lemma GetAt_keeps:
  "GetAt bt k s db w = (r, db') \<Longrightarrow> db_seqNum db' = db_seqNum db \<and> db_watermark db' = db_watermark db"
  by (auto simp: GetAt_def searchSSTables_def split: prod.splits KEY_LOOKUP_ENUM.splits)

lemma step_seq:
  assumes "db_step bt c vs c'"
  shows "db_seqNum (fst c') = db_seqNum (fst c) + of_nat (length vs) \<and> (\<forall>kv \<in> set vs. db_seqNum (fst c) < seq_of kv)"
  using assms
proof cases
  case (step_put k v db w db' w')
  then show ?thesis
    using write_version_facts(1) [of db k InternalKeyKindSet v] seq_plus_1(1) [of "db_seqNum db"] Put_seq [of bt k v db w db' w']
    by (simp add: good_write_def)
next
  case (step_delete k db w db' w')
  then show ?thesis
    using write_version_facts(1) [of db k InternalKeyKindDelete "[]"] seq_plus_1(1) [of "db_seqNum db"] Delete_seq [of bt k db w db' w']
    by (simp add: good_write_def MAX_VALUE_LENGTH_def)
next
  case (step_flush db w db' w')
  then show ?thesis
    using flush_keeps(1) [of bt db w None db' w'] by (simp add: ForceFlush_def)
next
  case (step_get s k db w r db')
  then show ?thesis
    using GetAt_keeps [of bt k s db w r db'] by simp
qed (auto simp: GetSnapshot_def ReleaseSnapshot_def Let_def)

lemma run_seq:
  assumes "db_run bt c0 H c"
  shows "db_seqNum (fst c) = db_seqNum (fst c0) + of_nat (length H)"
  using assms
proof induction
  case (run_step H c vs c')
  then show ?case
    using step_seq [OF run_step.hyps(2)] by simp
qed simp

lemma run_trans:
  assumes "db_run bt c1 H' c2" "db_run bt c0 H c1"
  shows "db_run bt c0 (H @ H') c2"
  using assms
proof (induction rule: db_run.induct)
  case (run_step H' c vs c')
  then show ?case
    using db_run.run_step [of bt c0 "H @ H'" c vs c'] by simp
qed simp

lemma run_newer:
  assumes "db_run bt c0 H c" "unat (db_seqNum (fst c0)) + length H < 2 ^ 32"
  shows "\<forall>kv \<in> set H. db_seqNum (fst c0) < seq_of kv"
  using assms
proof induction
  case (run_step H c vs c')
  have "db_seqNum (fst c0) \<le> db_seqNum (fst c)"
    using run_step.prems run_seq [OF run_step.hyps(1)] by (simp add: word_le_nat_alt unat_word_ariths unat_of_nat)
  then show ?case
    using step_seq [OF run_step.hyps(2)] run_step by auto
qed simp

section \<open>A new database\<close>

definition empty_db :: "'t btree \<Rightarrow> Config \<Rightarrow> 't DB" where
  "empty_db bt conf =
     \<lparr>db_wal = \<lparr>BufWriter = bw_new (WALPath conf) None, putCounter = 0\<rparr>, db_memtable = NewMemTable bt, db_sstables = [],
      db_conf = conf,
      db_blockCache = NewShardedLRU DEFAULT_CACHE_SHARD_COUNT (DEFAULT_BLOCK_CACHE_ENTRIES div DEFAULT_CACHE_SHARD_COUNT),
      db_seqNum = 0, db_watermark = NewWatermark\<rparr>"

lemma Open_empty_db:
  assumes "empty_disk conf w"
  shows "\<exists>w'. db_Open bt conf w = (Inr (empty_db bt conf), w')"
proof -
  let ?p = "WALPath conf" and ?dir = "SSTDir conf"
  have D: "disk_ok conf [] [] 0 [] w" "faults w = []" "\<not> in_dir ?dir ?p" "dir_exact ?dir [] w"
    using empty_disk_ok [OF assms] by (simp_all add: disk_ok_def)
  obtain w1 where W1: "wal_Open ?p w = (Inr \<lparr>BufWriter = bw_new ?p None, putCounter = 0\<rparr>, w1)" "only_touches ?p w w1"
    "faults w1 = []" "fs_get w1 ?p = Some \<lparr>fdata = take 0 (encode_log []), durable = length (take 0 (encode_log []))\<rparr>"
    using wal_Open_log [OF D(1)] by blast
  obtain w2 where W2: "Replay \<lparr>BufWriter = bw_new ?p None, putCounter = 0\<rparr> w1 =
      (Inr [], \<lparr>BufWriter = bw_new ?p None, putCounter = 0\<rparr>, w2)" "only_touches ?p w1 w2"
    using replay_log [of "[]", OF _ W1(3,4)] by auto
  have "only_touches ?p w w2"
    by (rule only_touches_trans [OF W1(2) W2(2)])
  then have "dir_exact ?dir [] w2"
    using D(3,4) unfolding dir_exact_def only_touches_def by (metis list.set(1))
  then have ss: "OpenAllInDir ?dir w2 = Inr []"
    using OpenAllInDir_tables [of ?dir "[]" w2] by (simp add: tables_hold_def names_newest_first_def)
  have "fold (rebuild_entry bt) [] (NewMemTable bt, 0) = (NewMemTable bt, 0)" "maxSeqNumInTables (map SetCache []) w2 = Inr 0"
    by (simp_all add: maxSeqNumInTables_def)
  from db_Open_unfold [OF D(2) W1(1) W2(1) this(1) ss this(2)] show ?thesis
    by (simp add: empty_db_def)
qed

lemma few_tables_adjacent:
  assumes "length (db_sstables db) + 1 < DEFAULT_COMPACTION_THRESHOLD"
  shows "write_adjacent bt k kind v db w" "flush_adjacent bt db w"
  using assms by (auto simp: write_adjacent_def flush_adjacent_def logged_def Let_def split: prod.splits sum.splits)

lemma reached_seq:
  assumes "reached bt conf H db w"
  shows "unat (db_seqNum db) = length H" "db_seqNum db < SeqNumMax"
proof -
  obtain w0 db1 w1 where R: "length H < 2 ^ 30" "empty_disk conf w0" "db_Open bt conf w0 = (Inr db1, w1)"
    "db_run bt (db1, w1) H (db, w)"
    using assms by (auto simp: reached_def)
  have "db_seqNum db1 = 0"
    using Open_empty_db [OF R(2), of bt] R(3) by (auto simp: empty_db_def)
  then have s: "db_seqNum db = of_nat (length H)"
    using run_seq [OF R(4)] by simp
  then show "unat (db_seqNum db) = length H"
    using R(1) by (simp add: unat_of_nat)
  then show "db_seqNum db < SeqNumMax"
    using R(1) by (simp add: word_less_nat_alt SeqNumMax_eq)
qed

lemma reached_run:
  assumes "reached bt conf H db w" "db_run bt (db, w) H' (db', w')" "length H + length H' < 2 ^ 30"
  shows "reached bt conf (H @ H') db' w'"
proof -
  obtain w0 db1 w1 where R: "empty_disk conf w0" "db_Open bt conf w0 = (Inr db1, w1)" "db_run bt (db1, w1) H (db, w)"
    using assms(1) by (auto simp: reached_def)
  then show ?thesis
    unfolding reached_def using assms(3) run_trans [OF assms(2) R(3)] by (metis length_append)
qed

lemma reached_step:
  assumes "reached bt conf H db w" "db_step bt (db, w) vs (db', w')" "length H + length vs < 2 ^ 30"
  shows "reached bt conf (H @ vs) db' w'"
  using reached_run [OF assms(1) _ assms(3)] run_step [OF run_start assms(2)] by simp

lemma SeqNumMax_live: "pins_ok db \<Longrightarrow> live db SeqNumMax"
  by (simp add: live_def pins_ok_def)

lemma reached_hist:
  assumes "google_btree bt ok" "reached bt conf H db w"
  shows "hist_ok (db_seqNum db) H" "pins_ok db"
  using google_btree.reached_inv [OF assms] by (auto simp: db_inv_def)

lemma reached_Get:
  assumes "google_btree bt ok" "reached bt conf H db w"
  shows "fst (Get bt u db w) = kv_get u (kv_store H)"
  using google_btree.reached_read [OF assms SeqNumMax_live [OF reached_hist(2) [OF assms]], of u]
    writes_until_all [OF reached_hist(1) [OF assms]] reached_hist(2) [OF assms]
  by (simp add: Get_def pins_ok_def)

section \<open>Recovery\<close>

text \<open>The database serves the writes of \<open>H\<close> and of every run that follows.\<close>

definition serves :: "'t btree \<Rightarrow> version list \<Rightarrow> 't DB \<Rightarrow> world \<Rightarrow> bool" where
  "serves bt H db w \<longleftrightarrow>
     (\<forall>H' db' w' u s. db_run bt (db, w) H' (db', w') \<longrightarrow> length H + length H' < 2 ^ 30 \<longrightarrow> live db' s \<longrightarrow>
        fst (GetAt bt u s db' w') = kv_get u (kv_store (writes_until s (H @ H'))))"

context google_btree
begin

lemma inv_serves:
  assumes "db_inv bt ok F es db w"
  shows "serves bt (F @ map ent_version es) db w"
  unfolding serves_def
proof (intro allI impI)
  fix H' db' w' u s
  assume run: "db_run bt (db, w) H' (db', w')" "length (F @ map ent_version es) + length H' < 2 ^ 30" "live db' s"
  obtain F' es' where I: "db_inv bt ok F' es' db' w'" "F' @ map ent_version es' = (F @ map ent_version es) @ H'"
    using run_inv [OF run(1), of F es] assms run(2) by auto
  have "hist_ok (db_seqNum db') (F' @ map ent_version es')"
    using I(1) by (simp add: db_inv_def)
  then show "fst (GetAt bt u s db' w') = kv_get u (kv_store (writes_until s ((F @ map ent_version es) @ H')))"
    using GetAt_spec [OF I(1) run(3), of u] hist_get_store [of "db_seqNum db'" "F' @ map ent_version es'"] I(2) by auto
qed

lemma recover:
  assumes "db_inv bt ok F es db w" "crash_of w w'" "names_newest_first (SSTDir (db_conf db)) (db_sstables db)"
  shows "\<exists>db' w'' n. db_Open bt (db_conf db) w' = (Inr db', w'') \<and> n \<le> putCounter (db_wal db) \<and>
    serves bt (take (length F + length es - n) (F @ map ent_version es)) db' w''"
proof -
  obtain n ts where d: "disk_ok (db_conf db) F es n ts w'" "length es \<le> length (complete_records n es) + putCounter (db_wal db)"
    using crash_disk [OF assms] by blast
  obtain db' w'' where o: "db_Open bt (db_conf db) w' = (Inr db', w'')" "db_inv bt ok F (complete_records n es) db' w''"
    using Open_correct [OF d(1)] by blast
  define k where "k = length es - length (complete_records n es)"
  obtain xs where xs: "es = complete_records n es @ xs"
    using complete_records_prefix [of n es] by (auto simp: prefix_def)
  have len: "length es = length (complete_records n es) + k"
    using prefix_length_le [OF complete_records_prefix [of n es]] by (simp add: k_def)
  have "take (length F + length es - k) (F @ map ent_version es) = F @ map ent_version (complete_records n es)"
    by (subst (2) xs) (simp add: len)
  moreover have "k \<le> putCounter (db_wal db)"
    using d(2) len by simp
  ultimately show ?thesis
    using o(1) inv_serves [OF o(2)] by metis
qed

lemma Close_inv:
  assumes "db_inv bt ok F es db w"
  shows "\<exists>db' w'. db_Close db w = ((None, db'), w') \<and> db_conf db' = db_conf db \<and> db_sstables db' = db_sstables db \<and>
    db_inv bt ok F es (db'\<lparr>db_wal := (db_wal db')\<lparr>putCounter := 0\<rparr>\<rparr>) w'"
proof -
  obtain ts where ts: "tables_for db F ts w"
    using assms by (auto simp: db_inv_def)
  have I: "mem_for bt ok es db" "log_for es db w" "hist_ok (db_seqNum db) (F @ map ent_version es)" "env_ok db w"
    "cache_fine db w" "pins_ok db"
    using assms by (simp_all add: db_inv_def)
  have L: "wal_inv es (db_wal db) w" "bw_err (BufWriter (db_wal db)) = None" "faults w = []"
    "bw_path (BufWriter (db_wal db)) = WALPath (db_conf db)"
    using I(2,4) by (simp_all add: log_for_def env_ok_def)
  obtain e l w' where r: "wal_Sync (db_wal db) w = ((e, l), w')"
    by (metis surj_pair)
  note calm = wal_Sync_calm [OF L(4) r, unfolded calm_def]
  have "fs_get w (WALPath (db_conf db)) \<noteq> None"
    using L(1,4) by (auto simp: wal_inv_def)
  then have e: "e = None" "faults w' = []" "bw_err (BufWriter l) = None" and touch: "only_touches (WALPath (db_conf db)) w w'"
    and p: "bw_path (BufWriter l) = WALPath (db_conf db)"
    using calm L(2,3) by auto
  have log: "wal_inv es (l\<lparr>putCounter := 0\<rparr>) w'"
    using wal_inv_Sync [OF L(1,2) r] e(1) by simp
  let ?db = "db\<lparr>db_wal := l\<lparr>putCounter := 0\<rparr>\<rparr>"
  have "tables_for ?db F ts w'" "cache_fine ?db w'" "env_ok ?db w'"
    using tables_log_frame [OF I(4) ts I(5) touch e(2)] p unfolding tables_for_def cache_fine_def env_ok_def live_def by simp_all
  moreover have "mem_for bt ok es ?db" "pins_ok ?db" "log_for es ?db w'"
    using I(1,2,6) log e(3) by (simp_all add: mem_for_def pins_ok_def log_for_def DEFAULT_SYNC_THRESHOLD_def)
  ultimately have "db_inv bt ok F es ?db w'"
    using I(3) unfolding db_inv_def by auto
  then show ?thesis
    using r e(1) by (auto simp: db_Close_def)
qed

end

section \<open>A small example\<close>

text \<open>One write to a new database; the states of the closed examples below.\<close>

lemma small_Put:
  assumes "google_btree bt ok" "db_inv bt ok F es db w" "db_seqNum db < SeqNumMax"
    and "length k \<le> MAX_KEY_LENGTH" "length v \<le> MAX_VALUE_LENGTH"
    and "mt_size (db_memtable db) + length k + 8 + length v < DEFAULT_MEMTABLE_FLUSH_SIZE"
  shows "\<exists>db' w'. Put bt k v db w = ((None, db'), w') \<and> db_sstables db' = db_sstables db \<and>
    mt_size (db_memtable db') = mt_size (db_memtable db) + length k + 8 + length v"
proof -
  have good: "good_write k InternalKeyKindSet v"
    using assms(4,5) by (simp add: good_write_def)
  obtain l w1 where l: "wal_write (Key (write_entry db k InternalKeyKindSet v)) (Value (write_entry db k InternalKeyKindSet v))
      (db_wal db) w = ((None, l), w1)"
    using google_btree.write_correct [OF assms(1-3) good refl] by blast
  show ?thesis
    using Put_logged [OF good refl l, of bt] l assms(6)
    by (simp add: logged_def Let_def flushIfFullLocked_def memtable_Size_def memtable_insert_def write_entry_def MakeInternalKey_def
        length_encode_key)
qed

definition sample_conf :: Config where
  "sample_conf = DefaultConfig (lit ''hcdb.wal'') (lit ''data'')"

lemma sample_empty: "empty_disk sample_conf (world_of [])"
  by (simp add: sample_conf_def empty_disk_def world_of_def DefaultConfig_def in_dir_def lit_def)

definition sample_history :: "version list" where
  "sample_history = [(MakeInternalKey [7] 1 InternalKeyKindSet, [1])]"

lemma sample_step:
  "\<exists>w0 db' w'. db_Open rbt_btree sample_conf (world_of []) = (Inr (empty_db rbt_btree sample_conf), w0) \<and>
     db_inv rbt_btree rbt_ok [] [] (empty_db rbt_btree sample_conf) w0 \<and>
     db_step rbt_btree (empty_db rbt_btree sample_conf, w0) sample_history (db', w') \<and>
     db_sstables db' = [] \<and> mt_size (db_memtable db') = 10"
proof -
  let ?db = "empty_db rbt_btree sample_conf"
  obtain w0 where o: "db_Open rbt_btree sample_conf (world_of []) = (Inr ?db, w0)"
    using Open_empty_db [OF sample_empty] by blast
  have inv: "db_inv rbt_btree rbt_ok [] [] ?db w0"
    using rbt.Open_empty [OF sample_empty] o by auto
  obtain db' w' where p: "Put rbt_btree [7] [1] ?db w0 = ((None, db'), w')" "db_sstables db' = []" "mt_size (db_memtable db') = 10"
    using small_Put [OF rbt.google_btree_axioms inv, of "[7]" "[1]"]
    by (auto simp: empty_db_def SeqNumMax_eq MAX_KEY_LENGTH_def MAX_VALUE_LENGTH_def NewMemTable_def DEFAULT_MEMTABLE_FLUSH_SIZE_def)
  have "db_step rbt_btree (?db, w0) sample_history (db', w')"
    using step_put [of "[7]" "[1]" ?db rbt_btree w0 db' w', OF _ _ _ few_tables_adjacent(1) p(1)]
    by (simp add: MAX_KEY_LENGTH_def MAX_VALUE_LENGTH_def sample_history_def write_version_def empty_db_def SeqNumMax_eq
        DEFAULT_COMPACTION_THRESHOLD_def)
  then show ?thesis
    using o inv p(2,3) by blast
qed

lemma sample_reached:
  "\<exists>db w. reached rbt_btree sample_conf sample_history db w \<and> db_sstables db = [] \<and> mt_size (db_memtable db) = 10"
proof -
  let ?db = "empty_db rbt_btree sample_conf"
  obtain w0 db' w' where S: "db_Open rbt_btree sample_conf (world_of []) = (Inr ?db, w0)"
    "db_step rbt_btree (?db, w0) sample_history (db', w')" "db_sstables db' = []" "mt_size (db_memtable db') = 10"
    using sample_step by blast
  have "reached rbt_btree sample_conf [] ?db w0"
    unfolding reached_def using sample_empty S(1) run_start [of rbt_btree "(?db, w0)"]
    by (intro conjI exI [of _ "world_of []"] exI [of _ ?db] exI [of _ w0]) simp_all
  from reached_step [OF this S(2)] show ?thesis
    using S(3,4) by (fastforce simp: sample_history_def)
qed

section \<open>Reads and writes\<close>



text \<open>A valid write of a reached database succeeds, and the state after it is reached.\<close>

lemma reached_Put:
  assumes "google_btree bt ok" "reached bt conf H db w" "length H + 1 < 2 ^ 30" "length k \<le> MAX_KEY_LENGTH"
    and "length v \<le> MAX_VALUE_LENGTH" "write_adjacent bt k InternalKeyKindSet v db w"
  shows "\<exists>db' w'. Put bt k v db w = ((None, db'), w') \<and> db_watermark db' = db_watermark db \<and>
    reached bt conf (H @ [write_version db k InternalKeyKindSet v]) db' w'"
proof -
  obtain F es where I: "db_inv bt ok F es db w" "F @ map ent_version es = H"
    using google_btree.reached_inv [OF assms(1,2)] by blast
  have len: "length F + length es + 1 < 2 ^ 30"
    using assms(3) arg_cong [OF I(2), of length] by simp
  have n: "db_seqNum db < SeqNumMax"
    by (rule reached_seq(2) [OF assms(2)])
  obtain db' w' where p: "Put bt k v db w = ((None, db'), w')" "db_watermark db' = db_watermark db"
    using google_btree.Put_correct(1) [OF assms(1) I(1) n assms(4,5) len assms(6)] by (auto simp: wrote_version_def split: prod.splits)
  have "reached bt conf (H @ [write_version db k InternalKeyKindSet v]) db' w'"
    by (rule reached_step [OF assms(2) step_put [OF assms(4,5) n assms(6) p(1)]]) (use assms(3) in simp)
  then show ?thesis
    using p by blast
qed

lemma reached_Delete:
  assumes "google_btree bt ok" "reached bt conf H db w" "length H + 1 < 2 ^ 30" "length k \<le> MAX_KEY_LENGTH"
    and "write_adjacent bt k InternalKeyKindDelete [] db w"
  shows "\<exists>db' w'. Delete bt k db w = ((None, db'), w') \<and> db_watermark db' = db_watermark db \<and>
    reached bt conf (H @ [write_version db k InternalKeyKindDelete []]) db' w'"
proof -
  obtain F es where I: "db_inv bt ok F es db w" "F @ map ent_version es = H"
    using google_btree.reached_inv [OF assms(1,2)] by blast
  have len: "length F + length es + 1 < 2 ^ 30"
    using assms(3) arg_cong [OF I(2), of length] by simp
  have n: "db_seqNum db < SeqNumMax"
    by (rule reached_seq(2) [OF assms(2)])
  obtain db' w' where p: "Delete bt k db w = ((None, db'), w')" "db_watermark db' = db_watermark db"
    using google_btree.Delete_correct(1) [OF assms(1) I(1) n assms(4) len assms(5)] by (auto simp: wrote_version_def split: prod.splits)
  have "reached bt conf (H @ [write_version db k InternalKeyKindDelete []]) db' w'"
    by (rule reached_step [OF assms(2) step_delete [OF assms(4) n assms(5) p(1)]]) (use assms(3) in simp)
  then show ?thesis
    using p by blast
qed

lemma kv_get_write:
  "kv_get u (kv_store (H @ [write_version db k InternalKeyKindSet v])) = (if u = k then (v, True) else kv_get u (kv_store H))"
  "kv_get u (kv_store (H @ [write_version db k InternalKeyKindDelete v])) = (if u = k then ([], False) else kv_get u (kv_store H))"
  by (auto simp: kv_store_snoc kv_write_def kv_get_def write_version_def InternalKeyKindSet_def InternalKeyKindDelete_def)







section \<open>Crashes and shutdown\<close>


text \<open>The crash that loses everything that was not synced.\<close>

definition power_loss :: "world \<Rightarrow> world" where
  "power_loss w =
     w\<lparr>files := map (\<lambda>(q, f). (q, \<lparr>fdata = take (durable f) (fdata f), durable = length (take (durable f) (fdata f))\<rparr>)) (files w),
       faults := []\<rparr>"

lemma crash_power_loss: "crash_of w (power_loss w)"
proof -
  have "fs_get (power_loss w) q =
      map_option (\<lambda>f. \<lparr>fdata = take (durable f) (fdata f), durable = length (take (durable f) (fdata f))\<rparr>) (fs_get w q)" for q
    by (simp add: power_loss_def fs_get_def map_of_map)
  then show ?thesis
    by (auto simp: crash_of_def power_loss_def split: option.splits)
qed




end
