(* ===== verification/Db_Failures.thy ===== *)
theory Db_Failures
  imports Db_Properties
begin

text \<open>
  What the package \<^verbatim>\<open>db\<close> does when something goes wrong: writes that are too long, a log that cannot be
  written, files in the table directory that are not tables, and tables whose names do not follow
  their age.
\<close>

section \<open>Reads depend on the table files only\<close>

lemma load_block_frame: "fs_get w' (FilePath t) = fs_get w (FilePath t) \<Longrightarrow> load_block t idx w' = load_block t idx w"
  by (simp add: load_block_def os_ReadFile_def split: option.splits)

lemma readBlock_frame:
  assumes "fs_get w' (FilePath t) = fs_get w (FilePath t)"
  shows "readBlock t idx c w' = readBlock t idx c w"
  unfolding readBlock_def load_block_frame [OF assms] ..

lemma loadBlock_frame:
  assumes "fs_get w' (FilePath (si_sst it)) = fs_get w (FilePath (si_sst it))"
  shows "loadBlock it c w' = loadBlock it c w"
  unfolding loadBlock_def readBlock_frame [OF assms] ..

lemma loadBlock_sst: "loadBlock it c w = ((e, it'), c') \<Longrightarrow> si_sst it' = si_sst it"
  by (auto simp: loadBlock_def split: if_splits prod.splits sum.splits)

lemma advance_frame:
  assumes "fs_get w' (FilePath (si_sst it)) = fs_get w (FilePath (si_sst it))"
  shows "advance it c w' = advance it c w"
  using loadBlock_frame [of w' "it\<lparr>si_pos := si_pos it + 1, si_blockIdx := si_blockIdx it + 1\<rparr>" w c] assms
  by (simp add: advance_def Let_def)

lemma advance_sst: "advance it c w = ((b, it'), c') \<Longrightarrow> si_sst it' = si_sst it"
  by (auto simp: advance_def Let_def dest!: loadBlock_sst split: if_splits prod.splits)

lemma scan_until_frame:
  assumes "fs_get w' (FilePath (si_sst it)) = fs_get w (FilePath (si_sst it))"
  shows "scan_until P it c w' = scan_until P it c w" "si_sst (fst (scan_until P it c w)) = si_sst it"
  using assms
proof (induction P it c w rule: scan_until.induct)
  case (1 P it c w)
  obtain b it1 c1 where a: "advance it c w = ((b, it1), c1)"
    by (metis surj_pair)
  have s: "si_sst it1 = si_sst it"
    by (rule advance_sst [OF a])
  {
    case 1
    then show ?case
      using a s "1.IH"(1) [of "(True, it1)" c1 True it1] advance_frame [of w' it w c]
      by (cases b) (simp_all add: scan_until.simps [of P it c w] scan_until.simps [of P it c w'])
  next
    case 2
    then show ?case
      using a s "1.IH"(2) [of "(True, it1)" c1 True it1]
      by (cases b) (simp_all add: scan_until.simps [of P it c w])
  }
qed

lemma sst_NewIterator_frame:
  assumes "fs_get w' (FilePath t) = fs_get w (FilePath t)"
  shows "sst_NewIterator t u s c w' = sst_NewIterator t u s c w"
proof -
  define it where "it = \<lparr>si_sst = t, si_snapshot = s,
    si_blockIdx = (if searchIndex (sst_index t) (EncodeSearchKeyAt u s) < 0 then 0 else nat (searchIndex (sst_index t) (EncodeSearchKeyAt u s))),
    si_entries = [], si_pos = 0, si_valid = False\<rparr>"
  have it: "si_sst it = t"
    by (simp add: it_def)
  obtain e it1 c1 where l: "loadBlock it c w = ((e, it1), c1)"
    by (metis surj_pair)
  have l': "loadBlock it c w' = ((e, it1), c1)" "si_sst it1 = t"
    using l loadBlock_frame [of w' it w c] loadBlock_sst [OF l] assms it by simp_all
  let ?P = "\<lambda>e. InternalCompare bytes_Compare (DecodeInternalKey (be_Key e)) (DecodeInternalKey (EncodeSearchKeyAt u s)) \<ge> 0"
  obtain it2 c2 where sc: "scan_until ?P it1 c1 w = (it2, c2)"
    by (metis surj_pair)
  have sc': "scan_until ?P it1 c1 w' = (it2, c2)" "si_sst it2 = t"
    using scan_until_frame [of w' it1 w ?P c1] assms l'(2) sc by simp_all
  have "skipInvisible it2 c2 w' = skipInvisible it2 c2 w"
    unfolding skipInvisible_def by (rule scan_until_frame(1)) (simp add: sc'(2) assms)
  then show ?thesis
    using l l'(1) sc sc'(1)
    by (simp add: sst_NewIterator_def Let_def it_def [symmetric] split: option.splits)
qed

lemma Lookup_frame:
  assumes "fs_get w' (FilePath t) = fs_get w (FilePath t)"
  shows "Lookup t u s c w' = Lookup t u s c w"
  unfolding Lookup_def sst_NewIterator_frame [OF assms] ..

lemma search_tables_frame:
  assumes "\<And>t. t \<in> set ts \<Longrightarrow> fs_get w' (FilePath t) = fs_get w (FilePath t)"
  shows "search_tables ts u s c w' = search_tables ts u s c w"
  using assms
proof (induction ts arbitrary: c)
  case (Cons t ts)
  have "Lookup t u s c w' = Lookup t u s c w"
    by (rule Lookup_frame) (use Cons.prems in simp)
  then show ?case
    using Cons by (simp split: prod.splits)
qed simp

lemma GetAt_frame:
  assumes "\<And>t. t \<in> set (db_sstables db) \<Longrightarrow> fs_get w' (FilePath t) = fs_get w (FilePath t)"
    and "db_memtable db' = db_memtable db" "db_sstables db' = db_sstables db" "db_blockCache db' = db_blockCache db"
  shows "fst (GetAt bt u s db' w') = fst (GetAt bt u s db w)"
  using assms search_tables_frame [of "db_sstables db" w' w]
  by (simp add: GetAt_def searchSSTables_def split: prod.split KEY_LOOKUP_ENUM.split)

section \<open>Failing log writes\<close>

text \<open>The error of a buffered writer sticks.\<close>

lemma wal_write_stuck:
  assumes "bw_err (BufWriter l) = Some e"
  shows "wal_write k v l w = ((Some e, l), w)"
  using assms by (simp add: wal_write_def Append_def wal_buf_write_def bw_Write_def Let_def)

lemma Put_log_error:
  assumes "length k \<le> MAX_KEY_LENGTH" "length v \<le> MAX_VALUE_LENGTH"
    and "wal_Put (encode_key (MakeInternalKey k (db_seqNum db + 1) InternalKeyKindSet)) v (db_wal db) w = ((Some e, l), w')"
  shows "Put bt k v db w = ((Some e, db\<lparr>db_seqNum := db_seqNum db + 1, db_wal := l\<rparr>), w')"
  using assms by (simp add: Put_def encodeNextKey_def Let_def)

text \<open>A sequence of puts (with a value) and deletes (without), each tried whatever the others returned.\<close>

fun run_writes ::
  "'t btree \<Rightarrow> (gostring \<times> bytes option) list \<Rightarrow> 't DB \<Rightarrow> world \<Rightarrow> (go_error option list \<times> 't DB) \<times> world" where
  "run_writes bt [] db w = (([], db), w)"
| "run_writes bt ((k, v) # ops) db w =
     (case (case v of Some x \<Rightarrow> Put bt k x db w | None \<Rightarrow> Delete bt k db w) of
        ((e, db1), w1) \<Rightarrow> (case run_writes bt ops db1 w1 of ((es, db2), w2) \<Rightarrow> ((e # es, db2), w2)))"

lemma same_seqNum: "\<exists>n. db = db\<lparr>db_seqNum := n\<rparr>"
  by (rule exI [of _ "db_seqNum db"]) simp

lemma write_stuck:
  assumes "bw_err (BufWriter (db_wal db)) = Some e"
  shows "\<exists>x n. (case v of Some y \<Rightarrow> Put bt k y db w | None \<Rightarrow> Delete bt k db w) = ((Some x, db\<lparr>db_seqNum := n\<rparr>), w)"
  using wal_write_stuck [OF assms]
  by (cases v) (auto simp: Put_def Delete_def encodeNextKey_def wal_Put_def wal_Delete_def Let_def same_seqNum)

lemma writes_stuck:
  assumes "bw_err (BufWriter (db_wal db)) = Some e"
  shows "\<exists>errs n. run_writes bt ops db w = ((errs, db\<lparr>db_seqNum := n\<rparr>), w) \<and> length errs = length ops \<and> None \<notin> set errs"
  using assms
proof (induction ops arbitrary: db)
  case Nil
  show ?case
    by (auto simp: same_seqNum)
next
  case (Cons op ops)
  obtain k v where op: "op = (k, v)"
    by (rule prod.exhaust)
  obtain x n where "(case v of Some y \<Rightarrow> Put bt k y db w | None \<Rightarrow> Delete bt k db w) = ((Some x, db\<lparr>db_seqNum := n\<rparr>), w)"
    using write_stuck [OF Cons.prems] by blast
  then show ?case
    using Cons.IH [of "db\<lparr>db_seqNum := n\<rparr>"] Cons.prems by (auto simp: op)
qed

text \<open>A flush starts the log afresh, with a writer without an error.\<close>

lemma flush_clears_error:
  assumes "ForceFlush bt db w = ((None, db'), w')"
  shows "bw_err (BufWriter (db_wal db')) = None"
  using assms
  by (auto simp: ForceFlush_def flushMemtableLocked_def resetWAL_def bw_new_def Let_def split: prod.splits sum.splits option.splits)



section \<open>Foreign files in the table directory\<close>

lemma sst_Open_short:
  assumes "fs_get w p = Some f" "length (fdata f) < 20"
  shows "\<exists>e. sst_Open p w = Inl e"
  using assms by (simp add: sst_Open_def os_ReadFile_def readFooterWithBloom_def seek_end_def)

lemma open_all_fails:
  assumes "p \<in> set ps" "sst_Open p w = Inl e"
  shows "\<exists>e'. open_all ps acc w = Inl e'"
  using assms by (induction ps arbitrary: acc) (auto split: sum.splits)

lemma OpenAllInDir_short:
  assumes "in_dir dir q" "fs_get w q = Some f" "length (fdata f) < 20"
  shows "\<exists>e. OpenAllInDir dir w = Inl e"
proof -
  obtain e where e: "sst_Open q w = Inl e"
    using sst_Open_short [OF assms(2,3)] by blast
  have "drop (length dir + 1) q \<in> set (dir_names dir w)"
    using assms(1,2) by (auto simp: set_dir_names)
  then have "q \<in> set (map (\<lambda>name. dir @ lit ''/'' @ name) (rev (sort (dir_names dir w))))"
    using in_dir_split [OF assms(1)] by (force simp: image_iff)
  from open_all_fails [OF this e] show ?thesis
    by (simp add: OpenAllInDir_def)
qed

lemma os_Create_touches: "os_Create p w = (r, w') \<Longrightarrow> only_touches p w w'"
  by (auto simp: os_Create_def split: prod.splits option.splits dest!: sys_fault_frame(1) [where p = p]
      intro: only_touches_trans)

lemma wal_Open_touches: "wal_Open p w = (r, w') \<Longrightarrow> only_touches p w w'"
  by (auto simp: wal_Open_def bind_io_def return_io_def split: prod.splits sum.splits dest!: os_Create_touches)

lemma file_Truncate_touches: "only_touches p w (snd (file_Truncate p n w))"
  by (auto simp: file_Truncate_def split: prod.splits option.splits dest!: sys_fault_frame(1) [where p = p]
      intro: only_touches_trans)

lemma Replay_touches:
  assumes "bw_path (BufWriter l) = p" "Replay l w = (r, l', w')"
  shows "only_touches p w w'"
proof -
  obtain e b w1 where f: "bw_Flush (BufWriter l) w = ((e, b), w1)"
    by (metis surj_pair)
  have t: "only_touches p w w1" "bw_path b = p"
    using bw_Flush_calm [OF assms(1) f] by (simp_all add: calm_def)
  then show ?thesis
    using assms(2) f file_Truncate_touches [of p w1]
    by (auto simp: Replay_def os_ReadFile_def split: option.splits prod.splits intro: only_touches_trans)
qed

text \<open>C11: A file in the table directory that is too short to be a table keeps the database from opening: every
  attempt returns an error, whatever the name of the file, and the empty temporary file a
  process leaves when it dies while writing a table is such a file.\<close>

theorem short_file_blocks_open:
  assumes "in_dir (SSTDir conf) q" "fs_get w q = Some f" "length (fdata f) < 20" "q \<noteq> WALPath conf"
  shows "\<exists>e w'. db_Open bt conf w = (Inl e, w')"
proof (rule ccontr)
  assume "\<not> ?thesis"
  then obtain db w' where "db_Open bt conf w = (Inr db, w')"
    by (metis obj_sumE surj_pair)
  then obtain w1 l w2 r w3 l' where S: "os_MkdirAll (SSTDir conf) w = (Inr (), w1)" "wal_Open (WALPath conf) w1 = (Inr l, w2)"
    "rebuildMemtable bt l w2 = (Inr r, l', w3)" "\<nexists>e. OpenAllInDir (SSTDir conf) w3 = Inl e"
    by (auto simp: db_Open_def split: prod.splits sum.splits)
  obtain rs where R: "Replay l w2 = (Inr rs, l', w3)"
    using S(3) by (auto simp: rebuildMemtable_def split: prod.splits sum.splits)
  have l: "bw_path (BufWriter l) = WALPath conf"
    using S(2) by (auto simp: wal_Open_def bind_io_def return_io_def bw_new_def split: prod.splits sum.splits)
  have "fs_get w1 q = fs_get w q"
    using S(1) sys_fault_fs by (auto simp: os_MkdirAll_def split: prod.splits option.splits)
  moreover have "fs_get w2 q = fs_get w1 q" "fs_get w3 q = fs_get w2 q"
    using wal_Open_touches [OF S(2)] Replay_touches [OF l R] assms(4) by (simp_all add: only_touches_def)
  ultimately show False
    using OpenAllInDir_short [OF assms(1), of w3 f] assms(2,3) S(4) by simp
qed

theorem short_file_blocks_open_witness:
  "\<exists>e w'. db_Open rbt_btree sample_conf (snd (os_Create (sst_path (lit ''data'') 5 @ lit ''.tmp'') (world_of []))) = (Inl e, w')"
proof -
  let ?q = "sst_path (lit ''data'') 5 @ lit ''.tmp''"
  have "in_dir (SSTDir sample_conf) ?q" "?q \<noteq> WALPath sample_conf"
    using in_dir_sst_path(2) [of "lit ''data''" 5] sample_empty
    by (auto simp: sample_conf_def DefaultConfig_def empty_disk_def)
  moreover have "fs_get (snd (os_Create ?q (world_of []))) ?q = Some \<lparr>fdata = [], durable = 0\<rparr>"
    by (simp add: os_Create_def world_of_def fs_get_def fs_put_def)
  ultimately show ?thesis
    using short_file_blocks_open [of sample_conf ?q "snd (os_Create ?q (world_of []))" "\<lparr>fdata = [], durable = 0\<rparr>" rbt_btree]
    by simp
qed

end
