(* ===== verification/Resp.thy ===== *)
theory Resp
  imports Go_Strconv Go_IO "HOL-Library.Sublist"
begin

text \<open>
  Model of the package \<^verbatim>\<open>resp\<close>: values of the Redis serialisation protocol, the parser and the printer. The
  reader is the stream of bytes still to come on a connection, which ends when the peer disconnects;
  the printer writes through a \<^verbatim>\<open>bufio.Writer\<close> into the connection. Allocating a slice beyond the limit of
  the runtime is a panic. The lemmas show that printing and parsing are inverse, that parsing looks at
  no byte beyond the value, and that a cut value is never accepted.
\<close>

section \<open>Definitions\<close>

subsection \<open>Values\<close>

type_synonym resp_Type = u8

definition SimpleString :: resp_Type where "SimpleString = 43"
definition Error :: resp_Type where "Error = 45"
definition Integer :: resp_Type where "Integer = 58"
definition BulkString :: resp_Type where "BulkString = 36"
definition Array :: resp_Type where "Array = 42"

datatype Value = RespValue (v_Type: resp_Type) (v_Str: gostring) (v_Num: "64 word") (v_Elems: "Value list") (v_Null: bool)

definition SimpleStringValue :: "gostring \<Rightarrow> Value" where "SimpleStringValue s = RespValue SimpleString s 0 [] False"
definition ErrorValue :: "gostring \<Rightarrow> Value" where "ErrorValue s = RespValue Error s 0 [] False"
definition IntegerValue :: "64 word \<Rightarrow> Value" where "IntegerValue n = RespValue Integer [] n [] False"
definition BulkStringValue :: "gostring \<Rightarrow> Value" where "BulkStringValue s = RespValue BulkString s 0 [] False"
definition NullBulkStringValue :: Value where "NullBulkStringValue = RespValue BulkString [] 0 [] True"
definition ArrayValue :: "Value list \<Rightarrow> Value" where "ArrayValue elems = RespValue Array [] 0 elems False"
definition NullArrayValue :: Value where "NullArrayValue = RespValue Array [] 0 [] True"

subsection \<open>Parsing numbers\<close>

text \<open>
  \<^verbatim>\<open>strconv.ParseInt\<close> with base 10 and 64 bits, which \<^verbatim>\<open>strconv.Atoi\<close> agrees with: an optional sign and
  digits, read one after the other until a byte is not a digit or the value leaves 64 bits.
\<close>

datatype num_error = ErrSyntax | ErrRange

fun ParseUint_loop :: "gostring \<Rightarrow> nat \<Rightarrow> num_error + nat" where
  "ParseUint_loop [] n = Inr n"
| "ParseUint_loop (c # s) n =
     (if \<not> is_digit c then Inl ErrSyntax
      else (let n1 = 10 * n + (unat c - 48) in if n1 \<ge> 2 ^ 64 then Inl ErrRange else ParseUint_loop s n1))"

definition ParseUint :: "gostring \<Rightarrow> num_error + nat" where
  "ParseUint s = (if s = [] then Inl ErrSyntax else ParseUint_loop s 0)"

definition ParseInt :: "gostring \<Rightarrow> num_error + int" where
  "ParseInt s =
     (let neg = (s \<noteq> [] \<and> s ! 0 = 45);
          digits = (if s \<noteq> [] \<and> (s ! 0 = 45 \<or> s ! 0 = 43) then drop 1 s else s)
      in case ParseUint digits of
           Inl e \<Rightarrow> Inl e
         | Inr un \<Rightarrow>
             if \<not> neg \<and> un \<ge> 2 ^ 63 then Inl ErrRange
             else if neg \<and> un > 2 ^ 63 then Inl ErrRange
             else Inr (if neg then - int un else int un))"

definition Atoi :: "gostring \<Rightarrow> num_error + int" where
  "Atoi s = ParseInt s"

subsection \<open>Reading\<close>

datatype resp_error =
    ReadErr go_error
  | EmptyLine
  | BadInteger gostring num_error
  | BadBulkLength gostring num_error
  | BadArrayLength gostring num_error
  | UnknownTypeByte u8
  | MakePanic

text \<open>\<^verbatim>\<open>bufio.Reader.ReadString\<close> with delimiter \<^verbatim>\<open>'\n'\<close>.\<close>

definition ReadString :: "bytes \<Rightarrow> go_error + gostring \<times> bytes" where
  "ReadString s =
     (if 10 \<in> set s
      then (let n = length (takeWhile (\<lambda>b. b \<noteq> 10) s) + 1 in Inr (take n s, drop n s))
      else Inl EOF)"

definition readLine :: "bytes \<Rightarrow> go_error + gostring \<times> bytes" where
  "readLine r =
     (case ReadString r of
        Inl e \<Rightarrow> Inl e
      | Inr (line, r') \<Rightarrow>
          (let n = length line
           in if n \<ge> 2 \<and> line ! (n - 2) = 13 then Inr (take (n - 2) line, r') else Inr (take (n - 1) line, r')))"

text \<open>The largest allocation of the Go runtime on 64-bit Linux; a \<^verbatim>\<open>Value\<close> takes 64 bytes.\<close>

definition maxAlloc :: int where "maxAlloc = 2 ^ 48"

text \<open>Reading a line consumes input, which makes the recursion of the parser end.\<close>

lemma ReadString_shrinks: "ReadString s = Inr (line, r) \<Longrightarrow> length r < length s"
proof -
  assume a: "ReadString s = Inr (line, r)"
  then have "10 \<in> set s" "r = drop (length (takeWhile (\<lambda>b. b \<noteq> 10) s) + 1) s"
    by (auto simp: ReadString_def Let_def split: if_splits)
  moreover have "s \<noteq> []"
    using calculation(1) by auto
  ultimately show ?thesis by simp
qed

lemma readLine_shrinks: "readLine s = Inr (line, r) \<Longrightarrow> length r < length s"
  by (auto simp: readLine_def Let_def split: sum.splits if_splits dest: ReadString_shrinks)

function (sequential) resp_Read :: "bytes \<Rightarrow> resp_error + Value \<times> bytes"
  and read_elems :: "nat \<Rightarrow> bytes \<Rightarrow> resp_error + Value list \<times> bytes" where
  "resp_Read r =
     (case readLine r of
        Inl e \<Rightarrow> Inl (ReadErr e)
      | Inr (line, r1) \<Rightarrow>
          if length line = 0 then Inl EmptyLine
          else if line ! 0 = SimpleString then Inr (RespValue SimpleString (drop 1 line) 0 [] False, r1)
          else if line ! 0 = Error then Inr (RespValue Error (drop 1 line) 0 [] False, r1)
          else if line ! 0 = Integer then
            (case ParseInt (drop 1 line) of
               Inl e \<Rightarrow> Inl (BadInteger (drop 1 line) e)
             | Inr n \<Rightarrow> Inr (RespValue Integer [] (word_of_int n) [] False, r1))
          else if line ! 0 = BulkString then
            (case Atoi (drop 1 line) of
               Inl e \<Rightarrow> Inl (BadBulkLength (drop 1 line) e)
             | Inr n \<Rightarrow>
                 if n < 0 then Inr (RespValue BulkString [] 0 [] True, r1)
                 else if n + 2 > maxAlloc then Inl MakePanic
                 else (case ReadFull (nat (n + 2)) r1 of
                         Inl e \<Rightarrow> Inl (ReadErr e)
                       | Inr (buf, r2) \<Rightarrow> Inr (RespValue BulkString (take (nat n) buf) 0 [] False, r2)))
          else if line ! 0 = Array then
            (case Atoi (drop 1 line) of
               Inl e \<Rightarrow> Inl (BadArrayLength (drop 1 line) e)
             | Inr n \<Rightarrow>
                 if n < 0 then Inr (RespValue Array [] 0 [] True, r1)
                 else if 64 * n > maxAlloc then Inl MakePanic
                 else (case read_elems (nat n) r1 of
                         Inl e \<Rightarrow> Inl e
                       | Inr (elems, r2) \<Rightarrow> Inr (RespValue Array [] 0 elems False, r2)))
          else Inl (UnknownTypeByte (line ! 0)))"
| "read_elems 0 r = Inr ([], r)"
| "read_elems (Suc n) r =
     (case resp_Read r of
        Inl e \<Rightarrow> Inl e
      | Inr (v, r1) \<Rightarrow> (case read_elems n r1 of Inl e \<Rightarrow> Inl e | Inr (vs, r2) \<Rightarrow> Inr (v # vs, r2)))"
  by pat_completeness auto

termination
proof -
  have shrinks: "resp_Read_read_elems_dom (Inl s) \<Longrightarrow> resp_Read s = Inr (v, r) \<Longrightarrow> length r < length s"
    and "resp_Read_read_elems_dom (Inr (n, s)) \<Longrightarrow> read_elems n s = Inr (vs, r) \<Longrightarrow> length r \<le> length s"
    for s v r n vs
  proof (induction s and n s arbitrary: v r and vs r rule: resp_Read_read_elems.pinduct)
    case (1 s)
    obtain line r1 where l: "readLine s = Inr (line, r1)"
      using 1(1,3) by (cases "readLine s") (auto simp: resp_Read.psimps)
    note sh = readLine_shrinks [OF l]
    show ?case
      using 1(1,3) l sh "1.IH" [OF l refl]
      by (force simp: resp_Read.psimps split: if_splits sum.splits dest!: ReadFull_Inr)
  next
    case (2 s)
    then show ?case by (simp add: read_elems.psimps)
  next
    case (3 n s)
    obtain v1 r1 where a: "resp_Read s = Inr (v1, r1)"
      using "3.prems" 3(1) by (cases "resp_Read s") (auto simp: read_elems.psimps)
    obtain vs2 where b: "read_elems n r1 = Inr (vs2, r)"
      using "3.prems" 3(1) a by (auto simp: read_elems.psimps split: sum.splits)
    show ?case
      using "3.IH"(1) [OF a] "3.IH"(2) [OF a refl b] by simp
  qed
  show ?thesis
    by (relation "measure (case_sum (\<lambda>s. 2 * length s) (\<lambda>(n, s). 2 * length s + 1))")
      (auto dest: readLine_shrinks shrinks)
qed

declare resp_Read.simps [simp del] read_elems.simps(2) [simp del]

lemma Read_shrinks:
  "resp_Read s = Inr (v, r) \<Longrightarrow> length r < length s"
  "read_elems n s = Inr (vs, r) \<Longrightarrow> length r \<le> length s"
proof (induction s and n s arbitrary: v r and vs r rule: resp_Read_read_elems.induct)
  case (1 s)
  obtain line r1 where l: "readLine s = Inr (line, r1)"
    using 1(2) by (cases "readLine s") (auto simp: resp_Read.simps)
  show ?case
    using 1(2) l readLine_shrinks [OF l] "1.IH" [OF l refl]
    by (force simp: resp_Read.simps split: if_splits sum.splits dest!: ReadFull_Inr)
next
  case (3 n s)
  obtain v1 r1 where a: "resp_Read s = Inr (v1, r1)"
    using "3.prems" by (cases "resp_Read s") (auto simp: read_elems.simps)
  obtain vs2 where b: "read_elems n r1 = Inr (vs2, r)"
    using "3.prems" a by (auto simp: read_elems.simps split: sum.splits)
  show ?case
    using "3.IH"(1) [OF a] "3.IH"(2) [OF a refl b] by simp
qed simp

subsection \<open>Writing\<close>

text \<open>
  \<^verbatim>\<open>fmt.Fprintf\<close> makes one call of \<^verbatim>\<open>Write\<close> with the formatted bytes. The error for an unknown type names the
  type in the source; its text is never looked at and is cut short here.
\<close>

definition crlf :: bytes where "crlf = [13, 10]"

fun resp_write :: "BufWriter \<Rightarrow> Value \<Rightarrow> world \<Rightarrow> (go_error option \<times> BufWriter) \<times> world"
  and write_elems :: "BufWriter \<Rightarrow> Value list \<Rightarrow> world \<Rightarrow> (go_error option \<times> BufWriter) \<times> world" where
  "resp_write b (RespValue ty str num elems null) w =
     (if ty = SimpleString then bw_Write b ([SimpleString] @ str @ crlf) w
      else if ty = Error then bw_Write b ([Error] @ str @ crlf) w
      else if ty = Integer then bw_Write b ([Integer] @ dec_int (sint num) @ crlf) w
      else if ty = BulkString then
        (if null then bw_Write b ([BulkString] @ lit ''-1'' @ crlf) w
         else bw_Write b ([BulkString] @ dec_nat (length str) @ crlf @ str @ crlf) w)
      else if ty = Array then
        (if null then bw_Write b ([Array] @ lit ''-1'' @ crlf) w
         else (case bw_Write b ([Array] @ dec_nat (length elems) @ crlf) w of
                 ((Some e, b1), w1) \<Rightarrow> ((Some e, b1), w1)
               | ((None, b1), w1) \<Rightarrow> write_elems b1 elems w1))
      else ((Some (ErrMsg (lit ''resp: unknown type'')), b), w))"
| "write_elems b [] w = ((None, b), w)"
| "write_elems b (v # vs) w =
     (case resp_write b v w of
        ((Some e, b1), w1) \<Rightarrow> ((Some e, b1), w1)
      | ((None, b1), w1) \<Rightarrow> write_elems b1 vs w1)"

definition resp_Write :: "BufWriter \<Rightarrow> Value \<Rightarrow> world \<Rightarrow> (go_error option \<times> BufWriter) \<times> world" where
  "resp_Write b v w =
     (case resp_write b v w of
        ((Some e, b1), w1) \<Rightarrow> ((Some e, b1), w1)
      | ((None, b1), w1) \<Rightarrow> bw_Flush b1 w1)"

section \<open>The wire format\<close>

text \<open>The bytes of a value.\<close>

fun encode :: "Value \<Rightarrow> bytes" where
  "encode (RespValue ty str num elems null) =
     (if ty = SimpleString \<or> ty = Error then [ty] @ str @ crlf
      else if ty = Integer then [ty] @ dec_int (sint num) @ crlf
      else if null then [ty] @ lit ''-1'' @ crlf
      else if ty = BulkString then [ty] @ dec_nat (length str) @ crlf @ str @ crlf
      else [ty] @ dec_nat (length elems) @ crlf @ concat (map encode elems))"

text \<open>Values whose fields are those of their type, within the limits of an allocation; a line holds no line feed.\<close>

fun wf_value :: "Value \<Rightarrow> bool" where
  "wf_value (RespValue ty str num elems null) \<longleftrightarrow>
     (if ty = SimpleString \<or> ty = Error then 10 \<notin> set str \<and> num = 0 \<and> elems = [] \<and> \<not> null
      else if ty = Integer then str = [] \<and> elems = [] \<and> \<not> null
      else if ty = BulkString then num = 0 \<and> elems = [] \<and> (null \<longrightarrow> str = []) \<and> int (length str) + 2 \<le> maxAlloc
      else ty = Array \<and> str = [] \<and> num = 0 \<and> (null \<longrightarrow> elems = []) \<and> 64 * int (length elems) \<le> maxAlloc \<and>
           list_all wf_value elems)"

section \<open>Lines and numbers\<close>

lemmas type_bytes = SimpleString_def Error_def Integer_def BulkString_def Array_def

lemma ReadString_line: "10 \<notin> set line \<Longrightarrow> ReadString (line @ 10 # r) = Inr (line @ [10], r)"
proof -
  assume "10 \<notin> set line"
  then have "takeWhile (\<lambda>b. b \<noteq> 10) (line @ 10 # r) = line"
    by (simp add: takeWhile_tail) (auto simp: takeWhile_eq_all_conv)
  then show ?thesis
    by (simp add: ReadString_def Let_def)
qed

lemma readLine_line [simp]: "10 \<notin> set line \<Longrightarrow> readLine (line @ crlf @ r) = Inr (line, r)"
  using ReadString_line [of "line @ [13]" r] by (simp add: readLine_def crlf_def Let_def nth_append)

lemma ParseUint_loop_digits:
  "list_all is_digit s \<Longrightarrow> foldl (\<lambda>a b. 10 * a + (unat b - 48)) n s < 2 ^ 64 \<Longrightarrow>
    ParseUint_loop s n = Inr (foldl (\<lambda>a b. 10 * a + (unat b - 48)) n s)"
proof (induction s arbitrary: n)
  case (Cons c s)
  have mono: "n \<le> foldl (\<lambda>a b. 10 * a + (unat b - 48)) n (s :: gostring)" for n s
  proof (induction s arbitrary: n)
    case (Cons c s)
    show ?case
      using Cons.IH [of "10 * n + (unat c - 48)"] by simp
  qed simp
  have "10 * n + (unat c - 48) < 2 ^ 64"
    using Cons.prems(2) mono [of "10 * n + (unat c - 48)" s] by simp
  then show ?case
    using Cons by simp
qed simp

lemma ParseUint_dec_nat: "n < 2 ^ 64 \<Longrightarrow> ParseUint (dec_nat n) = Inr n"
  using ParseUint_loop_digits [OF dec_nat_digits, of 0 n] dec_val_dec_nat [of n] by (simp add: ParseUint_def dec_val_def)

lemma hd_digit: "list_all is_digit s \<Longrightarrow> s \<noteq> [] \<Longrightarrow> s ! 0 \<noteq> 45 \<and> s ! 0 \<noteq> 43"
  by (cases s) (auto simp: is_digit_iff)

lemma ParseInt_dec_nat: "n < 2 ^ 63 \<Longrightarrow> ParseInt (dec_nat n) = Inr (int n)"
  using ParseUint_dec_nat [of n] hd_digit [OF dec_nat_digits dec_nat_neq_Nil, of n] by (simp add: ParseInt_def Let_def)

lemma ParseInt_dec_int:
  assumes "- (2 ^ 63) \<le> i" "i < 2 ^ 63"
  shows "ParseInt (dec_int i) = Inr i"
proof (cases "i < 0")
  case True
  then have "dec_int i = 45 # dec_nat (nat (- i))"
    by (simp add: dec_int_def lit_def)
  then show ?thesis
    using True assms ParseUint_dec_nat [of "nat (- i)"] by (simp add: ParseInt_def Let_def nat_less_iff)
next
  case False
  then show ?thesis
    using assms ParseInt_dec_nat [of "nat i"] by (simp add: dec_int_def nat_less_iff)
qed

lemma dec_no_lf [simp]: "10 \<notin> set (dec_nat n)" "10 \<notin> set (dec_int i)"
  by (auto simp: dec_int_def lit_def is_digit_def intro!: digit_not_in_dec_nat)

section \<open>Parsing inverts printing\<close>

lemma maxAlloc_63: "maxAlloc < 2 ^ 63"
  by (simp add: maxAlloc_def)

lemma Atoi_len: "int n \<le> maxAlloc \<Longrightarrow> Atoi (dec_nat n) = Inr (int n)"
  using ParseInt_dec_nat [of n] by (simp add: Atoi_def maxAlloc_def)

lemma Atoi_neg: "Atoi (lit ''-1'') = Inr (- 1)"
  by (simp add: Atoi_def ParseInt_def ParseUint_def lit_def is_digit_def Let_def)

lemma minus_one_line: "10 \<notin> set (lit ''-1'')"
  by (simp add: lit_def)

lemma sint64_bounds: "- (2 ^ 63) \<le> sint (n :: 64 word)" "sint (n :: 64 word) < 2 ^ 63"
  using sint_ge [of n] sint_lt [of n] by simp_all

lemma readLine_type [simp]: "ty \<noteq> 10 \<Longrightarrow> 10 \<notin> set line \<Longrightarrow> readLine (ty # line @ crlf @ r) = Inr (ty # line, r)"
  using readLine_line [of "ty # line" r] by simp

lemma read_elems_encode:
  assumes "\<And>v r. v \<in> set vs \<Longrightarrow> resp_Read (encode v @ r) = Inr (v, r)"
  shows "read_elems (length vs) (concat (map encode vs) @ r) = Inr (vs, r)"
  using assms by (induction vs) (simp_all add: read_elems.simps)

lemma Read_encode: "wf_value v \<Longrightarrow> resp_Read (encode v @ r) = Inr (v, r)"
proof (induction v arbitrary: r)
  case (RespValue ty str num elems null)
  consider "ty = SimpleString \<or> ty = Error" | "ty = Integer" | "ty = BulkString" | "ty = Array"
    using RespValue.prems by (auto split: if_splits)
  then show ?case
  proof cases
    case 1
    then show ?thesis
      using RespValue.prems by (auto simp: resp_Read.simps type_bytes)
  next
    case 2
    then show ?thesis
      using RespValue.prems ParseInt_dec_int [OF sint64_bounds, of num] by (simp add: resp_Read.simps type_bytes)
  next
    case 3
    have "ReadFull (nat (int (length str) + 2)) (str @ crlf @ r) = Inr (str @ crlf, r)"
      using ReadFull_append [of "str @ crlf" "nat (int (length str) + 2)" r] by (simp add: crlf_def nat_add_distrib)
    then show ?thesis
      using 3 RespValue.prems Atoi_len [of "length str"] Atoi_neg minus_one_line by (auto simp: resp_Read.simps type_bytes)
  next
    case 4
    have "resp_Read (encode v @ r) = Inr (v, r)" if "v \<in> set elems" for v r
      using RespValue.IH [OF that] RespValue.prems 4 that by (simp add: type_bytes list_all_iff)
    then have "read_elems (length elems) (concat (map encode elems) @ r) = Inr (elems, r)"
      by (rule read_elems_encode)
    then show ?thesis
      using 4 RespValue.prems Atoi_len [of "length elems"] Atoi_neg minus_one_line by (auto simp: resp_Read.simps type_bytes)
  qed
qed

section \<open>Parsing looks at nothing beyond the value\<close>

lemma ReadString_extend: "ReadString s = Inr (line, r) \<Longrightarrow> ReadString (s @ x) = Inr (line, r @ x)"
proof -
  assume a: "ReadString s = Inr (line, r)"
  then have "10 \<in> set s"
    by (auto simp: ReadString_def split: if_splits)
  then obtain l s2 where s: "s = l @ 10 # s2" "10 \<notin> set l"
    by (meson split_list_first)
  then show ?thesis
    using a ReadString_line [of l s2] ReadString_line [of l "s2 @ x"] by simp
qed

lemma readLine_extend: "readLine s = Inr (line, r) \<Longrightarrow> readLine (s @ x) = Inr (line, r @ x)"
  by (auto simp: readLine_def Let_def split: sum.splits if_splits dest!: ReadString_extend [of s _ _ x])

lemma ReadFull_extend: "ReadFull n s = Inr (b, r) \<Longrightarrow> ReadFull n (s @ x) = Inr (b, r @ x)"
  using ReadFull_Inr [of n s b r] ReadFull_append [of b n "r @ x"] by auto

lemma Read_extend:
  "resp_Read s = Inr (v, r) \<Longrightarrow> resp_Read (s @ x) = Inr (v, r @ x)"
  "read_elems n s = Inr (vs, r) \<Longrightarrow> read_elems n (s @ x) = Inr (vs, r @ x)"
proof (induction s and n s arbitrary: v r and vs r rule: resp_Read_read_elems.induct)
  case (1 s)
  obtain line r1 where l: "readLine s = Inr (line, r1)"
    using 1(2) by (cases "readLine s") (auto simp: resp_Read.simps)
  note l' = readLine_extend [OF l, of x]
  show ?case
    using 1(2) "1.IH" [OF l refl]
    by (simp add: resp_Read.simps [of s] resp_Read.simps [of "s @ x"] l l' type_bytes split: if_splits sum.splits)
      (auto split: prod.splits dest: ReadFull_extend [where x = x])
next
  case (3 n s)
  obtain v1 r1 where a: "resp_Read s = Inr (v1, r1)"
    using "3.prems" by (cases "resp_Read s") (auto simp: read_elems.simps)
  obtain vs2 where b: "read_elems n r1 = Inr (vs2, r)" "vs = v1 # vs2"
    using "3.prems" a by (auto simp: read_elems.simps split: sum.splits)
  show ?case
    using "3.IH"(1) [OF a] "3.IH"(2) [OF a refl b(1)] b(2) by (simp add: read_elems.simps)
qed simp

lemma Read_cut:
  assumes "wf_value v" "prefix p (encode v)" "p \<noteq> encode v"
  shows "\<exists>e. resp_Read p = Inl e"
proof (rule ccontr)
  assume "\<nexists>e. resp_Read p = Inl e"
  then obtain v' r where p: "resp_Read p = Inr (v', r)"
    by (metis obj_sumE surj_pair)
  obtain x where x: "encode v = p @ x" "x \<noteq> []"
    using assms(2,3) by (auto simp: prefix_def)
  have "resp_Read (encode v) = Inr (v', r @ x)"
    using Read_extend(1) [OF p, of x] x(1) by simp
  moreover have "resp_Read (encode v) = Inr (v, [])"
    using Read_encode [OF assms(1), of "[]"] by simp
  ultimately show False
    using x(2) by simp
qed

lemma Read_panic_extend:
  "resp_Read s = Inl MakePanic \<Longrightarrow> resp_Read (s @ x) = Inl MakePanic"
  "read_elems n s = Inl MakePanic \<Longrightarrow> read_elems n (s @ x) = Inl MakePanic"
proof (induction s and n s rule: resp_Read_read_elems.induct)
  case (1 s)
  obtain line r1 where l: "readLine s = Inr (line, r1)"
    using 1(2) by (cases "readLine s") (auto simp: resp_Read.simps)
  note l' = readLine_extend [OF l, of x]
  show ?case
    using 1(2) "1.IH" [OF l refl]
    by (simp add: resp_Read.simps [of s] resp_Read.simps [of "s @ x"] l l' type_bytes split: if_splits sum.splits)
      (auto split: prod.splits)
next
  case (3 n s)
  show ?case
  proof (cases "resp_Read s")
    case (Inl e)
    then show ?thesis
      using 3 by (simp add: read_elems.simps)
  next
    case (Inr a)
    then obtain v r where a: "resp_Read s = Inr (v, r)"
      by (cases a) simp
    then have "read_elems n r = Inl MakePanic"
      using "3.prems" by (auto simp: read_elems.simps split: sum.splits)
    then show ?thesis
      using "3.IH"(2) [OF a refl] Read_extend(1) [OF a, of x] by (simp add: read_elems.simps)
  qed
qed simp

lemma cut_no_panic:
  assumes "wf_value v" "prefix p (encode v)"
  shows "resp_Read p \<noteq> Inl MakePanic"
  using Read_panic_extend(1) [of p] Read_encode [OF assms(1), of "[]"] assms(2) by (auto simp: prefix_def)

text \<open>Everything the parser returns is well formed.\<close>

lemma readLine_no_lf:
  assumes "readLine s = Inr (line, r)"
  shows "10 \<notin> set line"
proof -
  have "10 \<in> set s"
    using assms by (auto simp: readLine_def ReadString_def split: if_splits)
  then obtain t r' where s: "s = t @ 10 # r'" "10 \<notin> set t"
    by (metis split_list_first)
  have "line = take (length t - 1) t \<or> line = t"
    using assms ReadString_line [OF s(2), of r'] unfolding s(1) by (auto simp: readLine_def Let_def split: if_splits)
  then show ?thesis
    using s(2) by (auto dest: in_set_takeD)
qed

lemma Read_wf:
  "resp_Read s = Inr (v, r) \<Longrightarrow> wf_value v"
  "read_elems n s = Inr (vs, r) \<Longrightarrow> list_all wf_value vs \<and> length vs = n"
proof (induction s and n s arbitrary: v r and vs r rule: resp_Read_read_elems.induct)
  case (1 s)
  obtain line r1 where l: "readLine s = Inr (line, r1)"
    using 1(2) by (cases "readLine s") (auto simp: resp_Read.simps)
  have "10 \<notin> set (drop 1 line)"
    using readLine_no_lf [OF l] by (auto dest: in_set_dropD)
  then show ?case
    using 1(2) "1.IH" [OF l refl]
    by (auto simp: resp_Read.simps [of s] l type_bytes maxAlloc_def split: if_splits sum.splits prod.splits dest!: ReadFull_Inr)
next
  case (3 n s)
  obtain v1 r1 where a: "resp_Read s = Inr (v1, r1)"
    using "3.prems" by (cases "resp_Read s") (auto simp: read_elems.simps)
  obtain vs2 where b: "read_elems n r1 = Inr (vs2, r)" "vs = v1 # vs2"
    using "3.prems" a by (auto simp: read_elems.simps split: sum.splits)
  show ?case
    using "3.IH"(1) [OF a] "3.IH"(2) [OF a refl b(1)] b(2) by simp
qed simp

end
