(* ===== verification/Go_Heap.thy ===== *)
theory Go_Heap
  imports Go_Prelude "HOL-Library.Multiset"
begin

text \<open>
  Model of Go's \<^verbatim>\<open>container/heap\<close> on a slice: \<^verbatim>\<open>up\<close>, \<^verbatim>\<open>down\<close>, \<^verbatim>\<open>Push\<close> and \<^verbatim>\<open>Pop\<close>, with the comparison
  \<^verbatim>\<open>Less\<close> of the elements as an argument. For a strict weak order the slice stays a heap, the operations
  keep the elements, and \<^verbatim>\<open>Pop\<close> returns a least one.
\<close>

section \<open>Definitions\<close>

definition heap_Swap :: "'a list \<Rightarrow> nat \<Rightarrow> nat \<Rightarrow> 'a list" where
  "heap_Swap h i j = h[i := h ! j, j := h ! i]"

text \<open>The parent index \<^verbatim>\<open>(j - 1) / 2\<close>; Go rounds towards zero, so that of the root is the root.\<close>

definition parent :: "nat \<Rightarrow> nat" where
  "parent j = (j - 1) div 2"

lemma parent_less: "parent j \<noteq> j \<Longrightarrow> parent j < j"
  by (cases j) (auto simp: parent_def)

function heap_up :: "('a \<Rightarrow> 'a \<Rightarrow> bool) \<Rightarrow> 'a list \<Rightarrow> nat \<Rightarrow> 'a list" where
  "heap_up lt h j =
     (let i = parent j
      in if i = j \<or> \<not> lt (h ! j) (h ! i) then h else heap_up lt (heap_Swap h i j) i)"
  by pat_completeness auto
termination
  by (relation "measure (\<lambda>(lt, h, j). j)") (auto dest: parent_less)

function heap_down :: "('a \<Rightarrow> 'a \<Rightarrow> bool) \<Rightarrow> 'a list \<Rightarrow> nat \<Rightarrow> nat \<Rightarrow> 'a list" where
  "heap_down lt h i n =
     (let j1 = 2 * i + 1
      in if j1 \<ge> n then h
         else (let j2 = j1 + 1;
                   j = (if j2 < n \<and> lt (h ! j2) (h ! j1) then j2 else j1)
               in if \<not> lt (h ! j) (h ! i) then h else heap_down lt (heap_Swap h i j) j n))"
  by pat_completeness auto
termination
  by (relation "measure (\<lambda>(lt, h, i, n). n - i)") (auto split: if_splits)

declare heap_up.simps [simp del] heap_down.simps [simp del]

definition heap_Push :: "('a \<Rightarrow> 'a \<Rightarrow> bool) \<Rightarrow> 'a \<Rightarrow> 'a list \<Rightarrow> 'a list" where
  "heap_Push lt x h = (let h1 = h @ [x] in heap_up lt h1 (length h1 - 1))"

definition heap_Pop :: "('a \<Rightarrow> 'a \<Rightarrow> bool) \<Rightarrow> 'a list \<Rightarrow> 'a \<times> 'a list" where
  "heap_Pop lt h =
     (let n = length h - 1;
          h1 = heap_down lt (heap_Swap h 0 n) 0 n
      in (h1 ! n, take n h1))"

section \<open>The elements are kept\<close>

lemma length_heap_Swap [simp]: "length (heap_Swap h i j) = length h"
  by (simp add: heap_Swap_def)

lemma nth_heap_Swap:
  "i < length h \<Longrightarrow> j < length h \<Longrightarrow> heap_Swap h i j ! k = (if k = j then h ! i else if k = i then h ! j else h ! k)"
  by (auto simp: heap_Swap_def nth_list_update)

lemma mset_heap_Swap [simp]: "i < length h \<Longrightarrow> j < length h \<Longrightarrow> mset (heap_Swap h i j) = mset h"
  by (simp add: heap_Swap_def mset_swap)

lemma heap_up_keeps:
  "j < length h \<Longrightarrow> mset (heap_up lt h j) = mset h \<and> length (heap_up lt h j) = length h"
proof (induction lt h j rule: heap_up.induct)
  case (1 lt h j)
  show ?case
  proof (cases "parent j = j \<or> \<not> lt (h ! j) (h ! parent j)")
    case True
    then show ?thesis by (simp add: heap_up.simps)
  next
    case False
    then have "parent j < j"
      using parent_less by blast
    then show ?thesis
      using 1 False by (subst (1 2) heap_up.simps) (simp add: Let_def)
  qed
qed

text \<open>The child that \<^verbatim>\<open>down\<close> compares with, and the loop in terms of it.\<close>

definition least_child :: "('a \<Rightarrow> 'a \<Rightarrow> bool) \<Rightarrow> 'a list \<Rightarrow> nat \<Rightarrow> nat \<Rightarrow> nat" where
  "least_child lt h i n = (if 2 * i + 2 < n \<and> lt (h ! (2 * i + 2)) (h ! (2 * i + 1)) then 2 * i + 2 else 2 * i + 1)"

lemma heap_down_eq:
  "heap_down lt h i n =
     (if n \<le> 2 * i + 1 \<or> \<not> lt (h ! least_child lt h i n) (h ! i) then h
      else heap_down lt (heap_Swap h i (least_child lt h i n)) (least_child lt h i n) n)"
  by (subst heap_down.simps) (auto simp: Let_def least_child_def)

lemma least_child_bounds: "2 * i + 1 < n \<Longrightarrow> i < least_child lt h i n \<and> least_child lt h i n < n \<and> parent (least_child lt h i n) = i"
  by (auto simp: least_child_def parent_def)

lemma heap_down_keeps:
  "n \<le> length h \<Longrightarrow> mset (heap_down lt h i n) = mset h \<and> length (heap_down lt h i n) = length h \<and>
    (\<forall>k \<ge> n. heap_down lt h i n ! k = h ! k)"
proof (induction "n - i" arbitrary: h i rule: less_induct)
  case less
  let ?j = "least_child lt h i n"
  show ?case
  proof (cases "n \<le> 2 * i + 1 \<or> \<not> lt (h ! ?j) (h ! i)")
    case True
    then show ?thesis by (simp add: heap_down_eq [of lt h i n])
  next
    case False
    then have j: "i < ?j" "?j < n" "i < n"
      using least_child_bounds [of i n lt h] by auto
    then show ?thesis
      using less(1) [of ?j "heap_Swap h i ?j"] less(2) False by (simp add: heap_down_eq [of lt h i n] nth_heap_Swap)
  qed
qed

lemma heap_Push_mset [simp]: "mset (heap_Push lt x h) = add_mset x (mset h)"
  using heap_up_keeps [of "length h" "h @ [x]" lt] by (simp add: heap_Push_def)

lemma heap_Pop_mset:
  assumes "h \<noteq> []" "heap_Pop lt h = (x, h')"
  shows "mset h = add_mset x (mset h')" "x = h ! 0"
proof -
  let ?n = "length h - 1"
  let ?h = "heap_down lt (heap_Swap h 0 ?n) 0 ?n"
  have n: "0 < length h" "?n < length h"
    using assms(1) by simp_all
  then have K: "mset ?h = mset h" "length ?h = length h" "?h ! ?n = h ! 0"
    using heap_down_keeps [of ?n "heap_Swap h 0 ?n" lt 0] by (simp_all add: nth_heap_Swap)
  have x: "x = ?h ! ?n" "h' = take ?n ?h"
    using assms(2) by (simp_all add: heap_Pop_def Let_def)
  have "?h = take ?n ?h @ [?h ! ?n]"
    using K(2) n by (metis take_Suc_conv_app_nth Suc_diff_1 take_all order.refl)
  then have "mset ?h = add_mset (?h ! ?n) (mset (take ?n ?h))"
    by (metis mset_append add_mset_add_single mset.simps)
  then show "mset h = add_mset x (mset h')" "x = h ! 0"
    using K(1,3) x by simp_all
qed

section \<open>The heap order\<close>

text \<open>No element is less than its parent, for the first \<open>n\<close> indices from \<open>m\<close> on.\<close>

definition is_heap :: "('a \<Rightarrow> 'a \<Rightarrow> bool) \<Rightarrow> 'a list \<Rightarrow> nat \<Rightarrow> bool" where
  "is_heap lt h n \<longleftrightarrow> (\<forall>k. 0 < k \<and> k < n \<longrightarrow> \<not> lt (h ! k) (h ! parent k))"

text \<open>The order may be broken between one index and its parent, or between it and its children.\<close>

definition heap_but_up :: "('a \<Rightarrow> 'a \<Rightarrow> bool) \<Rightarrow> 'a list \<Rightarrow> nat \<Rightarrow> nat \<Rightarrow> bool" where
  "heap_but_up lt h n j \<longleftrightarrow>
     (\<forall>k. 0 < k \<and> k < n \<longrightarrow>
        (k \<noteq> j \<longrightarrow> \<not> lt (h ! k) (h ! parent k)) \<and> (parent k = j \<and> 0 < j \<longrightarrow> \<not> lt (h ! k) (h ! parent j)))"

definition heap_but_down :: "('a \<Rightarrow> 'a \<Rightarrow> bool) \<Rightarrow> 'a list \<Rightarrow> nat \<Rightarrow> nat \<Rightarrow> bool" where
  "heap_but_down lt h n i \<longleftrightarrow>
     (\<forall>k. 0 < k \<and> k < n \<longrightarrow>
        (parent k \<noteq> i \<longrightarrow> \<not> lt (h ! k) (h ! parent k)) \<and> (parent k = i \<and> 0 < i \<longrightarrow> \<not> lt (h ! k) (h ! parent i)))"

lemma parent_cases: "0 < k \<Longrightarrow> parent k = i \<longleftrightarrow> k = 2 * i + 1 \<or> k = 2 * i + 2"
  by (auto simp: parent_def)

lemma parent_pos: "0 < k \<Longrightarrow> parent k < k"
  by (simp add: parent_def)

text \<open>What \<^verbatim>\<open>sort.Interface\<close> asks of \<^verbatim>\<open>Less\<close>: a strict weak order.\<close>

locale heap_less =
  fixes lt :: "'a \<Rightarrow> 'a \<Rightarrow> bool"
  assumes irrefl: "\<not> lt a a"
    and neg_trans: "\<not> lt a b \<Longrightarrow> \<not> lt b c \<Longrightarrow> \<not> lt a c"
    and asym: "lt a b \<Longrightarrow> \<not> lt b a"
begin

lemma root_least:
  assumes "is_heap lt h n" "k < n"
  shows "\<not> lt (h ! k) (h ! 0)"
  using assms(2)
proof (induction k rule: less_induct)
  case (less k)
  show ?case
  proof (cases "k = 0")
    case True
    then show ?thesis by (simp add: irrefl)
  next
    case False
    then have p: "parent k < k"
      by (simp add: parent_pos)
    then have "\<not> lt (h ! parent k) (h ! 0)" "\<not> lt (h ! k) (h ! parent k)"
      using less assms(1) False by (auto simp: is_heap_def)
    then show ?thesis
      using neg_trans by blast
  qed
qed

lemma heap_up_heap:
  "j < length h \<Longrightarrow> heap_but_up lt h (length h) j \<Longrightarrow> is_heap lt (heap_up lt h j) (length h)"
proof (induction j arbitrary: h rule: less_induct)
  case (less j)
  let ?i = "parent j" and ?n = "length h"
  show ?case
  proof (cases "?i = j \<or> \<not> lt (h ! j) (h ! ?i)")
    case True
    then have "is_heap lt h ?n"
      using less(3) parent_pos [of j] by (auto simp: is_heap_def heap_but_up_def)
    then show ?thesis
      using True by (simp add: heap_up.simps [of lt h j])
  next
    case False
    then have i: "?i < j" "0 < j"
      using parent_less [of j] by (auto simp: parent_def)
    let ?h = "heap_Swap h ?i j"
    have nth: "?h ! k = (if k = j then h ! ?i else if k = ?i then h ! j else h ! k)" for k
      using i less(2) by (simp add: nth_heap_Swap)
    have P: "\<not> lt (h ! k) (h ! parent k)" if "0 < k" "k < ?n" "k \<noteq> j" for k
      using less(3) that by (simp add: heap_but_up_def)
    have "heap_but_up lt ?h ?n ?i"
      unfolding heap_but_up_def
    proof (intro allI impI conjI)
      fix k assume k: "0 < k \<and> k < ?n"
      show "\<not> lt (?h ! k) (?h ! parent k)" if c: "k \<noteq> ?i"
      proof -
        have down: "\<not> lt (h ! ?i) (h ! j)"
          using False asym by blast
        consider "k = j" | "k \<noteq> j" "parent k = j" | "k \<noteq> j" "parent k = ?i" | "k \<noteq> j" "parent k \<noteq> j" "parent k \<noteq> ?i"
          by blast
        then show ?thesis
        proof cases
          case 2
          then show ?thesis
            using less(3) k c i unfolding nth heap_but_up_def by simp
        next
          case 3
          then show ?thesis
            using P [of k] k c i down neg_trans [of "h ! k" "h ! ?i" "h ! j"] unfolding nth by simp
        qed (use P [of k] k c i down in \<open>auto simp: nth\<close>)
      qed
      show "\<not> lt (?h ! k) (?h ! parent ?i)" if c: "parent k = ?i \<and> 0 < ?i"
      proof -
        have up: "\<not> lt (h ! ?i) (h ! parent ?i)" "parent ?i < ?i"
          using P [of ?i] c i less(2) parent_pos [of ?i] by simp_all
        have "\<not> lt (h ! k) (h ! ?i)" if "k \<noteq> j"
          using P [of k] k c that by simp
        then have "\<not> lt (if k = j then h ! ?i else h ! k) (h ! parent ?i)"
          using up(1) neg_trans [of "h ! k" "h ! ?i" "h ! parent ?i"] by simp
        then show ?thesis
          using up(2) i c unfolding nth by auto
      qed
    qed
    then show ?thesis
      using less(1) [OF i(1), of ?h] False less(2) i by (simp add: heap_up.simps [of lt h j] Let_def)
  qed
qed

lemma least_child_least:
  assumes "2 * i + 1 < n" "0 < k" "k < n" "parent k = i"
  shows "\<not> lt (h ! k) (h ! least_child lt h i n)"
  using assms irrefl asym by (auto simp: least_child_def parent_cases)

lemma heap_down_heap:
  "n \<le> length h \<Longrightarrow> heap_but_down lt h n i \<Longrightarrow> is_heap lt (heap_down lt h i n) n"
proof (induction "n - i" arbitrary: h i rule: less_induct)
  case less
  let ?j = "least_child lt h i n"
  show ?case
  proof (cases "n \<le> 2 * i + 1 \<or> \<not> lt (h ! ?j) (h ! i)")
    case True
    have "\<not> lt (h ! k) (h ! i)" if "0 < k" "k < n" "parent k = i" for k
      using least_child_least [of i n k h] neg_trans [of "h ! k" "h ! ?j" "h ! i"] True that by (auto simp: parent_cases)
    then have "is_heap lt h n"
      using less(3) by (auto simp: is_heap_def heap_but_down_def)
    then show ?thesis
      using True by (simp add: heap_down_eq [of lt h i n])
  next
    case False
    then have j: "i < ?j" "?j < n" "parent ?j = i" "0 < ?j"
      using least_child_bounds [of i n lt h] by auto
    let ?h = "heap_Swap h i ?j"
    have nth: "?h ! k = (if k = ?j then h ! i else if k = i then h ! ?j else h ! k)" for k
      using j less(2) by (simp add: nth_heap_Swap)
    have P: "\<not> lt (h ! k) (h ! parent k)" if "0 < k" "k < n" "parent k \<noteq> i" for k
      using less(3) that by (simp add: heap_but_down_def)
    have ji: "\<not> lt (h ! i) (h ! ?j)"
      using False asym by blast
    have "heap_but_down lt ?h n ?j"
      unfolding heap_but_down_def
    proof (intro allI impI conjI)
      fix k assume k: "0 < k \<and> k < n"
      show "\<not> lt (?h ! k) (?h ! parent k)" if c: "parent k \<noteq> ?j"
      proof -
        consider "k = ?j" | "k \<noteq> ?j" "parent k = i" | "k = i" "parent k \<noteq> i" | "k \<noteq> ?j" "k \<noteq> i" "parent k \<noteq> i"
          by blast
        then show ?thesis
        proof cases
          case 2
          then show ?thesis
            using least_child_least [of i n k h] False k parent_pos [of k] j unfolding nth by auto
        next
          case 3
          then show ?thesis
            using less(3) k c j parent_pos [of k] unfolding nth heap_but_down_def by auto
        qed (use P [of k] k c j ji in \<open>auto simp: nth\<close>)
      qed
      show "\<not> lt (?h ! k) (?h ! parent ?j)" if c: "parent k = ?j \<and> 0 < ?j"
        using P [of k] k c j parent_pos [of k] unfolding nth by auto
    qed
    then show ?thesis
      using less(1) [of ?j ?h] less(2) False j by (simp add: heap_down_eq [of lt h i n])
  qed
qed

lemma heap_Push_heap:
  assumes "is_heap lt h (length h)"
  shows "is_heap lt (heap_Push lt x h) (length (heap_Push lt x h))"
proof -
  have "heap_but_up lt (h @ [x]) (length (h @ [x])) (length h)"
    using assms parent_pos unfolding heap_but_up_def is_heap_def
    by (auto simp: nth_append less_Suc_eq) (metis less_trans not_less_iff_gr_or_eq parent_pos)+
  then show ?thesis
    using heap_up_heap [of "length h" "h @ [x]"] heap_up_keeps [of "length h" "h @ [x]" lt] by (simp add: heap_Push_def)
qed

lemma heap_Pop_heap:
  assumes "is_heap lt h (length h)" "h \<noteq> []" "heap_Pop lt h = (x, h')"
  shows "is_heap lt h' (length h')" "\<forall>y \<in> set h'. \<not> lt y x"
proof -
  let ?n = "length h - 1"
  let ?s = "heap_Swap h 0 ?n"
  let ?h = "heap_down lt ?s 0 ?n"
  have n: "0 < length h" "?n < length h"
    using assms(2) by simp_all
  have "heap_but_down lt ?s ?n 0"
    unfolding heap_but_down_def
  proof (intro allI impI conjI)
    fix k assume k: "0 < k \<and> k < ?n"
    show "\<not> lt (?s ! k) (?s ! parent k)" if "parent k \<noteq> 0"
      using assms(1) k n that parent_pos [of k] by (simp add: nth_heap_Swap is_heap_def)
  qed simp
  then have "is_heap lt ?h ?n"
    by (intro heap_down_heap) simp_all
  moreover have h': "h' = take ?n ?h" "length h' = ?n"
    using assms(3) heap_down_keeps [of ?n ?s lt 0] n by (auto simp: heap_Pop_def Let_def)
  ultimately show "is_heap lt h' (length h')"
    unfolding is_heap_def using less_trans [OF parent_pos] by simp
  have sub: "set h' \<subseteq> set h"
    using heap_Pop_mset(1) [OF assms(2,3)] by (metis set_mset_mset set_mset_add_mset_insert subset_insertI)
  show "\<forall>y \<in> set h'. \<not> lt y x"
  proof
    fix y assume "y \<in> set h'"
    then have "y \<in> set h"
      using sub by blast
    then obtain k where "k < length h" "h ! k = y"
      by (auto simp: in_set_conv_nth)
    then show "\<not> lt y x"
      using root_least [OF assms(1), of k] heap_Pop_mset(2) [OF assms(2,3)] by simp
  qed
qed

end

end
