(* ===== verification/Merge_Iterator.thy ===== *)
theory Merge_Iterator
  imports Database Go_Heap
begin

text \<open>
  Model of \<^verbatim>\<open>db/iterator.go\<close>: the range scan that merges the memtable and all tables through a heap. The
  \<^verbatim>\<open>source\<close> interface is a datatype of its two implementations. A source belongs to one heap item at a
  time, so the pointer to it is the source itself. Iterating reads tables through the block cache,
  which is passed along. The loops terminate: every turn takes a source off the heap and puts it back
  further on, or not at all.
\<close>

section \<open>Definitions\<close>

datatype source = MemSource mem_Iterator | SstSource sst_Iterator

fun src_Valid :: "source \<Rightarrow> bool" where
  "src_Valid (MemSource it) = mem_Valid it"
| "src_Valid (SstSource it) = si_valid it"

fun src_Key :: "source \<Rightarrow> bytes" where
  "src_Key (MemSource it) = mem_Key it"
| "src_Key (SstSource it) = sst_Key it"

fun src_Value :: "source \<Rightarrow> bytes" where
  "src_Value (MemSource it) = mem_Value it"
| "src_Value (SstSource it) = sst_Value it"

fun src_Next :: "source \<Rightarrow> block_cache \<Rightarrow> world \<Rightarrow> source \<times> block_cache" where
  "src_Next (MemSource it) c w = (MemSource (mem_Next it), c)"
| "src_Next (SstSource it) c w = (case sst_Next it c w of (it', c') \<Rightarrow> (SstSource it', c'))"

record mergeItem =
  it_key :: bytes
  it_priority :: nat
  it_src :: source

type_synonym mergeHeap = "mergeItem list"

text \<open>\<^verbatim>\<open>mergeHeap.Less\<close> on the two items.\<close>

definition merge_Less :: "mergeItem \<Rightarrow> mergeItem \<Rightarrow> bool" where
  "merge_Less a b =
     (let c = InternalCompare bytes_Compare (DecodeInternalKey (it_key a)) (DecodeInternalKey (it_key b))
      in if c \<noteq> 0 then c < 0 else it_priority a < it_priority b)"

record MergeIterator =
  m_h :: mergeHeap
  m_upperBound :: "bytes option"
  m_key :: bytes
  m_val :: bytes
  m_valid :: bool

subsection \<open>Opening a scan\<close>

fun scan_tables ::
  "SSTable list \<Rightarrow> nat \<Rightarrow> bytes \<Rightarrow> SeqNum \<Rightarrow> mergeHeap \<Rightarrow> block_cache \<Rightarrow> world \<Rightarrow> (go_error + mergeHeap) \<times> block_cache" where
  "scan_tables [] i lowerBound snapshot h c w = (Inr h, c)"
| "scan_tables (sst # tables) i lowerBound snapshot h c w =
     (case sst_NewIterator sst lowerBound snapshot c w of
        (Inl e, c1) \<Rightarrow> (Inl e, c1)
      | (Inr sstIt, c1) \<Rightarrow>
          scan_tables tables (i + 1) lowerBound snapshot
            (if si_valid sstIt
             then heap_Push merge_Less \<lparr>it_key = sst_Key sstIt, it_priority = i + 1, it_src = SstSource sstIt\<rparr> h
             else h) c1 w)"

definition ScanAt ::
  "'t btree \<Rightarrow> bytes \<Rightarrow> bytes option \<Rightarrow> SeqNum \<Rightarrow> 't DB \<Rightarrow> world \<Rightarrow> (go_error + MergeIterator) \<times> 't DB" where
  "ScanAt bt lowerBound upperBound snapshot db w =
     (let memIt = mem_NewIterator bt (db_memtable db) lowerBound upperBound snapshot;
          h = (if mem_Valid memIt
               then heap_Push merge_Less \<lparr>it_key = mem_Key memIt, it_priority = 0, it_src = MemSource memIt\<rparr> []
               else [])
      in case scan_tables (db_sstables db) 0 lowerBound snapshot h (db_blockCache db) w of
           (Inl e, c) \<Rightarrow> (Inl e, db\<lparr>db_blockCache := c\<rparr>)
         | (Inr h', c) \<Rightarrow>
             (Inr \<lparr>m_h = h', m_upperBound = upperBound, m_key = [], m_val = [], m_valid = False\<rparr>, db\<lparr>db_blockCache := c\<rparr>))"

definition Scan :: "'t btree \<Rightarrow> bytes \<Rightarrow> bytes option \<Rightarrow> 't DB \<Rightarrow> world \<Rightarrow> (go_error + MergeIterator) \<times> 't DB" where
  "Scan bt lowerBound upperBound db w = ScanAt bt lowerBound upperBound SeqNumMax db w"

subsection \<open>Termination of the loops\<close>

text \<open>How far a source is from its end.\<close>

fun src_rank :: "source \<Rightarrow> nat \<times> nat" where
  "src_rank (MemSource it) = (0, length (mi_entries it) - mi_pos it)"
| "src_rank (SstSource it) = (length (sst_index (si_sst it)) - si_blockIdx it, length (si_entries it) - si_pos it)"

abbreviation rank_less :: "((nat \<times> nat) \<times> nat \<times> nat) set" where
  "rank_less \<equiv> less_than <*lex*> less_than"

lemma rank_less_trans: "(a, b) \<in> rank_less \<Longrightarrow> (b, c) \<in> rank_less \<Longrightarrow> (a, c) \<in> rank_less"
  by (cases a; cases b; cases c) auto

lemma scan_until_rank:
  "scan_until P it c w = (it', c') \<Longrightarrow> it' = it \<or> \<not> si_valid it' \<or> (src_rank (SstSource it'), src_rank (SstSource it)) \<in> rank_less"
proof (induction P it c w arbitrary: it' c' rule: scan_until.induct)
  case (1 P it c w)
  obtain b it1 c1 where a: "advance it c w = ((b, it1), c1)"
    by (metis surj_pair)
  show ?case
  proof (cases "si_valid it \<and> \<not> P (si_entries it ! si_pos it)")
    case False
    then have "it' = it"
      using "1.prems" by (subst (asm) scan_until.simps) (simp only: if_False prod.inject)
    then show ?thesis by simp
  next
    case True
    show ?thesis
    proof (cases b)
      case False
      then have "\<not> si_valid it1"
        using a by (auto simp: advance_def Let_def split: if_splits prod.splits)
      then show ?thesis
        using "1.prems" a True False by (subst (asm) scan_until.simps) simp
    next
      case b: True
      then have s: "scan_until P it1 c1 w = (it', c')"
        using "1.prems" a True by (subst (asm) scan_until.simps) simp
      have "(src_rank (SstSource it1), src_rank (SstSource it)) \<in> rank_less"
        using advance_progress a b by simp
      then show ?thesis
        using "1.IH" [OF True a [symmetric] refl _ s] b rank_less_trans by blast
    qed
  qed
qed

lemma src_Next_rank:
  assumes "src_Next s c w = (s', c')" "src_Valid s'"
  shows "(src_rank s', src_rank s) \<in> rank_less"
proof (cases s)
  case (MemSource it)
  then show ?thesis
    using assms by (auto simp: mem_Next_def mem_Valid_def)
next
  case (SstSource it)
  obtain b it1 c1 where a: "advance it c w = ((b, it1), c1)"
    by (metis surj_pair)
  have b: b
    using assms SstSource a by (cases b) (auto simp: sst_Next_def advance_def Let_def split: if_splits prod.splits)
  then obtain it2 where s: "skipInvisible it1 c1 w = (it2, c')" "s' = SstSource it2"
    using assms(1) SstSource a by (auto simp: sst_Next_def split: prod.splits)
  have "(src_rank (SstSource it1), src_rank s) \<in> rank_less"
    using advance_progress a b SstSource by simp
  moreover have "it2 = it1 \<or> (src_rank (SstSource it2), src_rank (SstSource it1)) \<in> rank_less"
    using scan_until_rank [OF s(1) [unfolded skipInvisible_def]] s(2) assms(2) by (simp del: src_rank.simps)
  ultimately show ?thesis
    using s(2) rank_less_trans by blast
qed

lemma wf_rank: "wf (mult rank_less)"
  by (intro wf_mult wf_lex_prod wf_less_than)

subsection \<open>Advancing\<close>

text \<open>The loop of \<^verbatim>\<open>skipPast\<close>: step at least once, and on while the user key is the same.\<close>

function skip_loop :: "bytes \<Rightarrow> source \<Rightarrow> block_cache \<Rightarrow> world \<Rightarrow> source \<times> block_cache" where
  "skip_loop userKey src c w =
     (case src_Next src c w of
        (src', c') \<Rightarrow>
          if src_Valid src' \<and> UserKey (DecodeInternalKey (src_Key src')) = userKey then skip_loop userKey src' c' w
          else (src', c'))"
  by pat_completeness auto
termination
  by (relation "inv_image rank_less (\<lambda>(u, s, c, w). src_rank s)") (auto dest: src_Next_rank [OF sym])

declare skip_loop.simps [simp del]

definition skipPast :: "bytes \<Rightarrow> mergeItem \<Rightarrow> mergeHeap \<Rightarrow> block_cache \<Rightarrow> world \<Rightarrow> mergeHeap \<times> block_cache" where
  "skipPast userKey item h c w =
     (case skip_loop userKey (it_src item) c w of
        (src, c') \<Rightarrow>
          (if src_Valid src
           then heap_Push merge_Less \<lparr>it_key = src_Key src, it_priority = it_priority item, it_src = src\<rparr> h
           else h, c'))"

definition heap_rank :: "mergeHeap \<Rightarrow> (nat \<times> nat) multiset" where
  "heap_rank h = image_mset (src_rank \<circ> it_src) (mset h)"

lemma skip_loop_rank:
  "skip_loop u s c w = (s', c') \<Longrightarrow> src_Valid s' \<Longrightarrow> (src_rank s', src_rank s) \<in> rank_less"
proof (induction u s c w arbitrary: s' c' rule: skip_loop.induct)
  case (1 u s c w)
  obtain s1 c1 where n: "src_Next s c w = (s1, c1)"
    by (metis surj_pair)
  show ?case
  proof (cases "src_Valid s1 \<and> UserKey (DecodeInternalKey (src_Key s1)) = u")
    case True
    then have "skip_loop u s1 c1 w = (s', c')"
      using "1.prems"(1) n by (subst (asm) skip_loop.simps) simp
    then show ?thesis
      using "1.IH" [OF n [symmetric] True] "1.prems"(2) src_Next_rank [OF n] True rank_less_trans by blast
  next
    case False
    then have "s1 = s'"
      using "1.prems"(1) n by (subst (asm) skip_loop.simps) (auto split: if_splits)
    then show ?thesis
      using src_Next_rank [OF n] "1.prems"(2) by simp
  qed
qed

lemma skipPast_rank:
  assumes "skipPast u x h c w = (h', c')"
  shows "(heap_rank h', add_mset (src_rank (it_src x)) (heap_rank h)) \<in> mult rank_less"
proof -
  obtain s c1 where s: "skip_loop u (it_src x) c w = (s, c1)"
    by (metis surj_pair)
  show ?thesis
  proof (cases "src_Valid s")
    case True
    then have "heap_rank h' = heap_rank h + {#src_rank s#}"
      using assms s by (auto simp: skipPast_def heap_rank_def)
    then show ?thesis
      using one_step_implies_mult [of "{#src_rank (it_src x)#}" "{#src_rank s#}" rank_less "heap_rank h"] skip_loop_rank [OF s True]
      by simp
  next
    case False
    then have "heap_rank h' = heap_rank h + {#}"
      using assms s by (auto simp: skipPast_def)
    then show ?thesis
      using one_step_implies_mult [of "{#src_rank (it_src x)#}" "{#}" rank_less "heap_rank h"] by simp
  qed
qed

lemma pop_skip_rank:
  assumes "h \<noteq> []" "heap_Pop merge_Less h = (x, h1)" "skipPast u x h1 c w = (h2, c2)"
  shows "(heap_rank h2, heap_rank h) \<in> mult rank_less"
  using skipPast_rank [OF assms(3)] heap_Pop_mset(1) [OF assms(1,2)] by (simp add: heap_rank_def)

text \<open>The loop of \<^verbatim>\<open>Next\<close> that drops the older versions of a user key.\<close>

function drop_versions :: "bytes \<Rightarrow> mergeHeap \<Rightarrow> block_cache \<Rightarrow> world \<Rightarrow> mergeHeap \<times> block_cache" where
  "drop_versions userKey h c w =
     (if h \<noteq> [] \<and> UserKey (DecodeInternalKey (it_key (h ! 0))) = userKey
      then (case heap_Pop merge_Less h of
              (item, h1) \<Rightarrow> (case skipPast userKey item h1 c w of (h2, c2) \<Rightarrow> drop_versions userKey h2 c2 w))
      else (h, c))"
  by pat_completeness auto
termination
  by (relation "inv_image (mult rank_less) (\<lambda>(u, h, c, w). heap_rank h)")
    (auto simp: wf_rank intro: pop_skip_rank [OF _ sym sym])

declare drop_versions.simps [simp del]

lemma drop_versions_rank:
  "drop_versions u h c w = (h', c') \<Longrightarrow> h' = h \<or> (heap_rank h', heap_rank h) \<in> mult rank_less"
proof (induction u h c w arbitrary: h' c' rule: drop_versions.induct)
  case (1 u h c w)
  obtain x h1 h2 c2 where p: "heap_Pop merge_Less h = (x, h1)" "skipPast u x h1 c w = (h2, c2)"
    by (metis surj_pair)
  show ?case
  proof (cases "h \<noteq> [] \<and> UserKey (DecodeInternalKey (it_key (h ! 0))) = u")
    case True
    then have "drop_versions u h2 c2 w = (h', c')"
      using "1.prems" p by (subst (asm) drop_versions.simps) simp
    then show ?thesis
      using "1.IH" [OF True p(1) [symmetric] p(2) [symmetric]] pop_skip_rank [OF _ p] True
      by (metis mult_def trancl_trans)
  next
    case False
    then show ?thesis
      using "1.prems" by (subst (asm) drop_versions.simps) auto
  qed
qed

text \<open>The heap after \<^verbatim>\<open>Next\<close> has taken off the top item and all versions of its user key.\<close>

definition take_group :: "mergeHeap \<Rightarrow> block_cache \<Rightarrow> world \<Rightarrow> mergeItem \<times> mergeHeap \<times> block_cache" where
  "take_group h c w =
     (case heap_Pop merge_Less h of
        (item, h1) \<Rightarrow>
          (let userKey = UserKey (DecodeInternalKey (it_key item))
           in case skipPast userKey item h1 c w of
                (h2, c2) \<Rightarrow> (item, drop_versions userKey h2 c2 w)))"

lemma take_group_rank:
  assumes "h \<noteq> []" "take_group h c w = (item, h', c')"
  shows "(heap_rank h', heap_rank h) \<in> mult rank_less"
proof -
  obtain x h1 h2 c2 where p: "heap_Pop merge_Less h = (x, h1)" "skipPast (UserKey (DecodeInternalKey (it_key x))) x h1 c w = (h2, c2)"
    by (metis surj_pair)
  then have "drop_versions (UserKey (DecodeInternalKey (it_key x))) h2 c2 w = (h', c')"
    using assms(2) by (auto simp: take_group_def Let_def)
  then show ?thesis
    using drop_versions_rank pop_skip_rank [OF assms(1) p] by (metis mult_def trancl_trans)
qed

function merge_Next :: "MergeIterator \<Rightarrow> block_cache \<Rightarrow> world \<Rightarrow> (bool \<times> MergeIterator) \<times> block_cache" where
  "merge_Next m c w =
     (if m_h m = [] then ((False, m\<lparr>m_valid := False\<rparr>), c)
      else (case take_group (m_h m) c w of
              (item, h, c1) \<Rightarrow>
                (let ik = DecodeInternalKey (it_key item);
                     userKey = UserKey ik;
                     val = src_Value (it_src item);
                     m1 = m\<lparr>m_h := h\<rparr>
                 in if (case m_upperBound m1 of None \<Rightarrow> False | Some b \<Rightarrow> bytes_Compare userKey b > 0)
                    then ((False, m1\<lparr>m_valid := False\<rparr>), c1)
                    else if key_Kind ik = InternalKeyKindDelete then merge_Next m1 c1 w
                    else ((True, m1\<lparr>m_key := userKey, m_val := val, m_valid := True\<rparr>), c1))))"
  by pat_completeness auto
termination
  by (relation "inv_image (mult rank_less) (\<lambda>(m, c, w). heap_rank (m_h m))")
    (auto simp: wf_rank intro: take_group_rank [OF _ sym])

declare merge_Next.simps [simp del]

definition merge_Key :: "MergeIterator \<Rightarrow> bytes" where
  "merge_Key m = m_key m"

definition merge_Value :: "MergeIterator \<Rightarrow> bytes" where
  "merge_Value m = m_val m"

definition merge_Valid :: "MergeIterator \<Rightarrow> bool" where
  "merge_Valid m = m_valid m"

end
