(* ===== verification/Scan_Correct.thy ===== *)
theory Scan_Correct
  imports Merge_Iterator Db_Failures
begin

text \<open>
  Correctness of range scans. A source is abstracted to the versions it has still to deliver and a heap
  to the set of all of them. Taking a group off the heap removes the versions of the least user key, so
  the loop over \<^verbatim>\<open>Next\<close> lists the keys of the map in the range, in order, with their values.
\<close>

section \<open>Definitions\<close>

text \<open>The loop \<^verbatim>\<open>for it.Next()\<close> of a client that collects keys and values.\<close>

lemma merge_Next_rank:
  "merge_Next m c w = ((True, m'), c') \<Longrightarrow> (heap_rank (m_h m'), heap_rank (m_h m)) \<in> mult rank_less"
proof (induction m c w arbitrary: m' c' rule: merge_Next.induct)
  case (1 m c w)
  have ne: "m_h m \<noteq> []"
    using "1.prems" by (subst (asm) merge_Next.simps) (auto split: if_splits)
  obtain x h c1 where g: "take_group (m_h m) c w = (x, h, c1)"
    by (metis surj_pair)
  have r: "(heap_rank h, heap_rank (m_h m)) \<in> mult rank_less"
    by (rule take_group_rank [OF ne g])
  let ?ik = "DecodeInternalKey (it_key x)"
  have up: "\<not> (case m_upperBound m of None \<Rightarrow> False | Some b \<Rightarrow> bytes_Compare (UserKey ?ik) b > 0)"
    using "1.prems" ne g by (subst (asm) merge_Next.simps) (auto simp: Let_def)
  show ?case
  proof (cases "key_Kind ?ik = InternalKeyKindDelete")
    case True
    then have "merge_Next (m\<lparr>m_h := h\<rparr>) c1 w = ((True, m'), c')"
      using "1.prems" ne g up by (subst (asm) merge_Next.simps) (simp add: Let_def)
    then show ?thesis
      using "1.IH" [OF ne g [symmetric] refl refl refl refl refl] up True r by (simp add: mult_def)
  next
    case False
    then have "m_h m' = h"
      using "1.prems" ne g up by (subst (asm) merge_Next.simps) (auto simp: Let_def)
    then show ?thesis
      using r by simp
  qed
qed

function merge_collect :: "MergeIterator \<Rightarrow> block_cache \<Rightarrow> world \<Rightarrow> (bytes \<times> bytes) list \<times> block_cache" where
  "merge_collect m c w =
     (case merge_Next m c w of
        ((True, m'), c') \<Rightarrow>
          (case merge_collect m' c' w of (xs, c'') \<Rightarrow> ((merge_Key m', merge_Value m') # xs, c''))
      | ((False, m'), c') \<Rightarrow> ([], c'))"
  by pat_completeness auto
termination
  by (relation "inv_image (mult rank_less) (\<lambda>(m, c, w). heap_rank (m_h m))")
    (auto simp: wf_rank intro: merge_Next_rank [OF sym])

declare merge_collect.simps [simp del]

text \<open>The versions a source has still to deliver.\<close>

fun src_stream :: "(SSTable \<times> BlockEntry list) list \<Rightarrow> SeqNum \<Rightarrow> source \<Rightarrow> version list" where
  "src_stream ts s (MemSource it) = map item_version (drop (mi_pos it) (mi_entries it))"
| "src_stream ts s (SstSource it) = versions (sst_stream s (chunk [] (the (map_of ts (si_sst it)))) it)"

fun src_ok :: "(SSTable \<times> BlockEntry list) list \<Rightarrow> SeqNum \<Rightarrow> source \<Rightarrow> bool" where
  "src_ok ts s (MemSource it) \<longleftrightarrow> True"
| "src_ok ts s (SstSource it) \<longleftrightarrow> (\<exists>t es. (t, es) \<in> set ts \<and> it_ready t s (chunk [] es) it)"

definition item_fine :: "(SSTable \<times> BlockEntry list) list \<Rightarrow> SeqNum \<Rightarrow> mergeItem \<Rightarrow> bool" where
  "item_fine ts s x \<longleftrightarrow>
     src_ok ts s (it_src x) \<and> src_Valid (it_src x) \<and> it_key x = src_Key (it_src x) \<and>
     sorted_wrt (<) (map fst (src_stream ts s (it_src x)))"

definition heap_fine :: "(SSTable \<times> BlockEntry list) list \<Rightarrow> SeqNum \<Rightarrow> mergeHeap \<Rightarrow> bool" where
  "heap_fine ts s h \<longleftrightarrow> is_heap merge_Less h (length h) \<and> (\<forall>x \<in> set h. item_fine ts s x)"

definition contents :: "(SSTable \<times> BlockEntry list) list \<Rightarrow> SeqNum \<Rightarrow> mergeHeap \<Rightarrow> version set" where
  "contents ts s h = (\<Union>x \<in> set h. set (src_stream ts s (it_src x)))"

text \<open>The cache is coherent with the tables and holds no block of a file still to be named.\<close>

definition cache_good :: "(gostring \<Rightarrow> bool) \<Rightarrow> (SSTable \<times> BlockEntry list) list \<Rightarrow> world \<Rightarrow> block_cache \<Rightarrow> bool" where
  "cache_good Q ts w c \<longleftrightarrow> cache_ok (fst ` set ts) w c \<and> cache_keys Q c"

text \<open>The least version of a user key is not a tombstone.\<close>

definition live_in :: "version set \<Rightarrow> bytes \<Rightarrow> bytes \<Rightarrow> bool" where
  "live_in C u v \<longleftrightarrow>
     (\<exists>kv \<in> C. UserKey (fst kv) = u \<and> snd kv = v \<and> key_Kind (fst kv) \<noteq> InternalKeyKindDelete \<and>
        (\<forall>kv' \<in> C. UserKey (fst kv') = u \<longrightarrow> fst kv \<le> fst kv'))"

section \<open>The order of the heap\<close>

interpretation merge_order: heap_less merge_Less
  by unfold_locales (auto simp: merge_Less_def Let_def order_simps split: if_splits)

section \<open>Sources\<close>

lemma rank_induct [case_names step]:
  assumes "\<And>src. (\<And>src'. (src_rank src', src_rank src) \<in> rank_less \<Longrightarrow> P src') \<Longrightarrow> P src"
  shows "P src"
proof -
  have "wf (inv_image rank_less src_rank)"
    by (intro wf_inv_image wf_lex_prod wf_less_than)
  then show ?thesis
    by (induction src rule: wf_induct_rule) (rule assms, simp del: src_rank.simps)
qed

text \<open>What a scan at snapshot \<open>s\<close> works with: tables on disk with known entries, and cache keys of past files.\<close>

locale scan_tables_on_disk =
  fixes w :: world and ts :: "(SSTable \<times> BlockEntry list) list" and s :: SeqNum and Q :: "gostring \<Rightarrow> bool"
  assumes held: "tables_hold w ts"
    and past: "\<forall>t \<in> fst ` set ts. table_keys Q t"
begin

lemma table_entries: "(t, es) \<in> set ts \<Longrightarrow> the (map_of ts t) = es"
proof -
  have "distinct (map (FilePath \<circ> fst) ts)"
    using held by (simp add: tables_hold_def)
  then have "distinct (map fst ts)"
    by (metis distinct_map map_map)
  then show "(t, es) \<in> set ts \<Longrightarrow> the (map_of ts t) = es"
    by simp
qed

lemma src_stream_valid:
  assumes "src_ok ts s src"
  shows "src_Valid src \<longleftrightarrow> src_stream ts s src \<noteq> []"
    "src_Valid src \<Longrightarrow> hd (src_stream ts s src) = (DecodeInternalKey (src_Key src), src_Value src)"
proof -
  show "src_Valid src \<longleftrightarrow> src_stream ts s src \<noteq> []"
    "src_Valid src \<Longrightarrow> hd (src_stream ts s src) = (DecodeInternalKey (src_Key src), src_Value src)"
  proof (atomize (full), cases src)
    case (MemSource it)
    then show "(src_Valid src \<longleftrightarrow> src_stream ts s src \<noteq> []) \<and>
      (src_Valid src \<longrightarrow> hd (src_stream ts s src) = (DecodeInternalKey (src_Key src), src_Value src))"
      by (auto simp: mem_Valid_def mem_Key_def mem_Value_def item_version_def ikey_def hd_map hd_drop_conv_nth)
  next
    case (SstSource it)
    then obtain t es where t: "(t, es) \<in> set ts" "it_ready t s (chunk [] es) it"
      using assms by auto
    then have "the (map_of ts (si_sst it)) = es"
      using table_entries by (auto simp: it_ready_def it_at_def)
    then show "(src_Valid src \<longleftrightarrow> src_stream ts s src \<noteq> []) \<and>
      (src_Valid src \<longrightarrow> hd (src_stream ts s src) = (DecodeInternalKey (src_Key src), src_Value src))"
      using sst_stream_valid [OF t(2)] SstSource
      by (auto simp: versions_def entry_version_def sst_Key_def sst_Value_def)
  qed
qed

lemma src_Next_stream:
  assumes "src_ok ts s src" "src_Valid src" "cache_good Q ts w c" "src_Next src c w = (src', c')"
  shows "src_ok ts s src' \<and> src_stream ts s src' = tl (src_stream ts s src) \<and> cache_good Q ts w c'"
proof (cases src)
  case (MemSource it)
  then show ?thesis
    using assms by (auto simp: mem_Next_def mem_Valid_def drop_Suc drop_tl map_tl)
next
  case (SstSource it)
  obtain it' where n: "sst_Next it c w = (it', c')" "src' = SstSource it'"
    using assms(4) SstSource by (auto split: prod.splits)
  obtain t es where t: "(t, es) \<in> set ts" "it_ready t s (chunk [] es) it"
    using assms(1) SstSource by auto
  have c: "cache_ok (fst ` set ts) w c" "cache_keys Q c"
    using assms(3) by (simp_all add: cache_good_def)
  have v: "si_valid it"
    using assms(2) SstSource by simp
  note N = sst_Next_table [OF held t(1) c(1) t(2) v n(1)]
  have st: "si_sst it = t" "si_sst it' = t"
    using t(2) N(1) by (simp_all add: it_ready_def it_at_def)
  have "cache_keys Q c'"
    using sst_Next_keys [OF c(2) _ n(1)] past t(1) st(1) by force
  then show ?thesis
    using N st n(2) SstSource t(1) table_entries [OF t(1)] by (auto simp: cache_good_def versions_def map_tl)
qed

lemma skip_loop_stream:
  "src_ok ts s src \<Longrightarrow> src_Valid src \<Longrightarrow> cache_good Q ts w c \<Longrightarrow> skip_loop u src c w = (src', c') \<Longrightarrow>
    src_ok ts s src' \<and> cache_good Q ts w c' \<and>
    src_stream ts s src' = dropWhile (\<lambda>kv. UserKey (fst kv) = u) (tl (src_stream ts s src))"
proof (induction src arbitrary: c rule: rank_induct)
  case (step src)
  obtain src1 c1 where n: "src_Next src c w = (src1, c1)"
    by (rule prod.exhaust)
  have N: "src_ok ts s src1" "src_stream ts s src1 = tl (src_stream ts s src)" "cache_good Q ts w c1"
    using src_Next_stream [OF step.prems(1-3) n] by blast+
  have V: "src_Valid src1 \<longleftrightarrow> src_stream ts s src1 \<noteq> []"
    "src_Valid src1 \<Longrightarrow> fst (hd (src_stream ts s src1)) = DecodeInternalKey (src_Key src1)"
    using src_stream_valid [OF N(1)] by simp_all
  show ?case
  proof (cases "src_Valid src1 \<and> UserKey (DecodeInternalKey (src_Key src1)) = u")
    case True
    then have "skip_loop u src1 c1 w = (src', c')"
      using step.prems(4) n by (simp add: skip_loop.simps [of u src])
    then have "src_ok ts s src' \<and> cache_good Q ts w c' \<and>
      src_stream ts s src' = dropWhile (\<lambda>kv. UserKey (fst kv) = u) (tl (src_stream ts s src1))"
      using step.IH [OF src_Next_rank [OF n] N(1) _ N(3)] True by blast
    moreover have "dropWhile (\<lambda>kv. UserKey (fst kv) = u) (src_stream ts s src1) =
        dropWhile (\<lambda>kv. UserKey (fst kv) = u) (tl (src_stream ts s src1))"
      using V True by (cases "src_stream ts s src1") auto
    ultimately show ?thesis
      using N(2) by simp
  next
    case False
    then have "src1 = src'" "c1 = c'"
      using step.prems(4) n by (auto simp: skip_loop.simps [of u src] split: if_splits)
    moreover have "dropWhile (\<lambda>kv. UserKey (fst kv) = u) (src_stream ts s src1) = src_stream ts s src1"
      using V False by (cases "src_stream ts s src1") auto
    ultimately show ?thesis
      using N by simp
  qed
qed

end

section \<open>Groups of versions\<close>

lemma dropWhile_least:
  fixes f :: "'a \<Rightarrow> 'b::linorder"
  assumes "sorted_wrt (\<lambda>a b. f a \<le> f b) xs" "\<forall>x \<in> set xs. u \<le> f x"
  shows "dropWhile (\<lambda>x. f x = u) xs = filter (\<lambda>x. f x \<noteq> u) xs"
  using assms
proof (induction xs)
  case (Cons x xs)
  have "filter (\<lambda>x. f x \<noteq> u) xs = xs" if "f x \<noteq> u"
    using Cons.prems that by (fastforce simp: filter_id_conv)
  then show ?case
    using Cons by auto
qed simp

lemma InternalKey_le_user: "a \<le> b \<Longrightarrow> UserKey a \<le> UserKey (b :: InternalKey)"
  by (auto simp: less_eq_InternalKey_def)

lemma stream_filter:
  assumes "sorted_wrt (<) (map fst r)" "r \<noteq> []" "UserKey (fst (hd r)) = u"
  shows "dropWhile (\<lambda>kv. UserKey (fst kv) = u) (tl r) = filter (\<lambda>kv. UserKey (fst kv) \<noteq> u) (r :: version list)"
proof -
  obtain kv r' where r: "r = kv # r'"
    using assms(2) by (cases r) auto
  have lt: "\<forall>x \<in> set r'. fst kv < fst x" "sorted_wrt (\<lambda>a b. fst a < fst b) r'"
    using assms(1) by (auto simp: r sorted_wrt_map)
  have "sorted_wrt (\<lambda>a b. UserKey (fst a) \<le> UserKey (fst b)) r'"
    by (rule sorted_wrt_mono_rel [OF _ lt(2)]) (simp add: InternalKey_le_user)
  moreover have "\<forall>x \<in> set r'. u \<le> UserKey (fst x)"
    using lt(1) assms(3) InternalKey_le_user by (auto simp: r)
  ultimately show ?thesis
    using dropWhile_least [of "\<lambda>kv. UserKey (fst kv)" r' u] assms(3) by (simp add: r)
qed

lemma contents_Nil [simp]: "contents ts s [] = {}"
  by (simp add: contents_def)

lemma set_heap_Push: "set (heap_Push lt x h) = insert x (set h)"
  by (metis heap_Push_mset set_mset_add_mset_insert set_mset_mset)

lemma contents_mset: "mset h = add_mset x (mset h') \<Longrightarrow> contents ts s h = set (src_stream ts s (it_src x)) \<union> contents ts s h'"
  by (drule arg_cong [where f = set_mset]) (simp add: contents_def)

lemma contents_Push [simp]:
  "contents ts s (heap_Push merge_Less x h) = set (src_stream ts s (it_src x)) \<union> contents ts s h"
  by (rule contents_mset) simp

lemma heap_fine_Push: "heap_fine ts s h \<Longrightarrow> item_fine ts s x \<Longrightarrow> heap_fine ts s (heap_Push merge_Less x h)"
  using merge_order.heap_Push_heap [of h x] by (simp add: heap_fine_def set_heap_Push)

lemma heap_fine_Pop:
  assumes "heap_fine ts s h" "h \<noteq> []" "heap_Pop merge_Less h = (x, h')"
  shows "heap_fine ts s h'" "item_fine ts s x" "contents ts s h = set (src_stream ts s (it_src x)) \<union> contents ts s h'"
    "x = h ! 0"
proof -
  note M = heap_Pop_mset [OF assms(2,3)]
  have "set h = insert x (set h')"
    using arg_cong [OF M(1), of set_mset] by simp
  then show "heap_fine ts s h'" "item_fine ts s x"
    using assms merge_order.heap_Pop_heap(1) [OF _ assms(2,3)] by (auto simp: heap_fine_def)
  show "contents ts s h = set (src_stream ts s (it_src x)) \<union> contents ts s h'" "x = h ! 0"
    using contents_mset [OF M(1)] M(2) by auto
qed

lemma merge_Less_key: "\<not> merge_Less b a \<Longrightarrow> DecodeInternalKey (it_key a) \<le> DecodeInternalKey (it_key b)"
  by (auto simp: merge_Less_def Let_def order_simps not_less split: if_splits)

context scan_tables_on_disk
begin

lemma item_stream:
  assumes "item_fine ts s x"
  obtains r where "src_stream ts s (it_src x) = (DecodeInternalKey (it_key x), src_Value (it_src x)) # r"
    "\<forall>kv \<in> set r. DecodeInternalKey (it_key x) < fst kv"
proof -
  have "src_stream ts s (it_src x) \<noteq> []" "hd (src_stream ts s (it_src x)) = (DecodeInternalKey (it_key x), src_Value (it_src x))"
    using assms src_stream_valid [of "it_src x"] by (simp_all add: item_fine_def)
  then show thesis
    using assms that by (cases "src_stream ts s (it_src x)") (auto simp: item_fine_def)
qed

lemma heap_root_least:
  assumes "heap_fine ts s h" "kv \<in> contents ts s h"
  shows "DecodeInternalKey (it_key (h ! 0)) \<le> fst kv"
proof -
  obtain x where x: "x \<in> set h" "kv \<in> set (src_stream ts s (it_src x))"
    using assms(2) by (auto simp: contents_def)
  then obtain k where "k < length h" "h ! k = x"
    by (auto simp: in_set_conv_nth)
  then have "\<not> merge_Less x (h ! 0)"
    using assms(1) merge_order.root_least by (auto simp: heap_fine_def)
  moreover have "DecodeInternalKey (it_key x) \<le> fst kv"
  proof (rule item_stream [of x])
    show "item_fine ts s x"
      using x(1) assms(1) by (simp add: heap_fine_def)
  qed (use x(2) in auto)
  ultimately show ?thesis
    using merge_Less_key [of x "h ! 0"] by (blast intro: order.trans)
qed

lemma skipPast_contents:
  assumes "heap_fine ts s h" "item_fine ts s x" "cache_good Q ts w c" "skipPast u x h c w = (h', c')"
    and "UserKey (DecodeInternalKey (it_key x)) = u"
  shows "heap_fine ts s h' \<and> cache_good Q ts w c' \<and>
    contents ts s h' = {kv \<in> set (src_stream ts s (it_src x)). UserKey (fst kv) \<noteq> u} \<union> contents ts s h"
proof -
  obtain src c1 where k: "skip_loop u (it_src x) c w = (src, c1)"
    by (rule prod.exhaust)
  have X: "src_ok ts s (it_src x)" "src_Valid (it_src x)" "sorted_wrt (<) (map fst (src_stream ts s (it_src x)))"
    using assms(2) by (simp_all add: item_fine_def)
  have S: "src_ok ts s src" "cache_good Q ts w c1"
    "src_stream ts s src = dropWhile (\<lambda>kv. UserKey (fst kv) = u) (tl (src_stream ts s (it_src x)))"
    using skip_loop_stream [OF X(1,2) assms(3) k] by blast+
  have st: "src_stream ts s src = filter (\<lambda>kv. UserKey (fst kv) \<noteq> u) (src_stream ts s (it_src x))"
    unfolding S(3) by (rule stream_filter [OF X(3)]) (use item_stream [OF assms(2)] assms(5) in \<open>force+\<close>)
  have "sorted_wrt (<) (map fst (src_stream ts s src))"
    unfolding st using X(3) by (simp add: sorted_wrt_map sorted_wrt_filter)
  then have "src_Valid src \<Longrightarrow> item_fine ts s \<lparr>it_key = src_Key src, it_priority = it_priority x, it_src = src\<rparr>"
    using S(1) by (simp add: item_fine_def)
  moreover have "\<not> src_Valid src \<Longrightarrow> src_stream ts s src = []"
    using src_stream_valid(1) [OF S(1)] by simp
  moreover have "set (src_stream ts s src) = {kv \<in> set (src_stream ts s (it_src x)). UserKey (fst kv) \<noteq> u}"
    by (simp add: st)
  ultimately show ?thesis
    using assms(1,4) k S(2) heap_fine_Push [of ts s h] by (cases "src_Valid src") (auto simp: skipPast_def)
qed

end

section \<open>The loop over a scan\<close>

lemma heap_induct [case_names step]:
  assumes "\<And>h. (\<And>h'. (heap_rank h', heap_rank h) \<in> mult rank_less \<Longrightarrow> P h') \<Longrightarrow> P h"
  shows "P h"
  using wf_inv_image [OF wf_rank, of heap_rank] by (induction h rule: wf_induct_rule) (rule assms, simp)

lemma live_in_part: "live_in {kv \<in> C. R (UserKey (fst kv))} u v \<longleftrightarrow> R u \<and> live_in C u v"
proof (cases "R u")
  case True
  then have "(\<forall>kv' \<in> {kv \<in> C. R (UserKey (fst kv))}. UserKey (fst kv') = u \<longrightarrow> k \<le> fst kv') \<longleftrightarrow>
      (\<forall>kv' \<in> C. UserKey (fst kv') = u \<longrightarrow> k \<le> fst kv')" for k
    by blast
  then show ?thesis
    unfolding live_in_def by (simp only:) (use True in blast)
next
  case False
  then show ?thesis
    unfolding live_in_def by blast
qed

lemma live_in_first:
  assumes "kv \<in> C" "\<forall>kv' \<in> C. fst kv \<le> fst kv'" "\<And>x y. x \<in> C \<Longrightarrow> y \<in> C \<Longrightarrow> fst x = fst y \<Longrightarrow> x = y"
  shows "live_in C (UserKey (fst kv)) v \<longleftrightarrow> key_Kind (fst kv) \<noteq> InternalKeyKindDelete \<and> v = snd kv"
proof
  assume "live_in C (UserKey (fst kv)) v"
  then obtain kv' where k: "kv' \<in> C" "snd kv' = v" "key_Kind (fst kv') \<noteq> InternalKeyKindDelete" "fst kv' \<le> fst kv"
    using assms(1) by (auto simp: live_in_def)
  then have "kv' = kv"
    using assms by (metis order.antisym)
  then show "key_Kind (fst kv) \<noteq> InternalKeyKindDelete \<and> v = snd kv"
    using k by simp
next
  assume "key_Kind (fst kv) \<noteq> InternalKeyKindDelete \<and> v = snd kv"
  then show "live_in C (UserKey (fst kv)) v"
    using assms(1,2) by (auto simp: live_in_def)
qed

lemma live_in_least:
  assumes "live_in C u v" "\<forall>kv' \<in> C. k \<le> fst kv'"
  shows "UserKey k \<le> u"
  using assms InternalKey_le_user by (auto simp: live_in_def)

context scan_tables_on_disk
begin

lemma root_contents:
  assumes "heap_fine ts s h" "h \<noteq> []"
  shows "(DecodeInternalKey (it_key (h ! 0)), src_Value (it_src (h ! 0))) \<in> contents ts s h"
proof (rule item_stream [of "h ! 0"])
  show "item_fine ts s (h ! 0)"
    using assms by (simp add: heap_fine_def)
  fix r assume "src_stream ts s (it_src (h ! 0)) = (DecodeInternalKey (it_key (h ! 0)), src_Value (it_src (h ! 0))) # r"
  then show ?thesis
    using assms(2) by (force simp: contents_def intro!: bexI [of _ "h ! 0"])
qed

lemma drop_versions_contents:
  "heap_fine ts s h \<Longrightarrow> cache_good Q ts w c \<Longrightarrow> (\<forall>kv \<in> contents ts s h. u \<le> UserKey (fst kv)) \<Longrightarrow>
    drop_versions u h c w = (h', c') \<Longrightarrow>
    heap_fine ts s h' \<and> cache_good Q ts w c' \<and> contents ts s h' = {kv \<in> contents ts s h. UserKey (fst kv) \<noteq> u}"
proof (induction h arbitrary: c rule: heap_induct)
  case (step h)
  let ?k = "DecodeInternalKey (it_key (h ! 0))"
  show ?case
  proof (cases "h \<noteq> [] \<and> UserKey ?k = u")
    case True
    obtain x h1 where p: "heap_Pop merge_Less h = (x, h1)"
      by (rule prod.exhaust)
    obtain h2 c2 where k: "skipPast u x h1 c w = (h2, c2)"
      by (rule prod.exhaust)
    have ne: "h \<noteq> []"
      using True by simp
    note P = heap_fine_Pop [OF step.prems(1) ne p]
    have S: "heap_fine ts s h2" "cache_good Q ts w c2"
      "contents ts s h2 = {kv \<in> set (src_stream ts s (it_src x)). UserKey (fst kv) \<noteq> u} \<union> contents ts s h1"
      using skipPast_contents [OF P(1,2) step.prems(2) k] P(4) True by simp_all
    have "drop_versions u h2 c2 w = (h', c')"
      using step.prems(4) True p k by (simp add: drop_versions.simps [of u h])
    moreover have "\<forall>kv \<in> contents ts s h2. u \<le> UserKey (fst kv)"
      using step.prems(3) S(3) P(3) by auto
    ultimately have "heap_fine ts s h' \<and> cache_good Q ts w c' \<and> contents ts s h' = {kv \<in> contents ts s h2. UserKey (fst kv) \<noteq> u}"
      using step.IH [OF pop_skip_rank [OF ne p k] S(1,2)] by blast
    then show ?thesis
      using S(3) P(3) by auto
  next
    case False
    then have "h' = h" "c' = c"
      using step.prems(4) by (auto simp: drop_versions.simps [of u h])
    moreover have "UserKey (fst kv) \<noteq> u" if "kv \<in> contents ts s h" for kv
    proof -
      have "h \<noteq> []"
        using that by auto
      then have "UserKey ?k \<noteq> u" "u \<le> UserKey ?k"
        using False root_contents [OF step.prems(1)] step.prems(3) by fastforce+
      moreover have "UserKey ?k \<le> UserKey (fst kv)"
        by (rule InternalKey_le_user [OF heap_root_least [OF step.prems(1) that]])
      ultimately show ?thesis by auto
    qed
    ultimately show ?thesis
      using step.prems(1,2) by auto
  qed
qed

lemma take_group_contents:
  assumes "heap_fine ts s h" "h \<noteq> []" "cache_good Q ts w c" "take_group h c w = (x, h', c')"
  defines "kv \<equiv> (DecodeInternalKey (it_key x), src_Value (it_src x))"
  shows "heap_fine ts s h'" "cache_good Q ts w c'" "kv \<in> contents ts s h" "\<forall>kv' \<in> contents ts s h. fst kv \<le> fst kv'"
    "contents ts s h' = {kv' \<in> contents ts s h. UserKey (fst kv') \<noteq> UserKey (fst kv)}"
proof -
  let ?u = "UserKey (DecodeInternalKey (it_key x))"
  obtain h1 h2 c2 where p: "heap_Pop merge_Less h = (x, h1)" and k: "skipPast ?u x h1 c w = (h2, c2)"
    and d: "drop_versions ?u h2 c2 w = (h', c')"
    using assms(4) by (auto simp: take_group_def Let_def split: prod.splits)
  note P = heap_fine_Pop [OF assms(1,2) p]
  note S = skipPast_contents [OF P(1,2) assms(3) k refl]
  show kv: "kv \<in> contents ts s h"
    using root_contents [OF assms(1,2)] P(4) by (simp add: kv_def)
  show least: "\<forall>kv' \<in> contents ts s h. fst kv \<le> fst kv'"
    using heap_root_least [OF assms(1)] P(4) by (simp add: kv_def)
  then have "\<forall>kv' \<in> contents ts s h2. ?u \<le> UserKey (fst kv')"
    using S P(3) InternalKey_le_user by (auto simp: kv_def)
  note D = drop_versions_contents [of h2 c2 ?u h' c', OF _ _ this d]
  show "heap_fine ts s h'" "cache_good Q ts w c'"
    "contents ts s h' = {kv' \<in> contents ts s h. UserKey (fst kv') \<noteq> UserKey (fst kv)}"
    using D S P(3) by (auto simp: kv_def)
qed

end

text \<open>A key determines its version.\<close>

definition keyed :: "version set \<Rightarrow> bool" where
  "keyed C \<longleftrightarrow> (\<forall>x \<in> C. \<forall>y \<in> C. fst x = fst y \<longrightarrow> x = y)"

text \<open>What one call of \<^verbatim>\<open>Next\<close> does to the versions \<open>C\<close> that are left.\<close>

definition stepped :: "version set \<Rightarrow> bytes option \<Rightarrow> bool \<Rightarrow> MergeIterator \<Rightarrow> version set \<Rightarrow> bool" where
  "stepped C upper b m' C' \<longleftrightarrow>
     (if b
      then m_upperBound m' = upper \<and> live_in C (m_key m') (m_val m') \<and> below upper (m_key m') \<and>
           C' = {kv \<in> C. m_key m' < UserKey (fst kv)} \<and> (\<forall>u v. live_in C u v \<longrightarrow> m_key m' \<le> u)
      else \<forall>u v. live_in C u v \<longrightarrow> \<not> below upper u)"

lemma stepped_skip:
  assumes "stepped {kv \<in> C. UserKey (fst kv) \<noteq> u0} upper b m' C'" "\<forall>kv \<in> C. u0 \<le> UserKey (fst kv)" "\<And>v. \<not> live_in C u0 v"
  shows "stepped C upper b m' C'"
proof -
  have L: "live_in {kv \<in> C. UserKey (fst kv) \<noteq> u0} u v \<longleftrightarrow> live_in C u v" for u v
    using live_in_part [of C "\<lambda>x. x \<noteq> u0" u v] assms(3) by auto
  have "m_key m' < UserKey (fst kv) \<Longrightarrow> UserKey (fst kv) \<noteq> u0" if "kv \<in> C" "live_in C (m_key m') v" for kv v
    using that assms(2) by (auto simp: live_in_def not_less)
  then show ?thesis
    using assms(1) unfolding stepped_def L by (auto split: if_splits)
qed

lemma below_mono: "below upper u \<Longrightarrow> u' \<le> u \<Longrightarrow> below upper u'"
  by (auto simp: below_def split: option.splits)

context scan_tables_on_disk
begin

lemma merge_Next_spec:
  "m_h m = h \<Longrightarrow> heap_fine ts s h \<Longrightarrow> cache_good Q ts w c \<Longrightarrow> keyed (contents ts s h) \<Longrightarrow>
    merge_Next m c w = ((b, m'), c') \<Longrightarrow>
    cache_good Q ts w c' \<and> (b \<longrightarrow> heap_fine ts s (m_h m')) \<and>
    stepped (contents ts s h) (m_upperBound m) b m' (contents ts s (m_h m'))"
proof (induction h arbitrary: m c rule: heap_induct)
  case (step h)
  let ?C = "contents ts s h"
  show ?case
  proof (cases "h = []")
    case True
    then show ?thesis
      using step.prems by (auto simp: merge_Next.simps [of m] stepped_def live_in_def)
  next
    case ne: False
    obtain x h1 c1 where g: "take_group h c w = (x, h1, c1)"
      by (rule prod_cases3)
    note G = take_group_contents [OF step.prems(2) ne step.prems(3) g]
    let ?k = "DecodeInternalKey (it_key x)"
    let ?m1 = "m\<lparr>m_h := h1\<rparr>"
    have least: "\<forall>kv \<in> ?C. UserKey ?k \<le> UserKey (fst kv)"
      using G(4) InternalKey_le_user by auto
    have live: "live_in ?C (UserKey ?k) v \<longleftrightarrow> key_Kind ?k \<noteq> InternalKeyKindDelete \<and> v = src_Value (it_src x)" for v
      using live_in_first [OF G(3,4)] step.prems(4) by (simp add: keyed_def)
    have first: "UserKey ?k \<le> u" if "live_in ?C u v" for u v
      using live_in_least [OF that G(4)] by simp
    have up: "(case m_upperBound m of None \<Rightarrow> False | Some y \<Rightarrow> bytes_Compare (UserKey ?k) y > 0) \<longleftrightarrow>
        \<not> below (m_upperBound m) (UserKey ?k)"
      by (auto simp: below_def order_simps split: option.splits)
    consider "\<not> below (m_upperBound m) (UserKey ?k)"
      | "below (m_upperBound m) (UserKey ?k)" "key_Kind ?k = InternalKeyKindDelete"
      | "below (m_upperBound m) (UserKey ?k)" "key_Kind ?k \<noteq> InternalKeyKindDelete"
      by blast
    then show ?thesis
    proof cases
      case 1
      then have "b = False" "c' = c1"
        using step.prems(1,5) ne g up by (auto simp: merge_Next.simps [of m] Let_def)
      moreover have "\<not> below (m_upperBound m) u" if "live_in ?C u v" for u v
        using 1 first [OF that] below_mono by blast
      ultimately show ?thesis
        using G(2) by (auto simp: stepped_def)
    next
      case 2
      then have n: "merge_Next ?m1 c1 w = ((b, m'), c')"
        using step.prems(1,5) ne g up by (simp add: merge_Next.simps [of m] Let_def)
      have "keyed (contents ts s h1)"
        using step.prems(4) unfolding G(5) keyed_def by blast
      then have "cache_good Q ts w c' \<and> (b \<longrightarrow> heap_fine ts s (m_h m')) \<and>
        stepped (contents ts s h1) (m_upperBound m) b m' (contents ts s (m_h m'))"
        using step.IH [OF take_group_rank [OF ne g] _ G(1,2) _ n] by simp
      then show ?thesis
        using stepped_skip [OF _ least] live 2(2) unfolding G(5) by auto
    next
      case 3
      then have m': "b = True" "m' = ?m1\<lparr>m_key := UserKey ?k, m_val := src_Value (it_src x), m_valid := True\<rparr>" "c' = c1"
        using step.prems(1,5) ne g up by (auto simp: merge_Next.simps [of m] Let_def)
      have "contents ts s h1 = {kv \<in> ?C. UserKey ?k < UserKey (fst kv)}"
        unfolding G(5) using least by (auto simp: less_le)
      then show ?thesis
        using G(1,2) live 3 first unfolding m' by (auto simp: stepped_def)
    qed
  qed
qed

lemma merge_collect_spec:
  "m_h m = h \<Longrightarrow> heap_fine ts s h \<Longrightarrow> cache_good Q ts w c \<Longrightarrow> keyed (contents ts s h) \<Longrightarrow>
    merge_collect m c w = (xs, c') \<Longrightarrow>
    cache_good Q ts w c' \<and> sorted_wrt (\<lambda>a b. fst a < fst b) xs \<and>
    set xs = {(u, v). live_in (contents ts s h) u v \<and> below (m_upperBound m) u}"
proof (induction h arbitrary: m c xs c' rule: heap_induct)
  case (step h)
  let ?C = "contents ts s h"
  obtain b m1 c1 where n: "merge_Next m c w = ((b, m1), c1)"
    by (metis surj_pair)
  note N = merge_Next_spec [OF step.prems(1-4) n]
  show ?case
  proof (cases b)
    case False
    then have "xs = []" "c' = c1"
      using step.prems(5) n by (auto simp: merge_collect.simps [of m])
    then show ?thesis
      using N False by (auto simp: stepped_def)
  next
    case True
    then have "merge_Next m c w = ((True, m1), c1)"
      using n by simp
    note rank = merge_Next_rank [OF this, unfolded step.prems(1)]
    obtain ys c2 where r: "merge_collect m1 c1 w = (ys, c2)"
      by (rule prod.exhaust)
    have xs: "xs = (m_key m1, m_val m1) # ys" "c' = c2"
      using step.prems(5) n r True by (auto simp: merge_collect.simps [of m] merge_Key_def merge_Value_def)
    have S: "m_upperBound m1 = m_upperBound m" "live_in ?C (m_key m1) (m_val m1)" "below (m_upperBound m) (m_key m1)"
      "contents ts s (m_h m1) = {kv \<in> ?C. m_key m1 < UserKey (fst kv)}" "\<And>u v. live_in ?C u v \<Longrightarrow> m_key m1 \<le> u"
      using N True by (auto simp: stepped_def)
    have "keyed (contents ts s (m_h m1))"
      using step.prems(4) unfolding S(4) keyed_def by blast
    then have R: "cache_good Q ts w c2" "sorted_wrt (\<lambda>a b. fst a < fst b) ys"
      "set ys = {(u, v). live_in {kv \<in> ?C. m_key m1 < UserKey (fst kv)} u v \<and> below (m_upperBound m) u}"
      using step.IH [OF rank refl _ _ _ r] N True S(1) unfolding S(4) [symmetric]
      by simp_all
    have L: "live_in {kv \<in> ?C. m_key m1 < UserKey (fst kv)} u v \<longleftrightarrow> live_in ?C u v \<and> m_key m1 < u" for u v
      using live_in_part [of ?C "\<lambda>x. m_key m1 < x" u v] by blast
    have F: "live_in ?C (m_key m1) v \<longleftrightarrow> v = m_val m1" for v
      using S(2) step.prems(4) by (auto simp: live_in_def keyed_def) (metis fst_conv order.antisym snd_conv)
    have "(live_in ?C u v \<and> below (m_upperBound m) u) \<longleftrightarrow>
        u = m_key m1 \<and> v = m_val m1 \<or> (live_in ?C u v \<and> m_key m1 < u) \<and> below (m_upperBound m) u" for u v
      using F [of v] S(3) S(5) [of u v] by (cases "u = m_key m1") (auto simp: less_le)
    then show ?thesis
      using R unfolding xs L by auto
  qed
qed

end

section \<open>Opening a scan\<close>

lemma sorted_filtered_keys: "sorted_versions kvs \<Longrightarrow> sorted_wrt (<) (map fst (filter P kvs))"
  by (simp add: sorted_versions_def sorted_wrt_map sorted_wrt_filter)

lemma merge_heap_Nil: "heap_fine ts s []"
  by (simp add: heap_fine_def is_heap_def)

context scan_tables_on_disk
begin

lemma open_source:
  assumes "(t, es) \<in> set ts" "cache_good Q ts w c" "s \<le> SeqNumMax" "sst_NewIterator t lower s c w = (r, c')"
  shows "\<exists>it. r = Inr it \<and> src_ok ts s (SstSource it) \<and> cache_good Q ts w c' \<and>
    src_stream ts s (SstSource it) = filter (in_range lower None s) (versions es)"
proof -
  have C: "cache_ok (fst ` set ts) w c" "cache_keys Q c"
    using assms(2) by (simp_all add: cache_good_def)
  obtain it where I: "r = Inr it" "it_at t s (chunk [] es) it" "cache_ok (fst ` set ts) w c'"
    "remaining (chunk [] es) it = dropWhile (\<lambda>e. \<not> Visible (dkey e) s) (dropWhile (\<lambda>e. dkey e < MakeSearchKeyAt lower s) es)"
    using sst_NewIterator_table [OF held assms(1) C(1) assms(4)] by blast
  have sorted: "sorted_versions (versions es)"
    using held assms(1) by (auto simp: tables_hold_def list_all_iff table_holds_def)
  note R = it_ready_dropWhile [OF I(2,4)]
  have "versions (sst_stream s (chunk [] es) it) = filter (in_range lower None s) (versions es)"
    using seek_range [OF sorted assms(3), where upper = None and lower = lower] unfolding R(2)
    by (simp add: versions_def filter_map dropWhile_map comp_def entry_version_def below_def takeWhile_eq_all_conv [THEN iffD2])
  moreover have "si_sst it = t"
    using I(2) by (simp add: it_at_def)
  moreover have "cache_keys Q c'"
    using sst_NewIterator_keys [OF C(2) _ assms(4)] past assms(1) by force
  ultimately show ?thesis
    using I(1,3) R(1) assms(1) table_entries [OF assms(1)] by (auto simp: cache_good_def)
qed

lemma scan_tables_contents:
  assumes "set sub \<subseteq> set ts" "s \<le> SeqNumMax"
  shows "heap_fine ts s h \<Longrightarrow> cache_good Q ts w c \<Longrightarrow> scan_tables (map fst sub) i lower s h c w = (r, c') \<Longrightarrow>
    \<exists>h'. r = Inr h' \<and> heap_fine ts s h' \<and> cache_good Q ts w c' \<and>
      contents ts s h' = contents ts s h \<union> {kv \<in> set (table_versions sub). in_range lower None s kv}"
  using assms(1)
proof (induction sub arbitrary: i h c)
  case Nil
  then show ?case by auto
next
  case (Cons x sub)
  obtain t es where x: "x = (t, es)"
    by (rule prod.exhaust)
  obtain r1 c1 where n: "sst_NewIterator t lower s c w = (r1, c1)"
    by (rule prod.exhaust)
  have t: "(t, es) \<in> set ts"
    using Cons.prems(4) x by simp
  obtain it where I: "r1 = Inr it" "src_ok ts s (SstSource it)" "cache_good Q ts w c1"
    "src_stream ts s (SstSource it) = filter (in_range lower None s) (versions es)"
    using open_source [OF t Cons.prems(2) assms(2) n] by blast
  let ?x = "\<lparr>it_key = sst_Key it, it_priority = i + 1, it_src = SstSource it\<rparr>"
  let ?h = "if si_valid it then heap_Push merge_Less ?x h else h"
  have "sorted_versions (versions es)"
    using held t by (auto simp: tables_hold_def list_all_iff table_holds_def)
  then have "si_valid it \<Longrightarrow> item_fine ts s ?x"
    using I(2) sorted_filtered_keys [of "versions es" "in_range lower None s"] unfolding item_fine_def I(4) [symmetric] by simp
  then have fine: "heap_fine ts s ?h"
    using Cons.prems(1) heap_fine_Push by auto
  have "\<not> si_valid it \<Longrightarrow> src_stream ts s (SstSource it) = []"
    using src_stream_valid(1) [OF I(2)] by simp
  then have cont: "contents ts s ?h = contents ts s h \<union> {kv \<in> set (versions es). in_range lower None s kv}"
    using arg_cong [OF I(4), of set] by (auto simp del: src_stream.simps)
  have "scan_tables (map fst sub) (i + 1) lower s ?h c1 w = (r, c')"
    using Cons.prems(3) n I(1) by (simp add: x)
  from Cons.IH [OF fine I(3) this] show ?case
    using Cons.prems(4) unfolding cont by (auto simp: x)
qed

end

section \<open>Scans of a database\<close>

text \<open>A scan by a client: open it and collect until \<^verbatim>\<open>Next\<close> returns false.\<close>

definition scan_all ::
  "'t btree \<Rightarrow> bytes \<Rightarrow> bytes option \<Rightarrow> SeqNum \<Rightarrow> 't DB \<Rightarrow> world \<Rightarrow> (go_error + (bytes \<times> bytes) list) \<times> 't DB" where
  "scan_all bt lower upper s db w =
     (case ScanAt bt lower upper s db w of
        (Inl e, db') \<Rightarrow> (Inl e, db')
      | (Inr m, db') \<Rightarrow> (case merge_collect m (db_blockCache db') w of (xs, c) \<Rightarrow> (Inr xs, db'\<lparr>db_blockCache := c\<rparr>)))"

text \<open>The keys of a map in a range, in order, with their values.\<close>

definition map_range :: "bytes \<Rightarrow> bytes option \<Rightarrow> (gostring \<rightharpoonup> bytes) \<Rightarrow> (bytes \<times> bytes) list" where
  "map_range lower upper m = map (\<lambda>u. (u, the (m u))) (sorted_list_of_set {u \<in> dom m. lower \<le> u \<and> below upper u})"

lemma finite_kv_store: "finite (dom (kv_store H))"
  by (induction H rule: rev_induct) (simp_all add: kv_store_snoc kv_write_def, simp add: kv_store_def)

lemma sorted_pairs_unique:
  fixes xs ys :: "(bytes \<times> bytes) list"
  assumes "sorted_wrt (\<lambda>a b. fst a < fst b) xs" "sorted_wrt (\<lambda>a b. fst a < fst b) ys" "set xs = set ys"
  shows "xs = ys"
proof -
  have S: "sorted_wrt (<) (map fst xs)" "sorted_wrt (<) (map fst ys)"
    using assms(1,2) by (simp_all add: sorted_wrt_map)
  then have D: "distinct (map fst xs)" "distinct (map fst ys)" "sorted (map fst xs)" "sorted (map fst ys)"
    by (simp_all add: strict_sorted_iff)
  show ?thesis
    by (rule map_sorted_distinct_set_unique [where f = fst]) (use D assms(3) in \<open>simp_all add: distinct_map\<close>)
qed

lemma map_range_eq:
  assumes "finite (dom m)" "sorted_wrt (\<lambda>a b. fst a < fst b) xs"
    and "set xs = {(u, v). lower \<le> u \<and> below upper u \<and> m u = Some v}"
  shows "xs = map_range lower upper m"
proof (rule sorted_pairs_unique [OF assms(2)])
  have "finite {u \<in> dom m. lower \<le> u \<and> below upper u}"
    using assms(1) by simp
  then show "set xs = set (map_range lower upper m)"
    unfolding assms(3) map_range_def by auto
  show "sorted_wrt (\<lambda>a b. fst a < fst b) (map_range lower upper m)"
    unfolding map_range_def sorted_wrt_map by simp
qed

text \<open>The versions a scan starts with determine the map in the range.\<close>

lemma scan_versions:
  assumes "hist_ok n (F @ E)" "set M = set E" "set T \<subseteq> set F" "newest u s T = newest u s F" "below upper u"
    and C: "C = {kv \<in> set M. in_range lower upper s kv} \<union> {kv \<in> set T. in_range lower None s kv}"
  shows "live_in C u v \<longleftrightarrow> lower \<le> u \<and> kv_store (writes_until s (F @ E)) u = Some v"
proof -
  have sub: "kv \<in> set (F @ E)" if "kv \<in> C" for kv
    using that assms(2,3) C by auto
  have mem: "kv \<in> C \<longleftrightarrow> (kv \<in> set E \<or> kv \<in> set T) \<and> lower \<le> u \<and> matches u s kv" if "UserKey (fst kv) = u" for kv
    using that assms(2,5) by (auto simp: C in_range_def below_def matches_def)
  have least: "kv \<in> C \<Longrightarrow> lower \<le> u \<and> (\<exists>k. newest u s (F @ E) = Some k \<and> fst k \<le> fst kv)" if "UserKey (fst kv) = u" for kv
    using mem [OF that] sub newest_None_iff [of u s "F @ E"] newest_Some(3) [of u s "F @ E"] by (cases "newest u s (F @ E)") auto
  have get: "hist_get u s (F @ E) = (v, True) \<longleftrightarrow>
      (\<exists>k. newest u s (F @ E) = Some k \<and> key_Kind (fst k) \<noteq> InternalKeyKindDelete \<and> snd k = v)"
    by (auto simp: hist_get_def lookup_spec_def answer_def found_def split: option.splits if_splits)
  have inC: "k \<in> C" if k: "newest u s (F @ E) = Some k" and l: "lower \<le> u" for k
  proof -
    have "k \<in> set E \<or> newest u s F = Some k"
      using newest_split [OF assms(1), of u s] newest_Some(1) [of u s E] k by (auto split: option.splits)
    then have "k \<in> set E \<or> k \<in> set T"
      using newest_Some(1) [of u s T k] assms(4) by auto
    moreover have "matches u s k"
      by (rule newest_Some(2) [OF k])
    ultimately show ?thesis
      using mem [of k] l by (simp add: matches_def)
  qed
  have "live_in C u v \<longleftrightarrow> lower \<le> u \<and> hist_get u s (F @ E) = (v, True)"
  proof
    assume "live_in C u v"
    then obtain kv where kv: "kv \<in> C" "UserKey (fst kv) = u" "snd kv = v" "key_Kind (fst kv) \<noteq> InternalKeyKindDelete"
      "\<forall>kv' \<in> C. UserKey (fst kv') = u \<longrightarrow> fst kv \<le> fst kv'"
      unfolding live_in_def by blast
    obtain k where k: "newest u s (F @ E) = Some k" "fst k \<le> fst kv" and l: "lower \<le> u"
      using least [OF kv(2,1)] by blast
    have "UserKey (fst k) = u"
      using newest_Some(2) [OF k(1)] by (simp add: matches_def)
    then have "fst k = fst kv"
      using kv(5) inC [OF k(1) l] k(2) by (metis order.antisym)
    then have "k = kv"
      using hist_ok_fun [OF assms(1) newest_Some(1) [OF k(1)] sub [OF kv(1)]] by simp
    then show "lower \<le> u \<and> hist_get u s (F @ E) = (v, True)"
      using get k(1) kv(3,4) l by auto
  next
    assume r: "lower \<le> u \<and> hist_get u s (F @ E) = (v, True)"
    then obtain k where k: "newest u s (F @ E) = Some k" "key_Kind (fst k) \<noteq> InternalKeyKindDelete" "snd k = v"
      using get by auto
    have "UserKey (fst k) = u"
      using newest_Some(2) [OF k(1)] by (simp add: matches_def)
    then show "live_in C u v"
      unfolding live_in_def using inC [OF k(1)] r k least by (metis option.inject)
  qed
  then show ?thesis
    by (simp add: hist_get_store [OF assms(1)] kv_get_def split: option.splits)
qed

lemma db_scan_tables:
  assumes "env_ok db w" "tables_for db F ts w"
  shows "scan_tables_on_disk w ts (past_key (SSTDir (db_conf db)) w)"
  using assms(2) tables_past [OF assms] by (simp add: scan_tables_on_disk_def tables_for_def)

context google_btree
begin

text \<open>The memtable's part of the heap.\<close>

lemma mem_heap:
  fixes lower :: bytes and upper :: "bytes option"
  assumes "mt_inv bt ok mt" "s \<le> SeqNumMax"
  defines "it \<equiv> mem_NewIterator bt mt lower upper s"
  defines "h \<equiv> if mem_Valid it then heap_Push merge_Less \<lparr>it_key = mem_Key it, it_priority = 0, it_src = MemSource it\<rparr> [] else []"
  shows "heap_fine ts s h" "contents ts s h = {kv \<in> set (mt_versions bt mt). in_range lower upper s kv}"
proof -
  have st: "src_stream ts s (MemSource it) = filter (in_range lower upper s) (mt_versions bt mt)"
    using mem_NewIterator_spec [OF assms(1,2), of lower upper] by (simp add: it_def) (simp add: mem_NewIterator_def Let_def)
  have "mem_Valid it \<longleftrightarrow> src_stream ts s (MemSource it) \<noteq> []"
    by (auto simp: mem_Valid_def)
  moreover have "mem_Valid it \<Longrightarrow> item_fine ts s \<lparr>it_key = mem_Key it, it_priority = 0, it_src = MemSource it\<rparr>"
    using sorted_filtered_keys [OF sorted_mt_versions [OF assms(1)], of "in_range lower upper s"]
    unfolding item_fine_def st [symmetric] by simp
  ultimately show "heap_fine ts s h" "contents ts s h = {kv \<in> set (mt_versions bt mt). in_range lower upper s kv}"
    using heap_fine_Push [OF merge_heap_Nil] arg_cong [OF st, of set]
    by (auto simp: h_def merge_heap_Nil simp del: src_stream.simps)
qed

lemma scan_all_correct:
  assumes "db_inv bt ok F es db w" "live db s"
  shows "\<exists>c. scan_all bt lower upper s db w =
      (Inr (map_range lower upper (kv_store (writes_until s (F @ map ent_version es)))), db\<lparr>db_blockCache := c\<rparr>) \<and>
    db_inv bt ok F es (db\<lparr>db_blockCache := c\<rparr>) w"
proof -
  let ?E = "map ent_version es" and ?Q = "past_key (SSTDir (db_conf db)) w"
  obtain ts where ts: "tables_for db F ts w"
    using assms(1) by (auto simp: db_inv_def)
  have P: "mem_for bt ok es db" "hist_ok (db_seqNum db) (F @ ?E)" "env_ok db w" "cache_fine db w"
    using assms(1) by (simp_all add: db_inv_def)
  have T: "db_sstables db = map fst ts" "set (table_versions ts) \<subseteq> set F" "\<And>u. newest u s (table_versions ts) = newest u s F"
    using ts assms(2) by (simp_all add: tables_for_def)
  have s: "s \<le> SeqNumMax"
    using assms(2) by (simp add: live_def)
  note loc = db_scan_tables [OF P(3) ts]
  have c0: "cache_good ?Q ts w (db_blockCache db)"
    using P(4) T(1) by (simp add: cache_good_def cache_fine_def)
  have mt: "mt_inv bt ok (db_memtable db)" "set (mt_versions bt (db_memtable db)) = set ?E"
    using P(1) by (simp_all add: mem_for_def)
  let ?it = "mem_NewIterator bt (db_memtable db) lower upper s"
  let ?h = "if mem_Valid ?it then heap_Push merge_Less \<lparr>it_key = mem_Key ?it, it_priority = 0, it_src = MemSource ?it\<rparr> [] else []"
  note M = mem_heap [OF mt(1) s, where ts = ts and lower = lower and upper = upper]
  obtain r c1 where sc: "scan_tables (map fst ts) 0 lower s ?h (db_blockCache db) w = (r, c1)"
    by (rule prod.exhaust)
  obtain h where H: "r = Inr h" "heap_fine ts s h" "cache_good ?Q ts w c1"
    "contents ts s h = contents ts s ?h \<union> {kv \<in> set (table_versions ts). in_range lower None s kv}"
    using scan_tables_on_disk.scan_tables_contents [OF loc subset_refl s M(1) c0 sc] by blast
  let ?m = "\<lparr>m_h = h, m_upperBound = upper, m_key = [], m_val = [], m_valid = False\<rparr>"
  have opn: "ScanAt bt lower upper s db w = (Inr ?m, db\<lparr>db_blockCache := c1\<rparr>)"
    using sc H(1) T(1) by (simp add: ScanAt_def Let_def)
  have C: "contents ts s h = {kv \<in> set (mt_versions bt (db_memtable db)). in_range lower upper s kv} \<union>
      {kv \<in> set (table_versions ts). in_range lower None s kv}"
    unfolding H(4) M(2) ..
  have "contents ts s h \<subseteq> set (F @ ?E)"
    unfolding C using mt(2) T(2) by auto
  then have keyed: "keyed (contents ts s h)"
    unfolding keyed_def using hist_ok_fun [OF P(2)] by blast
  obtain xs c2 where col: "merge_collect ?m c1 w = (xs, c2)"
    by (rule prod.exhaust)
  have X: "cache_good ?Q ts w c2" "sorted_wrt (\<lambda>a b. fst a < fst b) xs" "set xs = {(u, v). live_in (contents ts s h) u v \<and> below upper u}"
    using scan_tables_on_disk.merge_collect_spec [OF loc, of ?m h s c1 xs c2] H(2,3) keyed col by simp_all
  let ?S = "kv_store (writes_until s (F @ ?E))"
  have "set xs = {(u, v). lower \<le> u \<and> below upper u \<and> ?S u = Some v}"
    unfolding X(3) using scan_versions [OF P(2) mt(2) T(2,3) _ C] by blast
  then have xs: "xs = map_range lower upper ?S"
    by (rule map_range_eq [OF finite_kv_store X(2)])
  have "db_inv bt ok F es (db\<lparr>db_blockCache := c2\<rparr>) w"
    using assms(1) X(1) T(1) unfolding db_inv_def tables_for_def mem_for_def log_for_def env_ok_def cache_fine_def pins_ok_def live_def cache_good_def
    by simp
  then show ?thesis
    using opn col xs by (auto simp: scan_all_def)
qed

end

interpretation four_tables: scan_tables_on_disk
  "four_world [version_entry [7] 4 [1], version_entry [8] 3 [2], version_entry [7] 2 [3], version_entry [9] 1 [4]]"
  "four [version_entry [7] 4 [1], version_entry [8] 3 [2], version_entry [7] 2 [3], version_entry [9] 1 [4]]" SeqNumMax "\<lambda>_. True"
proof
  show "tables_hold (four_world [version_entry [7] 4 [1], version_entry [8] 3 [2], version_entry [7] 2 [3], version_entry [9] 1 [4]])
    (four [version_entry [7] 4 [1], version_entry [8] 3 [2], version_entry [7] 2 [3], version_entry [9] 1 [4]])"
    by (rule four_holds) (simp add: four_simps entry_size_def)
qed (simp add: table_keys_def)

section \<open>Properties\<close>



text \<open>C17: Every scan ends. No iterator, whatever its sources, the cache and the files contain, can return true
  from \<^verbatim>\<open>Next\<close> forever: each successful call strictly decreases the multiset of the distances of its
  sources from their ends, in a well-founded order.\<close>

theorem scan_loop_terminates: "wf {(m', m). \<exists>c c' w. merge_Next m c w = ((True, m'), c')}"
proof (rule wf_subset)
  show "wf (inv_image (mult rank_less) (\<lambda>m. heap_rank (m_h m)))"
    by (rule wf_inv_image [OF wf_rank])
  show "{(m', m). \<exists>c c' w. merge_Next m c w = ((True, m'), c')} \<subseteq> inv_image (mult rank_less) (\<lambda>m. heap_rank (m_h m))"
    by (auto intro: merge_Next_rank)
qed

end
