(* ===== verification/Server.thy ===== *)
theory Server
  imports Resp Scan_Correct
begin

text \<open>
  Model of the package \<^verbatim>\<open>server\<close>: the commands, the dispatcher that runs them on the database, the loop
  that serves one connection, and the life of the server with its accept loop, connection registry
  and shutdown. What a peer receives is a file that is only appended to, so that a failing connection
  is a failing write. The text of an operating system error is the argument \<open>sys\<close>.
\<close>

section \<open>Definitions\<close>

subsection \<open>Commands\<close>

type_synonym Command = gostring

definition CmdSet :: Command where "CmdSet = lit ''SET''"
definition CmdGet :: Command where "CmdGet = lit ''GET''"
definition CmdDel :: Command where "CmdDel = lit ''DEL''"
definition CmdScan :: Command where "CmdScan = lit ''SCAN''"
definition CmdPing :: Command where "CmdPing = lit ''PING''"

text \<open>
  \<^verbatim>\<open>strings.ToUpper\<close>, as far as comparing with command names sees it: besides the ASCII letters two runes
  have an ASCII letter as upper case, the dotless i and the long s. Any other text outside ASCII stays
  outside ASCII and is kept.
\<close>

fun ToUpper :: "gostring \<Rightarrow> gostring" where
  "ToUpper [] = []"
| "ToUpper [c] = [if 97 \<le> c \<and> c \<le> 122 then c - 32 else c]"
| "ToUpper (c # d # s) =
     (if c = 196 \<and> d = 177 then 73 # ToUpper s
      else if c = 197 \<and> d = 191 then 83 # ToUpper s
      else (if 97 \<le> c \<and> c \<le> 122 then c - 32 else c) # ToUpper (d # s))"

fun err_Error :: "(go_error \<Rightarrow> gostring) \<Rightarrow> go_error \<Rightarrow> gostring" where
  "err_Error sys (ErrMsg m) = m"
| "err_Error sys e = sys e"

subsection \<open>Dispatch\<close>

definition quoted :: "gostring \<Rightarrow> gostring" where
  "quoted s = [39] @ s @ [39]"

definition doSet ::
  "'t btree \<Rightarrow> (go_error \<Rightarrow> gostring) \<Rightarrow> Value list \<Rightarrow> 't DB \<Rightarrow> world \<Rightarrow> (Value \<times> 't DB) \<times> world" where
  "doSet bt sys args db w =
     (if length args \<noteq> 2 then ((ErrorValue (lit ''ERR wrong number of arguments for '' @ quoted (lit ''SET'')), db), w)
      else (case Put bt (v_Str (args ! 0)) (v_Str (args ! 1)) db w of
              ((Some e, db'), w') \<Rightarrow> ((ErrorValue (lit ''ERR '' @ err_Error sys e), db'), w')
            | ((None, db'), w') \<Rightarrow> ((SimpleStringValue (lit ''OK''), db'), w')))"

definition doGet :: "'t btree \<Rightarrow> Value list \<Rightarrow> 't DB \<Rightarrow> world \<Rightarrow> (Value \<times> 't DB) \<times> world" where
  "doGet bt args db w =
     (if length args \<noteq> 1 then ((ErrorValue (lit ''ERR wrong number of arguments for '' @ quoted (lit ''GET'')), db), w)
      else (case Get bt (v_Str (args ! 0)) db w of
              ((val, ok), db') \<Rightarrow> ((if ok then BulkStringValue val else NullBulkStringValue, db'), w)))"

fun del_loop ::
  "'t btree \<Rightarrow> (go_error \<Rightarrow> gostring) \<Rightarrow> Value list \<Rightarrow> 64 word \<Rightarrow> 't DB \<Rightarrow> world \<Rightarrow> (Value \<times> 't DB) \<times> world" where
  "del_loop bt sys [] removed db w = ((IntegerValue removed, db), w)"
| "del_loop bt sys (a # args) removed db w =
     (case Get bt (v_Str a) db w of
        ((_, ok), db1) \<Rightarrow>
          (case Delete bt (v_Str a) db1 w of
             ((Some e, db2), w2) \<Rightarrow> ((ErrorValue (lit ''ERR '' @ err_Error sys e), db2), w2)
           | ((None, db2), w2) \<Rightarrow> del_loop bt sys args (if ok then removed + 1 else removed) db2 w2))"

definition doDel ::
  "'t btree \<Rightarrow> (go_error \<Rightarrow> gostring) \<Rightarrow> Value list \<Rightarrow> 't DB \<Rightarrow> world \<Rightarrow> (Value \<times> 't DB) \<times> world" where
  "doDel bt sys args db w =
     (if length args = 0 then ((ErrorValue (lit ''ERR wrong number of arguments for '' @ quoted (lit ''DEL'')), db), w)
      else del_loop bt sys args 0 db w)"

definition doScan ::
  "'t btree \<Rightarrow> (go_error \<Rightarrow> gostring) \<Rightarrow> Value list \<Rightarrow> 't DB \<Rightarrow> world \<Rightarrow> (Value \<times> 't DB) \<times> world" where
  "doScan bt sys args db w =
     (if length args \<noteq> 2 then ((ErrorValue (lit ''ERR wrong number of arguments for '' @ quoted (lit ''SCAN'')), db), w)
      else (case Scan bt (v_Str (args ! 0)) (Some (v_Str (args ! 1))) db w of
              (Inl e, db') \<Rightarrow> ((ErrorValue (lit ''ERR '' @ err_Error sys e), db'), w)
            | (Inr it, db') \<Rightarrow>
                (case merge_collect it (db_blockCache db') w of
                   (kvs, c) \<Rightarrow>
                     ((ArrayValue (concat (map (\<lambda>(k, v). [BulkStringValue k, BulkStringValue v]) kvs)),
                       db'\<lparr>db_blockCache := c\<rparr>), w))))"

definition doPing :: "Value list \<Rightarrow> Value" where
  "doPing args = (if length args = 0 then SimpleStringValue (lit ''PONG'') else BulkStringValue (v_Str (args ! 0)))"

definition dispatch ::
  "'t btree \<Rightarrow> (go_error \<Rightarrow> gostring) \<Rightarrow> Value \<Rightarrow> 't DB \<Rightarrow> world \<Rightarrow> (Value \<times> 't DB) \<times> world" where
  "dispatch bt sys cmd db w =
     (if v_Type cmd \<noteq> Array \<or> length (v_Elems cmd) = 0
      then ((ErrorValue (lit ''ERR expected a non-empty command array''), db), w)
      else if \<not> list_all (\<lambda>e. v_Type e = BulkString) (v_Elems cmd)
      then ((ErrorValue (lit ''ERR command elements must be bulk strings''), db), w)
      else
        (let name = ToUpper (v_Str (v_Elems cmd ! 0));
             args = drop 1 (v_Elems cmd)
         in if name = CmdSet then doSet bt sys args db w
            else if name = CmdGet then doGet bt args db w
            else if name = CmdDel then doDel bt sys args db w
            else if name = CmdScan then doScan bt sys args db w
            else if name = CmdPing then ((doPing args, db), w)
            else ((ErrorValue (lit ''ERR unknown command '' @ quoted (v_Str (v_Elems cmd ! 0))), db), w)))"

subsection \<open>One connection\<close>

datatype conn_end = ConnClosed | ServerPanic

function handleConn ::
  "'t btree \<Rightarrow> (go_error \<Rightarrow> gostring) \<Rightarrow> bytes \<Rightarrow> BufWriter \<Rightarrow> 't DB \<Rightarrow> world \<Rightarrow> conn_end \<times> 't DB \<times> world" where
  "handleConn bt sys r b db w =
     (case resp_Read r of
        Inl e \<Rightarrow> (if e = MakePanic then ServerPanic else ConnClosed, db, w)
      | Inr (cmd, r') \<Rightarrow>
          (case dispatch bt sys cmd db w of
             ((reply, db1), w1) \<Rightarrow>
               (case resp_Write b reply w1 of
                  ((Some e, b1), w2) \<Rightarrow> (ConnClosed, db1, w2)
                | ((None, b1), w2) \<Rightarrow> handleConn bt sys r' b1 db1 w2)))"
  by pat_completeness auto
termination
  by (relation "measure (\<lambda>(bt, sys, r, b, db, w). length r)") (auto dest: Read_shrinks(1))

declare handleConn.simps [simp del]

subsection \<open>The life of a server\<close>

text \<open>
  Connections are numbered. \<open>srv_conns\<close> is the registry, \<open>srv_wg\<close> the wait group, \<open>srv_listener\<close> the stored
  listener, known by its address; the other fields are the environment: whether the listener accepts, the context, the
  connections that are open, and where the three kinds of goroutines are. A handler is in \<^verbatim>\<open>handleConn\<close>,
  then past it, then past \<^verbatim>\<open>removeConn\<close>.
\<close>

datatype serve_pc = Listening | Accepting | Accepted nat | Registered nat | Waiting | Returned "go_error option"
datatype closer_pc = NotStarted | AwaitDone | ListenerClosed | ConnsClosed
datatype handler_pc = Handling | Handled | Removed

record Server =
  srv_listener :: "gostring option"
  srv_conns :: "nat set"
  srv_wg :: nat
  srv_listening :: bool
  srv_cancelled :: bool
  srv_open :: "nat set"
  srv_loop :: serve_pc
  srv_closer :: closer_pc
  srv_handlers :: "nat \<rightharpoonup> handler_pc"

definition addConn :: "nat \<Rightarrow> Server \<Rightarrow> Server" where
  "addConn conn s = s\<lparr>srv_conns := insert conn (srv_conns s)\<rparr>"

definition removeConn :: "nat \<Rightarrow> Server \<Rightarrow> Server" where
  "removeConn conn s = s\<lparr>srv_conns := srv_conns s - {conn}\<rparr>"

definition closeAllConns :: "Server \<Rightarrow> Server" where
  "closeAllConns s = s\<lparr>srv_open := srv_open s - srv_conns s\<rparr>"

definition Addr :: "Server \<Rightarrow> gostring option" where
  "Addr s = srv_listener s"

text \<open>After \<^verbatim>\<open>New\<close>, with \<^verbatim>\<open>Serve\<close> called and about to listen.\<close>

definition server_New :: Server where
  "server_New = \<lparr>srv_listener = None, srv_conns = {}, srv_wg = 0, srv_listening = False, srv_cancelled = False, srv_open = {},
     srv_loop = Listening, srv_closer = NotStarted, srv_handlers = Map.empty\<rparr>"

text \<open>
  The steps the server takes by itself: of the accept loop when the listener is closed, of the closing
  goroutine, and of the handlers once their connection is closed (a handler that is running a command
  finishes it and fails at its next read or write).
\<close>

inductive own_step :: "Server \<Rightarrow> Server \<Rightarrow> bool" where
  accept_closed: "srv_loop s = Accepting \<Longrightarrow> \<not> srv_listening s \<Longrightarrow> own_step s (s\<lparr>srv_loop := Waiting\<rparr>)"
| register: "srv_loop s = Accepted conn \<Longrightarrow> own_step s (addConn conn (s\<lparr>srv_loop := Registered conn\<rparr>))"
| spawn: "srv_loop s = Registered conn \<Longrightarrow>
    own_step s (s\<lparr>srv_wg := srv_wg s + 1, srv_handlers := (srv_handlers s)(conn \<mapsto> Handling), srv_loop := Accepting\<rparr>)"
| wait_over: "srv_loop s = Waiting \<Longrightarrow> srv_wg s = 0 \<Longrightarrow> own_step s (s\<lparr>srv_loop := Returned None\<rparr>)"
| read_closed: "srv_handlers s conn = Some Handling \<Longrightarrow> conn \<notin> srv_open s \<Longrightarrow>
    own_step s (s\<lparr>srv_handlers := (srv_handlers s)(conn \<mapsto> Handled)\<rparr>)"
| remove: "srv_handlers s conn = Some Handled \<Longrightarrow>
    own_step s (removeConn conn (s\<lparr>srv_handlers := (srv_handlers s)(conn \<mapsto> Removed)\<rparr>))"
| wg_done: "srv_handlers s conn = Some Removed \<Longrightarrow>
    own_step s (s\<lparr>srv_wg := srv_wg s - 1, srv_handlers := (srv_handlers s)(conn := None)\<rparr>)"
| close_listener: "srv_cancelled s \<Longrightarrow> srv_closer s = AwaitDone \<Longrightarrow>
    own_step s (s\<lparr>srv_listening := False, srv_closer := ListenerClosed\<rparr>)"
| close_conns: "srv_closer s = ListenerClosed \<Longrightarrow> own_step s (closeAllConns (s\<lparr>srv_closer := ConnsClosed\<rparr>))"

text \<open>
  The steps that wait for the outside: the outcome of \<^verbatim>\<open>net.Listen\<close>, a peer that connects or a failing
  \<^verbatim>\<open>Accept\<close>, a connection that ends because its peer left or sent what cannot be answered, and the
  cancellation of the context.
\<close>

inductive outside_step :: "Server \<Rightarrow> Server \<Rightarrow> bool" where
  listen: "srv_loop s = Listening \<Longrightarrow>
    outside_step s (s\<lparr>srv_listener := Some a, srv_listening := True, srv_closer := AwaitDone, srv_loop := Accepting\<rparr>)"
| listen_error: "srv_loop s = Listening \<Longrightarrow> outside_step s (s\<lparr>srv_loop := Returned (Some e)\<rparr>)"
| accept: "srv_loop s = Accepting \<Longrightarrow> srv_listening s \<Longrightarrow> conn \<notin> srv_open s \<Longrightarrow> srv_handlers s conn = None \<Longrightarrow>
    conn \<notin> srv_conns s \<Longrightarrow> outside_step s (s\<lparr>srv_open := insert conn (srv_open s), srv_loop := Accepted conn\<rparr>)"
| accept_error: "srv_loop s = Accepting \<Longrightarrow> srv_listening s \<Longrightarrow> outside_step s (s\<lparr>srv_loop := Returned (Some e)\<rparr>)"
| peer_ends: "srv_handlers s conn = Some Handling \<Longrightarrow> conn \<in> srv_open s \<Longrightarrow>
    outside_step s (s\<lparr>srv_handlers := (srv_handlers s)(conn \<mapsto> Handled), srv_open := srv_open s - {conn}\<rparr>)"
| cancel: "outside_step s (s\<lparr>srv_cancelled := True\<rparr>)"

definition server_step :: "Server \<Rightarrow> Server \<Rightarrow> bool" where
  "server_step s s' \<longleftrightarrow> own_step s s' \<or> outside_step s s'"

definition server_reaches :: "Server \<Rightarrow> bool" where
  "server_reaches s \<longleftrightarrow> rtranclp server_step server_New s"

end
