(* ===== verification/Server_Correct.thy ===== *)
theory Server_Correct
  imports Server
begin

text \<open>
  Correctness of the server: what the printer puts on a connection, that the dispatcher runs commands
  as on a plain map, and that a connection answers a stream of commands in order. Some lemmas show what
  a peer can do to the server.
\<close>

section \<open>Writing replies\<close>

text \<open>Values of the five types of the protocol.\<close>

fun known :: "Value \<Rightarrow> bool" where
  "known (RespValue ty str num els null) \<longleftrightarrow>
     ty \<in> {SimpleString, Error, Integer, BulkString} \<or> ty = Array \<and> list_all known els"

lemma known_reply [simp]:
  "known (SimpleStringValue s)" "known (ErrorValue s)" "known (IntegerValue n)" "known (BulkStringValue s)" "known NullBulkStringValue"
  "known (ArrayValue vs) \<longleftrightarrow> list_all known vs"
  by (simp_all add: SimpleStringValue_def ErrorValue_def IntegerValue_def BulkStringValue_def NullBulkStringValue_def ArrayValue_def type_bytes)

lemma log_step_off: "log_step b w p b' w' \<Longrightarrow> fs_get w (bw_path b) = Some f \<Longrightarrow> durable f \<le> length (fdata f) \<Longrightarrow> bw_off b' = None"
  by (auto simp: log_step_def)

text \<open>The state of a connection's writer: nothing failed so far and the peer's stream exists.\<close>

definition writer_ok :: "BufWriter \<Rightarrow> world \<Rightarrow> bool" where
  "writer_ok b w \<longleftrightarrow>
     bw_off b = None \<and> bw_err b = None \<and> (\<exists>f. fs_get w (bw_path b) = Some f \<and> durable f \<le> length (fdata f))"

lemma writer_ok_step:
  assumes "writer_ok b w" "log_step b w p b' w'" "bw_err b' = None"
  shows "writer_ok b' w'"
proof -
  obtain f where "fs_get w (bw_path b) = Some f" "durable f \<le> length (fdata f)"
    using assms(1) by (auto simp: writer_ok_def)
  with assms(2) show ?thesis
    using assms(3) by (elim log_stepE) (auto simp: writer_ok_def)
qed

lemma bw_Write_ok:
  assumes "writer_ok b w" "bw_Write b p w = ((e, b'), w')"
  shows "log_step b w p b' w' \<and> e = bw_err b'"
  using bw_Write_log_step [OF _ _ assms(2)] assms(1) by (simp add: writer_ok_def)

text \<open>
  What holds of single writes and of one write after another holds of printing a value. \<open>J\<close> is what the
  writer satisfies before, \<open>R\<close> relates the states around a write of given bytes.
\<close>

locale writer_law =
  fixes J :: "BufWriter \<Rightarrow> world \<Rightarrow> bool"
    and R :: "BufWriter \<Rightarrow> world \<Rightarrow> bytes \<Rightarrow> go_error option \<Rightarrow> BufWriter \<Rightarrow> world \<Rightarrow> bool"
  assumes one: "J b w \<Longrightarrow> bw_Write b p w = ((e, b'), w') \<Longrightarrow> R b w p e b' w'"
    and none: "J b w \<Longrightarrow> R b w [] None b w"
    and keeps: "J b w \<Longrightarrow> R b w p None b1 w1 \<Longrightarrow> J b1 w1"
    and comp: "R b w p None b1 w1 \<Longrightarrow> R b1 w1 q e b2 w2 \<Longrightarrow> R b w (p @ q) e b2 w2"
    and stop: "R b w p (Some x) b1 w1 \<Longrightarrow> R b w (p @ q) (Some x) b1 w1"
begin

lemma write_then:
  assumes "J b w" "R b w p e1 b1 w1" "case e1 of Some x \<Rightarrow> e = Some x \<and> b' = b1 \<and> w' = w1 | None \<Rightarrow> J b1 w1 \<longrightarrow> R b1 w1 q e b' w'"
  shows "R b w (p @ q) e b' w'"
  using assms keeps comp stop by (cases e1) auto

lemma write_value:
  "J b w \<Longrightarrow> known v \<Longrightarrow> resp_write b v w = ((e, b'), w') \<Longrightarrow> R b w (encode v) e b' w'"
  "J b w \<Longrightarrow> list_all known vs \<Longrightarrow> write_elems b vs w = ((e, b'), w') \<Longrightarrow> R b w (concat (map encode vs)) e b' w'"
proof (induction b v w and b vs w arbitrary: e b' w' and e b' w' rule: resp_write_write_elems.induct)
  case (1 b ty str num els null w)
  show ?case
  proof (cases "ty = Array \<and> \<not> null")
    case True
    obtain e1 b1 w1 where a: "bw_Write b ([Array] @ dec_nat (length els) @ crlf) w = ((e1, b1), w1)"
      by (metis surj_pair)
    have enc: "encode (RespValue ty str num els null) = ([Array] @ dec_nat (length els) @ crlf) @ concat (map encode els)"
      using True by (simp add: type_bytes)
    have "R b1 w1 (concat (map encode els)) e b' w'" if "e1 = None" "J b1 w1"
      using "1.IH" [OF _ _ _ _ _ _ a [symmetric] refl that(1,2)] True "1.prems"(2,3) a that(1) by (simp add: type_bytes)
    then show ?thesis
      unfolding enc using write_then [OF "1.prems"(1) one [OF "1.prems"(1) a]] "1.prems"(3) a True
      by (auto simp: type_bytes split: option.splits)
  next
    case False
    then have "resp_write b (RespValue ty str num els null) w = bw_Write b (encode (RespValue ty str num els null)) w"
      using "1.prems"(2) by (auto simp: type_bytes)
    then show ?thesis
      using one [OF "1.prems"(1)] "1.prems"(3) by simp
  qed
next
  case (2 b w)
  then show ?case
    using none by auto
next
  case (3 b v vs w)
  obtain e1 b1 w1 where a: "resp_write b v w = ((e1, b1), w1)"
    by (metis surj_pair)
  have A: "R b w (encode v) e1 b1 w1"
    using "3.IH"(1) [OF "3.prems"(1) _ a] "3.prems"(2) by simp
  have "R b1 w1 (concat (map encode vs)) e b' w'" if "e1 = None" "J b1 w1"
    using "3.IH"(2) [OF a [symmetric] refl that] "3.prems"(2,3) a that(1) by simp
  then show ?case
    using write_then [OF "3.prems"(1) A] "3.prems"(3) a by (auto split: option.splits)
qed

end

interpretation stream: writer_law writer_ok "\<lambda>b w p e b' w'. log_step b w p b' w' \<and> e = bw_err b'"
proof
  show "log_step b w (p @ q) b1 w1 \<and> Some x = bw_err b1" if "log_step b w p b1 w1 \<and> Some x = bw_err b1" for b w p x b1 w1 q
    using that log_step_weaken [of b w p b1 w1 q] by (metis option.discI)
  show "log_step b w [] b w \<and> None = bw_err b" if "writer_ok b w" for b w
    using that by (auto simp: log_step_def writer_ok_def)
  show "log_step b w (p @ q) b2 w2 \<and> e = bw_err b2"
    if "log_step b w p b1 w1 \<and> None = bw_err b1" "log_step b1 w1 q b2 w2 \<and> e = bw_err b2" for b w p b1 w1 q e b2 w2
    using that log_step_trans [of b w p b1 w1 q b2 w2] by simp
  show "writer_ok b1 w1" if "writer_ok b w" "log_step b w p b1 w1 \<and> None = bw_err b1" for b w p b1 w1
    using that writer_ok_step [of b w p b1 w1] by simp
qed (rule bw_Write_ok)

interpretation calm: writer_law "\<lambda>b w. True" "\<lambda>b w p e b' w'. calm (bw_path b) b w e b' w'"
proof
  show "calm (bw_path b) b w e b2 w2" if "calm (bw_path b) b w None b1 w1" "calm (bw_path b1) b1 w1 e b2 w2" for b w b1 w1 e b2 w2
    using that calm_trans [of "bw_path b" b w b1 w1 e b2 w2] by (simp add: calm_def)
  show "calm (bw_path b) b w e b' w'" if "bw_Write b p w = ((e, b'), w')" for b w p e b' w'
    by (rule bw_Write_calm [OF refl that])
  show "calm (bw_path b) b w None b w" for b w
    by (simp add: calm_def)
qed

text \<open>What the peer has received after a reply.\<close>

lemma Write_sent:
  assumes "writer_ok b w" "bw_buf b = []" "known v" "resp_Write b v w = ((e, b'), w')" "fs_get w (bw_path b) = Some f"
  shows "only_touches (bw_path b) w w'" "faults w = [] \<Longrightarrow> e = None \<and> faults w' = []"
    "e = None \<Longrightarrow> writer_ok b' w' \<and> bw_buf b' = [] \<and> bw_path b' = bw_path b"
    "\<exists>f' d. fs_get w' (bw_path b) = Some f' \<and> fdata f' = fdata f @ d \<and> prefix d (encode v) \<and> (e = None \<longrightarrow> d = encode v)"
proof -
  obtain e1 b1 w1 where a: "resp_write b v w = ((e1, b1), w1)"
    by (metis surj_pair)
  have f: "durable f \<le> length (fdata f)"
    using assms(1,5) by (auto simp: writer_ok_def)
  have A: "log_step b w (encode v) b1 w1" "e1 = bw_err b1" "calm (bw_path b) b w e1 b1 w1"
    using stream.write_value(1) [OF assms(1,3) a] calm.write_value(1) [OF TrueI assms(3) a] by simp_all
  have all: "only_touches (bw_path b) w w' \<and> (faults w = [] \<longrightarrow> e = None \<and> faults w' = []) \<and>
    log_step b w (encode v) b' w' \<and> e = bw_err b' \<and> (e = None \<longrightarrow> bw_buf b' = [])"
  proof (cases e1)
    case None
    then have fl: "bw_Flush b1 w1 = ((e, b'), w')"
      using assms(4) a by (simp add: resp_Write_def)
    have b1: "bw_off b1 = None" "bw_path b1 = bw_path b"
      using log_step_off [OF A(1) assms(5) f] A(3) by (simp_all add: calm_def)
    note F = bw_Flush_log_step [OF b1(1) fl]
    note C = calm_trans [OF A(3) [unfolded None] bw_Flush_calm [OF b1(2) fl]]
    show ?thesis
      using F C log_step_trans [OF A(1) _ conjunct1 [OF F]] A(2) None assms(1,5) by (simp add: calm_def writer_ok_def)
  next
    case (Some x)
    then have "b' = b1" "w' = w1" "e = e1"
      using assms(4) a by (auto simp: resp_Write_def)
    then show ?thesis
      using A Some assms(1,5) by (auto simp: calm_def writer_ok_def)
  qed
  then show "only_touches (bw_path b) w w'" "faults w = [] \<Longrightarrow> e = None \<and> faults w' = []"
    by blast+
  have L: "log_step b w (encode v) b' w'" "e = bw_err b'" "e = None \<longrightarrow> bw_buf b' = []"
    using all by blast+
  note D = L(1) [unfolded log_step_def, rule_format, OF assms(5) f]
  show "e = None \<Longrightarrow> writer_ok b' w' \<and> bw_buf b' = [] \<and> bw_path b' = bw_path b"
    using writer_ok_step [OF assms(1) L(1)] L(2,3) D by simp
  obtain f' where "fs_get w' (bw_path b) = Some f'" "prefix (fdata f) (fdata f')"
    "if bw_err b' = None then fdata f' @ bw_buf b' = fdata f @ bw_buf b @ encode v
     else prefix (fdata f') (fdata f @ bw_buf b @ encode v)"
    using D by blast
  then show "\<exists>f' d. fs_get w' (bw_path b) = Some f' \<and> fdata f' = fdata f @ d \<and> prefix d (encode v) \<and> (e = None \<longrightarrow> d = encode v)"
    using L(2,3) assms(2) by (auto simp: prefix_def split: if_splits)
qed

section \<open>Commands on a map\<close>

text \<open>What each command answers and does when the store is a plain map.\<close>

fun spec_del :: "Value list \<Rightarrow> 64 word \<Rightarrow> (gostring \<rightharpoonup> bytes) \<Rightarrow> Value \<times> (gostring \<rightharpoonup> bytes)" where
  "spec_del [] n m = (IntegerValue n, m)"
| "spec_del (a # args) n m =
     (if length (v_Str a) > MAX_KEY_LENGTH then (ErrorValue (lit ''ERR key exceeds 1024 bytes''), m)
      else spec_del args (if m (v_Str a) = None then n else n + 1) (m(v_Str a := None)))"

definition spec_set :: "gostring \<Rightarrow> gostring \<Rightarrow> (gostring \<rightharpoonup> bytes) \<Rightarrow> Value \<times> (gostring \<rightharpoonup> bytes)" where
  "spec_set k v m =
     (if length k > MAX_KEY_LENGTH then (ErrorValue (lit ''ERR key exceeds 1024 bytes''), m)
      else if length v > MAX_VALUE_LENGTH then (ErrorValue (lit ''ERR value exceeds 1048576 bytes''), m)
      else (SimpleStringValue (lit ''OK''), m(k \<mapsto> v)))"

definition spec_scan :: "gostring \<Rightarrow> gostring \<Rightarrow> (gostring \<rightharpoonup> bytes) \<Rightarrow> Value" where
  "spec_scan lower upper m =
     ArrayValue (concat (map (\<lambda>(k, v). [BulkStringValue k, BulkStringValue v]) (map_range lower (Some upper) m)))"

definition arity_error :: "Command \<Rightarrow> Value" where
  "arity_error cmd = ErrorValue (lit ''ERR wrong number of arguments for '' @ quoted cmd)"

definition spec_cmd :: "Value \<Rightarrow> (gostring \<rightharpoonup> bytes) \<Rightarrow> Value \<times> (gostring \<rightharpoonup> bytes)" where
  "spec_cmd cmd m =
     (if v_Type cmd \<noteq> Array \<or> v_Elems cmd = [] then (ErrorValue (lit ''ERR expected a non-empty command array''), m)
      else if \<exists>e \<in> set (v_Elems cmd). v_Type e \<noteq> BulkString
      then (ErrorValue (lit ''ERR command elements must be bulk strings''), m)
      else (case map v_Str (v_Elems cmd) of
              name # args \<Rightarrow>
                (if ToUpper name = CmdSet then (case args of [k, v] \<Rightarrow> spec_set k v m | _ \<Rightarrow> (arity_error CmdSet, m))
                 else if ToUpper name = CmdGet then
                   (case args of
                      [k] \<Rightarrow> (case m k of Some v \<Rightarrow> BulkStringValue v | None \<Rightarrow> NullBulkStringValue, m)
                    | _ \<Rightarrow> (arity_error CmdGet, m))
                 else if ToUpper name = CmdDel then
                   (if args = [] then (arity_error CmdDel, m) else spec_del (tl (v_Elems cmd)) 0 m)
                 else if ToUpper name = CmdScan then
                   (case args of [lower, upper] \<Rightarrow> (spec_scan lower upper m, m) | _ \<Rightarrow> (arity_error CmdScan, m))
                 else if ToUpper name = CmdPing then
                   (case args of [] \<Rightarrow> SimpleStringValue (lit ''PONG'') | x # _ \<Rightarrow> BulkStringValue x, m)
                 else (ErrorValue (lit ''ERR unknown command '' @ quoted name), m))))"

text \<open>At most how many writes a command makes.\<close>

definition cmd_cost :: "Value \<Rightarrow> nat" where
  "cmd_cost cmd = length (v_Elems cmd)"

text \<open>The database holds the map and can number \<open>c\<close> more writes.\<close>

definition holds :: "'t btree \<Rightarrow> ('t \<Rightarrow> bool) \<Rightarrow> Config \<Rightarrow> (gostring \<rightharpoonup> bytes) \<Rightarrow> nat \<Rightarrow> 't DB \<Rightarrow> world \<Rightarrow> bool" where
  "holds bt ok conf m c db w \<longleftrightarrow>
     db_conf db = conf \<and>
     (\<exists>F es. db_inv bt ok F es db w \<and> kv_store (F @ map ent_version es) = m \<and>
        unat (db_seqNum db) = length F + length es \<and> length F + length es + c < 2 ^ 30)"

text \<open>
  A command fills the memtable at some of its writes, and the flush that follows may compact. These
  predicates follow a command, and a session, through the states it passes and say that the compactions
  it starts merge tables that are neighbours in age.
\<close>

fun del_adjacent :: "'t btree \<Rightarrow> Value list \<Rightarrow> 't DB \<Rightarrow> world \<Rightarrow> bool" where
  "del_adjacent bt [] db w \<longleftrightarrow> True"
| "del_adjacent bt (a # args) db w \<longleftrightarrow>
     (case Get bt (v_Str a) db w of
        (_, db1) \<Rightarrow>
          length (v_Str a) > MAX_KEY_LENGTH \<or>
          write_adjacent bt (v_Str a) InternalKeyKindDelete [] db1 w \<and>
          (case Delete bt (v_Str a) db1 w of ((_, db2), w2) \<Rightarrow> del_adjacent bt args db2 w2))"

definition set_adjacent :: "'t btree \<Rightarrow> Value list \<Rightarrow> 't DB \<Rightarrow> world \<Rightarrow> bool" where
  "set_adjacent bt args db w \<longleftrightarrow>
     (case args of
        [k, v] \<Rightarrow>
          length (v_Str k) > MAX_KEY_LENGTH \<or> length (v_Str v) > MAX_VALUE_LENGTH \<or>
          write_adjacent bt (v_Str k) InternalKeyKindSet (v_Str v) db w
      | _ \<Rightarrow> True)"

definition cmd_adjacent :: "'t btree \<Rightarrow> Value \<Rightarrow> 't DB \<Rightarrow> world \<Rightarrow> bool" where
  "cmd_adjacent bt cmd db w \<longleftrightarrow>
     (case v_Elems cmd of
        [] \<Rightarrow> True
      | name # args \<Rightarrow>
          if ToUpper (v_Str name) = CmdSet then set_adjacent bt args db w
          else if ToUpper (v_Str name) = CmdDel then del_adjacent bt args db w
          else True)"

fun session_adjacent ::
  "'t btree \<Rightarrow> (go_error \<Rightarrow> gostring) \<Rightarrow> Value list \<Rightarrow> BufWriter \<Rightarrow> 't DB \<Rightarrow> world \<Rightarrow> bool" where
  "session_adjacent bt sys [] b db w \<longleftrightarrow> True"
| "session_adjacent bt sys (cmd # cmds) b db w \<longleftrightarrow>
     cmd_adjacent bt cmd db w \<and>
     (case dispatch bt sys cmd db w of
        ((reply, db1), w1) \<Rightarrow>
          (case resp_Write b reply w1 of ((_, b1), w2) \<Rightarrow> session_adjacent bt sys cmds b1 db1 w2))"

lemma holds_less: "holds bt ok conf m c db w \<Longrightarrow> c' \<le> c \<Longrightarrow> holds bt ok conf m c' db w"
proof -
  assume h: "holds bt ok conf m c db w" "c' \<le> c"
  then obtain F es where "db_inv bt ok F es db w" "kv_store (F @ map ent_version es) = m"
    "unat (db_seqNum db) = length F + length es" "length F + length es + c < 2 ^ 30"
    by (auto simp: holds_def)
  then show ?thesis
    using h unfolding holds_def by (intro conjI exI [of _ F] exI [of _ es]) simp_all
qed

lemma holds_env: "holds bt ok conf m c db w \<Longrightarrow> faults w = [] \<and> \<not> in_dir (SSTDir conf) (WALPath conf)"
  by (auto simp: holds_def db_inv_def env_ok_def)

lemma holds_frame:
  assumes "holds bt ok conf m c db w" "only_touches p w w'" "faults w' = []"
    and "p \<noteq> WALPath conf" "\<not> in_dir (SSTDir conf) p"
  shows "holds bt ok conf m c db w'"
proof -
  obtain F es where I: "db_inv bt ok F es db w" "kv_store (F @ map ent_version es) = m"
    "unat (db_seqNum db) = length F + length es" "length F + length es + c < 2 ^ 30"
    and D: "db_conf db = conf"
    using assms(1) by (auto simp: holds_def)
  obtain ts where ts: "tables_for db F ts w"
    using I(1) by (auto simp: db_inv_def)
  have P: "mem_for bt ok es db" "log_for es db w" "hist_ok (db_seqNum db) (F @ map ent_version es)" "env_ok db w"
    "cache_fine db w" "pins_ok db"
    using I(1) by (simp_all add: db_inv_def)
  have "\<not> in_dir (SSTDir (db_conf db)) p"
    using assms(5) D by simp
  note T = tables_file_frame [OF P(4) ts P(5) assms(2,3) this]
  have "bw_path (BufWriter (db_wal db)) = WALPath conf"
    using P(4) D by (simp add: env_ok_def)
  then have "fs_get w' (bw_path (BufWriter (db_wal db))) = fs_get w (bw_path (BufWriter (db_wal db)))"
    using assms(2,4) by (simp add: only_touches_def)
  then have "log_for es db w'"
    using P(2) wal_inv_frame by (auto simp: log_for_def)
  then have "db_inv bt ok F es db w'"
    using P T by (auto simp: db_inv_def)
  then show ?thesis
    using I D unfolding holds_def by blast
qed

context google_btree
begin

lemma holds_Get:
  assumes "holds bt ok conf m c db w"
  shows "\<exists>db'. Get bt u db w = (kv_get u m, db') \<and> holds bt ok conf m c db' w"
proof -
  obtain F es where I: "db_inv bt ok F es db w" "kv_store (F @ map ent_version es) = m"
    "unat (db_seqNum db) = length F + length es" "length F + length es + c < 2 ^ 30"
    and D: "db_conf db = conf"
    using assms by (auto simp: holds_def)
  have p: "pins_ok db" "hist_ok (db_seqNum db) (F @ map ent_version es)"
    using I(1) by (simp_all add: db_inv_def)
  then have "writes_until SeqNumMax (F @ map ent_version es) = F @ map ent_version es"
    using writes_until_all [OF p(2)] by (simp add: pins_ok_def)
  then have g: "hist_get u SeqNumMax (F @ map ent_version es) = kv_get u m"
    using hist_get_store [OF p(2), of u SeqNumMax] I(2) by simp
  obtain x where x: "GetAt bt u SeqNumMax db w = (kv_get u m, db\<lparr>db_blockCache := x\<rparr>)" "db_inv bt ok F es (db\<lparr>db_blockCache := x\<rparr>) w"
    using GetAt_spec [OF I(1) SeqNumMax_live [OF p(1)], of u] g by auto
  then have "holds bt ok conf m c (db\<lparr>db_blockCache := x\<rparr>) w"
    unfolding holds_def using I D by (intro conjI exI [of _ F] exI [of _ es]) simp_all
  then show ?thesis
    using x by (simp add: Get_def)
qed

lemma holds_scan:
  assumes "holds bt ok conf m c db w"
  shows "\<exists>db'. scan_all bt lower upper SeqNumMax db w = (Inr (map_range lower upper m), db') \<and> holds bt ok conf m c db' w"
proof -
  obtain F es where I: "db_inv bt ok F es db w" "kv_store (F @ map ent_version es) = m"
    "unat (db_seqNum db) = length F + length es" "length F + length es + c < 2 ^ 30"
    and D: "db_conf db = conf"
    using assms by (auto simp: holds_def)
  have p: "pins_ok db" "hist_ok (db_seqNum db) (F @ map ent_version es)"
    using I(1) by (simp_all add: db_inv_def)
  then have "writes_until SeqNumMax (F @ map ent_version es) = F @ map ent_version es"
    using writes_until_all [OF p(2)] by (simp add: pins_ok_def)
  then obtain x where x: "scan_all bt lower upper SeqNumMax db w = (Inr (map_range lower upper m), db\<lparr>db_blockCache := x\<rparr>)"
    "db_inv bt ok F es (db\<lparr>db_blockCache := x\<rparr>) w"
    using scan_all_correct [OF I(1) SeqNumMax_live [OF p(1)], of lower upper] I(2) by auto
  then have "holds bt ok conf m c (db\<lparr>db_blockCache := x\<rparr>) w"
    unfolding holds_def using I D by (intro conjI exI [of _ F] exI [of _ es]) simp_all
  then show ?thesis
    using x by blast
qed

lemma holds_wrote:
  assumes "db_conf db = conf" "unat (db_seqNum db) = length H" "length H + Suc c < 2 ^ 30"
    and "wrote_version bt ok H db kv r" "outside conf w (snd r)"
  shows "\<exists>db' w'. r = ((None, db'), w') \<and> holds bt ok conf (kv_write kv (kv_store H)) c db' w' \<and> outside conf w w'"
proof -
  obtain db' w' F es where r: "r = ((None, db'), w')" "db_seqNum db' = db_seqNum db + 1" "db_conf db' = conf"
    and I: "db_inv bt ok F es db' w'" "F @ map ent_version es = H @ [kv]"
    using assms(1,4) by (auto simp: wrote_version_def)
  have len: "length F + length es = length H + 1"
    using arg_cong [OF I(2), of length] by simp
  have "unat (db_seqNum db') = length F + length es"
    using assms(2,3) by (simp add: r(2) len unat_word_ariths)
  moreover have "kv_store (F @ map ent_version es) = kv_write kv (kv_store H)"
    by (simp add: I(2) kv_store_snoc)
  ultimately have "holds bt ok conf (kv_write kv (kv_store H)) c db' w'"
    unfolding holds_def using r(3) I(1) len assms(3) by (intro conjI exI [of _ F] exI [of _ es]) simp_all
  then show ?thesis
    using r(1) assms(5) by simp
qed

lemma holds_Put:
  assumes "holds bt ok conf m (Suc c) db w" "length k \<le> MAX_KEY_LENGTH" "length v \<le> MAX_VALUE_LENGTH"
    and "write_adjacent bt k InternalKeyKindSet v db w"
  shows "\<exists>db' w'. Put bt k v db w = ((None, db'), w') \<and> holds bt ok conf (m(k \<mapsto> v)) c db' w' \<and> outside conf w w'"
proof -
  obtain F es where I: "db_inv bt ok F es db w" "kv_store (F @ map ent_version es) = m"
    "unat (db_seqNum db) = length F + length es" "length F + length es + Suc c < 2 ^ 30" "db_conf db = conf"
    using assms(1) by (auto simp: holds_def)
  have s: "db_seqNum db < SeqNumMax" "length F + length es + 1 < 2 ^ 30"
    using I(3,4) by (simp_all add: word_less_nat_alt SeqNumMax_eq)
  have "kv_write (write_version db k InternalKeyKindSet v) m = m(k \<mapsto> v)"
    by (simp add: kv_write_def write_version_def InternalKeyKindSet_def InternalKeyKindDelete_def)
  then show ?thesis
    using holds_wrote [OF I(5) _ _ Put_correct [OF I(1) s(1) assms(2,3) s(2) assms(4), unfolded I(5)], of c] I by simp
qed

lemma holds_Delete:
  assumes "holds bt ok conf m (Suc c) db w" "length k \<le> MAX_KEY_LENGTH"
    and "write_adjacent bt k InternalKeyKindDelete [] db w"
  shows "\<exists>db' w'. Delete bt k db w = ((None, db'), w') \<and> holds bt ok conf (m(k := None)) c db' w' \<and> outside conf w w'"
proof -
  obtain F es where I: "db_inv bt ok F es db w" "kv_store (F @ map ent_version es) = m"
    "unat (db_seqNum db) = length F + length es" "length F + length es + Suc c < 2 ^ 30" "db_conf db = conf"
    using assms(1) by (auto simp: holds_def)
  have s: "db_seqNum db < SeqNumMax" "length F + length es + 1 < 2 ^ 30"
    using I(3,4) by (simp_all add: word_less_nat_alt SeqNumMax_eq)
  have "kv_write (write_version db k InternalKeyKindDelete []) m = m(k := None)"
    by (simp add: kv_write_def write_version_def)
  then show ?thesis
    using holds_wrote [OF I(5) _ _ Delete_correct [OF I(1) s(1) assms(2) s(2) assms(3), unfolded I(5)], of c] I by simp
qed

end

lemma too_long_text:
  "lit ''ERR '' @ err_Error sys ErrKeyTooLong = lit ''ERR key exceeds 1024 bytes''"
  "lit ''ERR '' @ err_Error sys ErrValueTooLong = lit ''ERR value exceeds 1048576 bytes''"
proof -
  have "dec_nat MAX_KEY_LENGTH = lit ''1024''" "dec_nat MAX_VALUE_LENGTH = lit ''1048576''"
    by (simp_all add: MAX_KEY_LENGTH_def MAX_VALUE_LENGTH_def dec_nat_small dec_nat_large lit_def)
  then show "lit ''ERR '' @ err_Error sys ErrKeyTooLong = lit ''ERR key exceeds 1024 bytes''"
    "lit ''ERR '' @ err_Error sys ErrValueTooLong = lit ''ERR value exceeds 1048576 bytes''"
    by (simp_all add: ErrKeyTooLong_def ErrValueTooLong_def lit_def)
qed

text \<open>What an operation of the server does: the reply, the map it leaves, and only the log and the table directory are written.\<close>

definition runs ::
  "'t btree \<Rightarrow> ('t \<Rightarrow> bool) \<Rightarrow> Config \<Rightarrow> nat \<Rightarrow> world \<Rightarrow> (Value \<times> 't DB) \<times> world \<Rightarrow> Value \<times> (gostring \<rightharpoonup> bytes) \<Rightarrow> bool" where
  "runs bt ok conf c w res spec \<longleftrightarrow>
     (case res of ((reply, db'), w') \<Rightarrow>
        reply = fst spec \<and> holds bt ok conf (snd spec) c db' w' \<and> outside conf w w')"

lemma runs_simp [simp]:
  "runs bt ok conf c w ((reply, db'), w') spec \<longleftrightarrow>
     reply = fst spec \<and> holds bt ok conf (snd spec) c db' w' \<and> outside conf w w'"
  by (simp add: runs_def)

lemma runs_before: "runs bt ok conf c w1 res spec \<Longrightarrow> outside conf w w1 \<Longrightarrow> runs bt ok conf c w res spec"
  by (auto simp: runs_def split: prod.splits intro: outside_trans)

context google_btree
begin

lemma doSet_runs:
  assumes "holds bt ok conf m (Suc c) db w" "set_adjacent bt [k, v] db w"
  shows "runs bt ok conf c w (doSet bt sys [k, v] db w) (spec_set (v_Str k) (v_Str v) m)"
proof (cases "length (v_Str k) \<le> MAX_KEY_LENGTH \<and> length (v_Str v) \<le> MAX_VALUE_LENGTH")
  case True
  then have "write_adjacent bt (v_Str k) InternalKeyKindSet (v_Str v) db w"
    using assms(2) by (simp add: set_adjacent_def)
  then show ?thesis
    using True holds_Put [OF assms(1), of "v_Str k" "v_Str v"] by (auto simp: doSet_def spec_set_def)
next
  case False
  then show ?thesis
    using holds_less [OF assms(1), of c] by (auto simp: doSet_def spec_set_def Put_def too_long_text)
qed

lemma del_loop_runs:
  assumes "holds bt ok conf m (length args + c) db w" "del_adjacent bt args db w"
  shows "runs bt ok conf c w (del_loop bt sys args n db w) (spec_del args n m)"
  using assms
proof (induction args arbitrary: m n db w)
  case Nil
  then show ?case by simp
next
  case (Cons a args)
  let ?k = "v_Str a"
  obtain db1 where g: "Get bt ?k db w = (kv_get ?k m, db1)"
    and h: "holds bt ok conf m (Suc (length args + c)) db1 w"
    using holds_Get [OF Cons.prems(1), of ?k] by auto
  show ?case
  proof (cases "length ?k \<le> MAX_KEY_LENGTH")
    case True
    then have "write_adjacent bt ?k InternalKeyKindDelete [] db1 w"
      using Cons.prems(2) g by simp
    from holds_Delete [OF h True this] obtain db2 w2 where d: "Delete bt ?k db1 w = ((None, db2), w2)" "outside conf w w2"
      and h2: "holds bt ok conf (m(?k := None)) (length args + c) db2 w2"
      by blast
    have "del_adjacent bt args db2 w2"
      using Cons.prems(2) g d(1) True by simp
    then have R: "runs bt ok conf c w (del_loop bt sys args i db2 w2) (spec_del args i (m(?k := None)))" for i
      by (rule runs_before [OF Cons.IH [OF h2] d(2)])
    show ?thesis
      using g d(1) True R by (cases "m ?k") (simp_all add: kv_get_def del: fun_upd_apply)
  next
    case False
    then have "Delete bt ?k db1 w = ((Some ErrKeyTooLong, db1), w)"
      by (simp add: Delete_def)
    then show ?thesis
      using False g holds_less [OF h, of c] by (auto simp: too_long_text split: prod.splits)
  qed
qed

lemma doScan_runs:
  assumes "holds bt ok conf m c db w"
  shows "runs bt ok conf c w (doScan bt sys [lower, upper] db w) (spec_scan (v_Str lower) (v_Str upper) m, m)"
proof -
  obtain db' where "scan_all bt (v_Str lower) (Some (v_Str upper)) SeqNumMax db w = (Inr (map_range (v_Str lower) (Some (v_Str upper)) m), db')"
    "holds bt ok conf m c db' w"
    using holds_scan [OF assms] by blast
  then show ?thesis
    by (auto simp: doScan_def scan_all_def Scan_def spec_scan_def split: prod.splits sum.splits)
qed

lemma doGet_runs:
  assumes "holds bt ok conf m c db w"
  shows "runs bt ok conf c w (doGet bt [k] db w)
    (case m (v_Str k) of Some v \<Rightarrow> BulkStringValue v | None \<Rightarrow> NullBulkStringValue, m)"
  using holds_Get [OF assms, of "v_Str k"] by (auto simp: doGet_def kv_get_def split: option.splits)

lemma dispatch_runs:
  assumes "holds bt ok conf m (cmd_cost cmd + c) db w" "cmd_adjacent bt cmd db w"
  shows "runs bt ok conf c w (dispatch bt sys cmd db w) (spec_cmd cmd m)"
proof (cases "v_Type cmd \<noteq> Array \<or> v_Elems cmd = [] \<or> (\<exists>e \<in> set (v_Elems cmd). v_Type e \<noteq> BulkString)")
  case True
  then show ?thesis
    using holds_less [OF assms(1), of c] by (auto simp: dispatch_def spec_cmd_def list_all_iff)
next
  case False
  then obtain name args where e: "v_Elems cmd = name # args"
    by (cases "v_Elems cmd") auto
  have h: "holds bt ok conf m c db w"
    using holds_less [OF assms(1)] by simp
  have del: "runs bt ok conf c w (del_loop bt sys args 0 db w) (spec_del args 0 m)" if "ToUpper (v_Str name) = CmdDel"
    by (rule del_loop_runs [OF holds_less [OF assms(1)]])
      (use that assms(2) in \<open>simp_all add: e cmd_cost_def cmd_adjacent_def CmdSet_def CmdDel_def lit_def\<close>)
  have set: "runs bt ok conf c w (doSet bt sys args db w) (spec_set (v_Str k) (v_Str v) m)"
    if "args = [k, v]" "ToUpper (v_Str name) = CmdSet" for k v
    unfolding that(1)
    by (rule doSet_runs [OF holds_less [OF assms(1)]]) (use that assms(2) in \<open>simp_all add: e cmd_cost_def cmd_adjacent_def\<close>)
  have D: "dispatch bt sys cmd db w =
    (if ToUpper (v_Str name) = CmdSet then doSet bt sys args db w
     else if ToUpper (v_Str name) = CmdGet then doGet bt args db w
     else if ToUpper (v_Str name) = CmdDel then doDel bt sys args db w
     else if ToUpper (v_Str name) = CmdScan then doScan bt sys args db w
     else if ToUpper (v_Str name) = CmdPing then ((doPing args, db), w)
     else ((ErrorValue (lit ''ERR unknown command '' @ quoted (v_Str name)), db), w))"
    using False e by (simp add: dispatch_def list_all_iff)
  consider (two) k v where "args = [k, v]" | (one) k where "args = [k]" | (none) "args = []"
    | (more) k v x xs where "args = k # v # x # xs"
    by (metis list.exhaust)
  then show ?thesis
  proof cases
    case two
    then show ?thesis
      using False e h set del doScan_runs [OF h, of sys k v]
      by (auto simp: D spec_cmd_def doGet_def doDel_def doPing_def arity_error_def CmdGet_def)
  next
    case one
    then show ?thesis
      using False e h del doGet_runs [OF h, of k]
      by (auto simp: D spec_cmd_def doSet_def doDel_def doScan_def doPing_def arity_error_def CmdSet_def CmdScan_def)
  next
    case none
    then show ?thesis
      using False e h
      by (auto simp: D spec_cmd_def doSet_def doGet_def doDel_def doScan_def doPing_def arity_error_def CmdSet_def CmdGet_def CmdDel_def CmdScan_def)
  next
    case more
    then show ?thesis
      using False e h del
      by (auto simp: D spec_cmd_def doSet_def doGet_def doDel_def doScan_def doPing_def arity_error_def CmdSet_def CmdGet_def CmdScan_def)
  qed
qed

end

lemma reached_holds:
  assumes "google_btree bt ok" "reached bt conf H db w" "length H + c < 2 ^ 30"
  shows "holds bt ok conf (kv_store H) c db w"
proof -
  obtain F es where I: "db_inv bt ok F es db w" "F @ map ent_version es = H" "db_conf db = conf"
    using google_btree.reached_inv [OF assms(1,2)] by blast
  then have "length F + length es = length H"
    by (metis length_append length_map)
  then show ?thesis
    unfolding holds_def using I assms(3) reached_seq(1) [OF assms(2)]
    by (intro conjI exI [of _ F] exI [of _ es]) simp_all
qed

lemma spec_del_known: "known (fst (spec_del args n m))"
  by (induction args arbitrary: n m) simp_all

lemma spec_cmd_known: "known (fst (spec_cmd cmd m))"
proof -
  have "known (spec_scan lower upper m)" for lower upper
    by (auto simp: spec_scan_def list_all_iff)
  then show ?thesis
    by (auto simp: spec_cmd_def spec_set_def arity_error_def spec_del_known split: list.splits option.splits)
qed

section \<open>A session\<close>

text \<open>The replies to a sequence of commands, and the map it leaves.\<close>

fun spec_session :: "Value list \<Rightarrow> (gostring \<rightharpoonup> bytes) \<Rightarrow> Value list \<times> (gostring \<rightharpoonup> bytes)" where
  "spec_session [] m = ([], m)"
| "spec_session (cmd # cmds) m =
     (case spec_cmd cmd m of (reply, m') \<Rightarrow> (case spec_session cmds m' of (replies, m'') \<Rightarrow> (reply # replies, m'')))"

lemma dispatch_keeps_conn:
  assumes "writer_ok b w" "outside conf w w1" "bw_path b \<noteq> WALPath conf" "\<not> in_dir (SSTDir conf) (bw_path b)"
  shows "writer_ok b w1" "fs_get w1 (bw_path b) = fs_get w (bw_path b)"
  using assms by (auto simp: writer_ok_def outside_def)

text \<open>A connection that is served: its writer works and its stream is none of the database's files.\<close>

definition conn_ok :: "Config \<Rightarrow> BufWriter \<Rightarrow> world \<Rightarrow> bool" where
  "conn_ok conf b w \<longleftrightarrow>
     writer_ok b w \<and> bw_buf b = [] \<and> bw_path b \<noteq> WALPath conf \<and> \<not> in_dir (SSTDir conf) (bw_path b)"

definition received :: "BufWriter \<Rightarrow> world \<Rightarrow> bytes" where
  "received b w = (case fs_get w (bw_path b) of None \<Rightarrow> [] | Some f \<Rightarrow> fdata f)"

context google_btree
begin

lemma one_command:
  assumes "holds bt ok conf m (cmd_cost cmd + c) db w" "conn_ok conf b w" "resp_Read r = Inr (cmd, r')"
    and "session_adjacent bt sys (cmd # cmds) b db w"
  shows "\<exists>b' db' w'. handleConn bt sys r b db w = handleConn bt sys r' b' db' w' \<and>
    holds bt ok conf (snd (spec_cmd cmd m)) c db' w' \<and> conn_ok conf b' w' \<and> bw_path b' = bw_path b \<and>
    session_adjacent bt sys cmds b' db' w' \<and>
    received b' w' = received b w @ encode (fst (spec_cmd cmd m))"
proof -
  let ?reply = "fst (spec_cmd cmd m)"
  obtain db1 w1 where d: "dispatch bt sys cmd db w = ((?reply, db1), w1)" "holds bt ok conf (snd (spec_cmd cmd m)) c db1 w1"
    "outside conf w w1"
    using dispatch_runs [OF assms(1), of sys] assms(4) by (auto simp: runs_def split: prod.splits)
  have C: "writer_ok b w" "bw_buf b = []" "bw_path b \<noteq> WALPath conf" "\<not> in_dir (SSTDir conf) (bw_path b)"
    using assms(2) by (auto simp: conn_ok_def)
  note K = dispatch_keeps_conn [OF C(1) d(3) C(3,4)]
  obtain f where f: "fs_get w1 (bw_path b) = Some f"
    using K(1) by (auto simp: writer_ok_def)
  obtain e b2 w2 where s: "resp_Write b ?reply w1 = ((e, b2), w2)"
    by (metis surj_pair)
  note W = Write_sent [OF K(1) C(2) spec_cmd_known s f]
  have no: "e = None" "faults w2 = []"
    using W(2) holds_env [OF d(2)] by simp_all
  have h: "holds bt ok conf (snd (spec_cmd cmd m)) c db1 w2"
    using holds_frame [OF d(2) W(1) no(2)] C(3,4) by simp
  have "conn_ok conf b2 w2" "bw_path b2 = bw_path b"
    using W(3) [OF no(1)] C by (simp_all add: conn_ok_def)
  moreover have "received b2 w2 = received b w @ encode ?reply"
    using W(4) no(1) calculation(2) f K(2) by (auto simp: received_def)
  moreover have "handleConn bt sys r b db w = handleConn bt sys r' b2 db1 w2"
    using assms(3) d(1) s no(1) by (subst handleConn.simps) simp
  moreover have "session_adjacent bt sys cmds b2 db1 w2"
    using assms(4) d(1) s by simp
  ultimately show ?thesis
    using h by blast
qed

lemma session_runs:
  assumes "holds bt ok conf m (sum_list (map cmd_cost cmds) + c) db w" "conn_ok conf b w" "list_all wf_value cmds"
    and "session_adjacent bt sys cmds b db w" "resp_Read r = Inl e" "e \<noteq> MakePanic"
  shows "\<exists>db' w'. handleConn bt sys (concat (map encode cmds) @ r) b db w = (ConnClosed, db', w') \<and>
    holds bt ok conf (snd (spec_session cmds m)) c db' w' \<and>
    received b w' = received b w @ concat (map encode (fst (spec_session cmds m)))"
  using assms(1-4)
proof (induction cmds arbitrary: m b db w)
  case Nil
  then show ?case
    using assms(5,6) by (simp add: handleConn.simps)
next
  case (Cons cmd cmds)
  have r: "resp_Read (concat (map encode (cmd # cmds)) @ r) = Inr (cmd, concat (map encode cmds) @ r)"
    using Read_encode [of cmd "concat (map encode cmds) @ r"] Cons.prems(3) by simp
  have h: "holds bt ok conf m (cmd_cost cmd + (sum_list (map cmd_cost cmds) + c)) db w"
    using Cons.prems(1) by (simp add: add.assoc)
  obtain b' db' w' where S: "handleConn bt sys (concat (map encode (cmd # cmds)) @ r) b db w =
      handleConn bt sys (concat (map encode cmds) @ r) b' db' w'"
    "holds bt ok conf (snd (spec_cmd cmd m)) (sum_list (map cmd_cost cmds) + c) db' w'" "conn_ok conf b' w'" "bw_path b' = bw_path b"
    "received b' w' = received b w @ encode (fst (spec_cmd cmd m))" "session_adjacent bt sys cmds b' db' w'"
    using one_command [OF h Cons.prems(2) r Cons.prems(4)] by blast
  have "received b w'' = received b' w''" for w''
    using S(4) by (simp add: received_def)
  then show ?case
    using Cons.IH [OF S(2,3) _ S(6)] Cons.prems(3) S(1,5) by (auto split: prod.splits)
qed

end

section \<open>Properties of the protocol\<close>

lemma wf_known: "wf_value v \<Longrightarrow> known v"
proof (induction v)
  case (RespValue ty str num els null)
  then show ?case
    by (auto simp: list_all_iff split: if_splits)
qed

definition sample_conn :: BufWriter where
  "sample_conn = bw_new (lit ''conn'') None"

definition with_conn :: "world \<Rightarrow> world" where
  "with_conn w = fs_put (lit ''conn'') \<lparr>fdata = [], durable = 0\<rparr> w"

lemma with_conn_ok:
  "conn_ok sample_conf sample_conn (with_conn w)" "received sample_conn (with_conn w) = []"
  "only_touches (lit ''conn'') w (with_conn w)" "faults (with_conn w) = faults w"
  by (simp_all add: conn_ok_def sample_conn_def with_conn_def bw_new_def writer_ok_def sample_conf_def DefaultConfig_def
      in_dir_def lit_def received_def only_touches_def fs_put_def fs_get_def update_conv')


definition sample_get :: Value where
  "sample_get = ArrayValue [BulkStringValue (lit ''get''), BulkStringValue [7]]"

definition sample_set :: Value where
  "sample_set = ArrayValue [BulkStringValue (lit ''SET''), BulkStringValue [7], BulkStringValue [2]]"

lemma sample_get_spec: "kv_store sample_history = [[7] \<mapsto> [1]]"
  "spec_cmd sample_get [[7] \<mapsto> v] = (BulkStringValue v, [[7] \<mapsto> v])" "cmd_cost sample_get = 2" "wf_value sample_get"
  "cmd_adjacent bt sample_get db w"
proof -
  show "kv_store sample_history = [[7] \<mapsto> [1]]"
    by (simp add: sample_history_def kv_store_def kv_write_def InternalKeyKindSet_def InternalKeyKindDelete_def)
  show "spec_cmd sample_get [[7] \<mapsto> v] = (BulkStringValue v, [[7] \<mapsto> v])"
    by (simp add: sample_get_def spec_cmd_def ArrayValue_def BulkStringValue_def type_bytes lit_def CmdSet_def CmdGet_def)
  show "cmd_cost sample_get = 2" "wf_value sample_get" "cmd_adjacent bt sample_get db w"
    by (simp_all add: sample_get_def cmd_cost_def cmd_adjacent_def ArrayValue_def BulkStringValue_def type_bytes lit_def maxAlloc_def
        CmdSet_def CmdDel_def)
qed

lemma sample_set_spec:
  "spec_cmd sample_set [[7] \<mapsto> [1]] = (SimpleStringValue (lit ''OK''), [[7] \<mapsto> [2]])" "cmd_cost sample_set = 3" "wf_value sample_set"
  "db_sstables db = [] \<Longrightarrow> cmd_adjacent bt sample_set db w"
proof -
  show "spec_cmd sample_set [[7] \<mapsto> [1]] = (SimpleStringValue (lit ''OK''), [[7] \<mapsto> [2]])"
    by (simp add: sample_set_def spec_cmd_def spec_set_def ArrayValue_def BulkStringValue_def type_bytes lit_def CmdSet_def
        MAX_KEY_LENGTH_def MAX_VALUE_LENGTH_def)
  show "cmd_cost sample_set = 3" "wf_value sample_set"
    by (simp_all add: sample_set_def cmd_cost_def ArrayValue_def BulkStringValue_def type_bytes lit_def maxAlloc_def)
  assume "db_sstables db = []"
  then have "length (db_sstables db) + 1 < DEFAULT_COMPACTION_THRESHOLD"
    by (simp add: DEFAULT_COMPACTION_THRESHOLD_def)
  from few_tables_adjacent(1) [OF this] show "cmd_adjacent bt sample_set db w"
    by (simp add: sample_set_def cmd_adjacent_def set_adjacent_def ArrayValue_def BulkStringValue_def CmdSet_def CmdDel_def lit_def)
qed

lemma sample_holds:
  "\<exists>db w. holds rbt_btree rbt_ok sample_conf [[7] \<mapsto> [1]] 100 db w \<and> db_sstables db = []"
proof -
  obtain db w where r: "reached rbt_btree sample_conf sample_history db w" "db_sstables db = []"
    using sample_reached by blast
  have "length sample_history = 1"
    by (simp add: sample_history_def)
  then show ?thesis
    using reached_holds [OF rbt.google_btree_axioms r(1), of 100] r(2) by (auto simp: sample_get_spec(1))
qed



lemma sample_session:
  "spec_session [sample_set, sample_get] [[7] \<mapsto> [1]] = ([SimpleStringValue (lit ''OK''), BulkStringValue [2]], [[7] \<mapsto> [2]])"
  "db_sstables db = [] \<Longrightarrow> session_adjacent bt sys [sample_set, sample_get] b db w"
  by (simp_all add: sample_set_spec sample_get_spec split: prod.splits)

lemma Read_Nil: "resp_Read [] = Inl (ReadErr EOF)"
  by (simp add: resp_Read.simps readLine_def ReadString_def)




text \<open>C13: A command that is cut off is not run. When a connection breaks inside a command, at any byte, the handler ends the
  connection and has neither changed the database nor sent anything.\<close>

theorem truncated_command_ignored:
  assumes "wf_value cmd" "prefix p (encode cmd)" "p \<noteq> encode cmd"
  shows "handleConn bt sys p b db w = (ConnClosed, db, w)"
  using Read_cut [OF assms] cut_no_panic [OF assms(1,2)] by (auto simp: handleConn.simps [of bt sys p])

theorem truncated_command_ignored_witness:
  "handleConn rbt_btree (\<lambda>_. []) (take 9 (encode sample_get)) sample_conn (empty_db rbt_btree sample_conf) (world_of []) =
     (ConnClosed, empty_db rbt_btree sample_conf, world_of [])"
proof -
  have "9 < length (encode sample_get)"
    by (simp add: sample_get_def ArrayValue_def BulkStringValue_def type_bytes lit_def crlf_def dec_nat_small)
  then have "take 9 (encode sample_get) \<noteq> encode sample_get"
    by (metis length_take min.strict_order_iff less_imp_neq min_less_iff_conj order_less_irrefl min.commute)
  from truncated_command_ignored [OF sample_get_spec(4) take_is_prefix this] show ?thesis .
qed

text \<open>C14: The parser returns only values of the protocol. From any bytes at all, what \<^verbatim>\<open>Read\<close> returns is a value whose type is
  one of the five, whose fields are those of its type, whose lines hold no line feed, whose sizes are within
  the limit of an allocation, and all of whose elements are such values; and bytes were consumed.\<close>

theorem parsed_values_wellformed:
  assumes "resp_Read s = Inr (v, r)"
  shows "wf_value v \<and> known v \<and> resp_Read (encode v @ r) = Inr (v, r) \<and> length r < length s"
  using Read_wf(1) [OF assms] wf_known Read_encode Read_shrinks(1) [OF assms] by blast

theorem parsed_values_wellformed_witness:
  "resp_Read (encode sample_get @ [1]) = Inr (sample_get, [1]) \<and> wf_value sample_get \<and> known sample_get"
  using parsed_values_wellformed [of "encode sample_get @ [1]" sample_get "[1]"] Read_encode [OF sample_get_spec(4), of "[1]"]
  by blast

section \<open>What a peer can do to the server\<close>

text \<open>A length header near the limit of 64 bits makes the parser allocate more than the runtime can give. The panic
  is not recovered, so it ends the process with all its connections.\<close>

lemma huge_length_panics:
  assumes "maxAlloc < int n + 2" "n < 2 ^ 63"
  shows "handleConn bt sys ([BulkString] @ dec_nat n @ crlf @ r) b db w = (ServerPanic, db, w)"
proof -
  have "Atoi (dec_nat n) = Inr (int n)"
    using ParseInt_dec_nat [OF assms(2)] by (simp add: Atoi_def)
  then have "resp_Read ([BulkString] @ dec_nat n @ crlf @ r) = Inl MakePanic"
    using assms(1) by (simp add: resp_Read.simps type_bytes)
  then show ?thesis
    by (simp add: handleConn.simps)
qed

text \<open>The two bytes after a bulk string are read and not looked at.\<close>

lemma bulk_terminator_unchecked:
  assumes "int (length s) + 2 \<le> maxAlloc"
  shows "resp_Read ([BulkString] @ dec_nat (length s) @ crlf @ s @ [x, y] @ r) = Inr (BulkStringValue s, r)"
proof -
  have "Atoi (dec_nat (length s)) = Inr (int (length s))"
    using assms by (intro Atoi_len) simp
  then show ?thesis
    using assms by (simp add: resp_Read.simps type_bytes BulkStringValue_def ReadFull_def nat_add_distrib)
qed

text \<open>The name of an unknown command goes into the error line as it is, so a name with a line break makes the peer
  read a second reply, here one that says \<^verbatim>\<open>OK\<close>.\<close>

definition split_name :: gostring where
  "split_name = lit ''X'' @ crlf @ lit ''+OK'' @ crlf"

lemma reply_splitting:
  assumes "dispatch bt sys (ArrayValue [BulkStringValue split_name]) db w = ((reply, db'), w')"
  shows "\<exists>line r1 r2. resp_Read (encode reply) = Inr (ErrorValue line, r1) \<and> resp_Read r1 = Inr (SimpleStringValue (lit ''OK''), r2)"
proof -
  have "reply = ErrorValue (lit ''ERR unknown command '' @ quoted split_name)"
    using assms by (simp add: dispatch_def ArrayValue_def BulkStringValue_def type_bytes split_name_def lit_def crlf_def
        CmdSet_def CmdGet_def CmdDel_def CmdScan_def CmdPing_def)
  moreover have "lit ''+OK'' = 43 # lit ''OK''"
    by (simp add: lit_def)
  ultimately have e: "encode reply = Error # (lit ''ERR unknown command '' @ [39] @ lit ''X'') @ crlf @
      encode (SimpleStringValue (lit ''OK'')) @ [39] @ crlf"
    by (simp add: ErrorValue_def SimpleStringValue_def type_bytes quoted_def split_name_def)
  have "readLine (encode reply) = Inr (Error # (lit ''ERR unknown command '' @ [39] @ lit ''X''),
      encode (SimpleStringValue (lit ''OK'')) @ [39] @ crlf)"
    unfolding e by (rule readLine_type) (simp_all add: type_bytes lit_def)
  then have "resp_Read (encode reply) =
      Inr (ErrorValue (lit ''ERR unknown command '' @ [39] @ lit ''X''), encode (SimpleStringValue (lit ''OK'')) @ [39] @ crlf)"
    by (simp add: resp_Read.simps type_bytes ErrorValue_def)
  moreover have "wf_value (SimpleStringValue (lit ''OK''))"
    by (simp add: SimpleStringValue_def lit_def)
  ultimately show ?thesis
    using Read_encode by blast
qed

end
