(* ===== verification/Hcdb_Main.thy ===== *)
theory Hcdb_Main
  imports Server_Correct
begin

text \<open>
  Model of the command \<^verbatim>\<open>hcdb-server\<close>: where the environment says the data lives, opening the database,
  serving, and closing. What the connections of one life of the server do to the database is the argument
  \<open>serve\<close>, with the result of \<^verbatim>\<open>Serve\<close>. The lemmas show that the paths it chooses satisfy what the database
  relies on, that a clean exit keeps everything, and that a fatal exit does not.
\<close>

section \<open>Definitions\<close>

definition getenv :: "(gostring \<Rightarrow> gostring) \<Rightarrow> gostring \<Rightarrow> gostring \<Rightarrow> gostring" where
  "getenv env key fallback = (let v = env key in if v \<noteq> [] then v else fallback)"

text \<open>\<^verbatim>\<open>filepath.Clean\<close> and \<^verbatim>\<open>filepath.Join\<close> on Unix, component by component.\<close>

fun path_split :: "gostring \<Rightarrow> gostring \<Rightarrow> gostring list" where
  "path_split [] acc = [acc]"
| "path_split (c # s) acc = (if c = 47 then acc # path_split s [] else path_split s (acc @ [c]))"

fun clean_comps :: "bool \<Rightarrow> gostring list \<Rightarrow> gostring list \<Rightarrow> gostring list" where
  "clean_comps rooted [] out = out"
| "clean_comps rooted (c # cs) out =
     (if c = [] \<or> c = lit ''.'' then clean_comps rooted cs out
      else if c = lit ''..'' then
        (if out \<noteq> [] \<and> last out \<noteq> lit ''..'' then clean_comps rooted cs (butlast out)
         else if rooted then clean_comps rooted cs out
         else clean_comps rooted cs (out @ [c]))
      else clean_comps rooted cs (out @ [c]))"

fun path_join :: "gostring list \<Rightarrow> gostring" where
  "path_join [] = []"
| "path_join [c] = c"
| "path_join (c # d # cs) = c @ [47] @ path_join (d # cs)"

definition Clean :: "gostring \<Rightarrow> gostring" where
  "Clean p =
     (let rooted = (p \<noteq> [] \<and> p ! 0 = 47);
          out = (if rooted then [47] else []) @ path_join (clean_comps rooted (path_split p []) [])
      in if out = [] then lit ''.'' else out)"

definition Join :: "gostring \<Rightarrow> gostring \<Rightarrow> gostring" where
  "Join a b = (if a = [] \<and> b = [] then [] else if a = [] then Clean b else if b = [] then Clean a else Clean (a @ [47] @ b))"

definition main_config :: "gostring \<Rightarrow> Config" where
  "main_config dataDir = \<lparr>WALPath = Join dataDir (lit ''server.wal''), SSTDir = Join dataDir (lit ''server-sstables'')\<rparr>"

text \<open>
  The exit code and the world left behind. \<^verbatim>\<open>log.Fatalf\<close> ends the process at once, so that the deferred
  \<^verbatim>\<open>Close\<close> runs only after \<^verbatim>\<open>Serve\<close> returned no error; its own error is dropped.
\<close>

definition server_main ::
  "'t btree \<Rightarrow> (gostring \<Rightarrow> gostring) \<Rightarrow> (gostring \<Rightarrow> 't DB \<Rightarrow> world \<Rightarrow> go_error option \<times> 't DB \<times> world) \<Rightarrow> world \<Rightarrow> nat \<times> world" where
  "server_main bt env serve w =
     (let addr = getenv env (lit ''HCDB_ADDR'') (lit '':6380'');
          dataDir = getenv env (lit ''HCDB_DATA_DIR'') (lit ''assets'')
      in case db_Open bt (main_config dataDir) w of
           (Inl e, w1) \<Rightarrow> (1, w1)
         | (Inr database, w1) \<Rightarrow>
             (case serve addr database w1 of
                (Some e, _, w2) \<Rightarrow> (1, w2)
              | (None, database', w2) \<Rightarrow> (0, snd (db_Close database' w2))))"

section \<open>The paths\<close>

lemma path_split_snoc:
  "47 \<notin> set x \<Longrightarrow> path_split (p @ 47 # x) acc = path_split p acc @ [x]"
proof (induction p arbitrary: acc)
  case Nil
  have "path_split x a = [a @ x]" if "47 \<notin> set x" for a
    using that by (induction x arbitrary: a) auto
  then show ?case
    using Nil by simp
qed auto

lemma clean_comps_append: "clean_comps r (cs @ ds) out = clean_comps r ds (clean_comps r cs out)"
  by (induction r cs out rule: clean_comps.induct) auto

lemma path_join_snoc: "path_join (cs @ [x]) = (if cs = [] then x else path_join cs @ [47] @ x)"
  by (induction cs rule: path_join.induct) auto

text \<open>Joining a plain file name appends it to a prefix that depends on the directory only.\<close>

lemma Join_plain:
  "\<exists>q. \<forall>x. x \<noteq> [] \<and> x \<noteq> lit ''.'' \<and> x \<noteq> lit ''..'' \<and> 47 \<notin> set x \<longrightarrow> Join d x = q @ x"
proof -
  define r where "r = (d \<noteq> [] \<and> d ! 0 = 47)"
  define cs where "cs = (if d = [] then [] else clean_comps r (path_split d []) [])"
  define q where "q = (if r then [47] else []) @ (if cs = [] then [] else path_join cs @ [47])"
  have "Join d x = q @ x" if x: "x \<noteq> []" "x \<noteq> lit ''.''" "x \<noteq> lit ''..''" "47 \<notin> set x" for x
  proof (cases "d = []")
    case True
    have "path_split x [] = [x]" "x ! 0 \<noteq> 47"
      using path_split_snoc [of x "[]" "[]"] x by (simp, metis length_greater_0_conv nth_mem)
    then show ?thesis
      using x True by (simp add: Join_def Clean_def q_def r_def cs_def)
  next
    case False
    then have "(d @ 47 # x) ! 0 = d ! 0"
      by (cases d) simp_all
    then show ?thesis
      using x False path_join_snoc [of cs x]
      by (simp add: Join_def Clean_def Let_def path_split_snoc clean_comps_append q_def r_def cs_def)
  qed
  then show ?thesis
    by blast
qed

text \<open>Whatever the data directory is called, the log is not among the table files.\<close>

lemma main_config_apart: "\<not> in_dir (SSTDir (main_config dataDir)) (WALPath (main_config dataDir))"
proof -
  obtain q where "Join dataDir (lit ''server.wal'') = q @ lit ''server.wal''"
    "Join dataDir (lit ''server-sstables'') = q @ lit ''server-sstables''"
    using Join_plain [of dataDir] by (auto simp: lit_def)
  then have "length (WALPath (main_config dataDir)) < length (SSTDir (main_config dataDir))"
    by (simp add: main_config_def lit_def)
  then show ?thesis
    unfolding in_dir_def by (metis add_lessD1 append_take_drop_id leD le_add1 length_append)
qed

lemma main_empty_disk:
  "files w = [] \<Longrightarrow> faults w = [] \<Longrightarrow> inj (clock w) \<Longrightarrow> empty_disk (main_config dataDir) w"
  using main_config_apart by (simp add: empty_disk_def)

section \<open>How the process ends\<close>

text \<open>After a clean exit the next life of the server serves everything.\<close>

lemma clean_exit_keeps_everything:
  assumes "conf = main_config (getenv env (lit ''HCDB_DATA_DIR'') (lit ''assets''))"
    and "google_btree bt ok" "db_Open bt conf w = (Inr db1, w1)"
    and "serve (getenv env (lit ''HCDB_ADDR'') (lit '':6380'')) db1 w1 = (None, db, w2)"
    and "db_conf db = conf"
    and "db_inv bt ok F es db w2" "names_newest_first (SSTDir conf) (db_sstables db)"
  shows "\<exists>w3. server_main bt env serve w = (0, w3) \<and>
    (\<forall>w'. crash_of w3 w' \<longrightarrow> (\<exists>db' w''. db_Open bt conf w' = (Inr db', w'') \<and> serves bt (F @ map ent_version es) db' w''))"
proof -
  obtain db2 w3 where C: "db_Close db w2 = ((None, db2), w3)" "db_conf db2 = conf" "db_sstables db2 = db_sstables db"
    "db_inv bt ok F es (db2\<lparr>db_wal := (db_wal db2)\<lparr>putCounter := 0\<rparr>\<rparr>) w3"
    using google_btree.Close_inv [OF assms(2,6)] assms(5) by auto
  have "server_main bt env serve w = (0, w3)"
    using assms(1,3,4) C(1) by (simp add: server_main_def Let_def)
  moreover have "\<exists>db' w''. db_Open bt conf w' = (Inr db', w'') \<and> serves bt (F @ map ent_version es) db' w''"
    if c: "crash_of w3 w'" for w'
    using google_btree.recover [OF assms(2) C(4) c] assms(7) C(2,3) by auto
  ultimately show ?thesis
    by blast
qed

text \<open>
  A write sits in the buffer of the log after it was acknowledged. When \<^verbatim>\<open>Serve\<close> then returns an error,
  the process ends without closing the database: no crash of the machine is needed to lose the write.
\<close>

lemma Put_buffered:
  "\<exists>db'. Put bt [7] [1] (empty_db bt conf) w = ((None, db'), w)"
  by (simp add: Put_def empty_db_def encodeNextKey_def Let_def wal_Put_def wal_write_def Append_def wal_buf_write_def bw_Write_def
      bw_Write_fit_def bw_new_def bw_Available_def bw_size_def writeDataBuff_def length_encode_key MakeInternalKey_def
      MAX_KEY_LENGTH_def MAX_VALUE_LENGTH_def DEFAULT_SYNC_THRESHOLD_def flushIfFullLocked_def memtable_Size_def memtable_Put_def
      memtable_insert_def NewMemTable_def DEFAULT_MEMTABLE_FLUSH_SIZE_def)

definition put_then_fail :: "'t btree \<Rightarrow> gostring \<Rightarrow> 't DB \<Rightarrow> world \<Rightarrow> go_error option \<times> 't DB \<times> world" where
  "put_then_fail bt addr db w = (case Put bt [7] [1] db w of ((None, db'), w') \<Rightarrow> (Some (ErrMsg []), db', w') | ((Some e, db'), w') \<Rightarrow> (None, db', w'))"

lemma fatal_exit_loses_write:
  assumes "empty_disk (main_config (getenv env (lit ''HCDB_DATA_DIR'') (lit ''assets''))) w" (is "empty_disk ?conf w")
  shows "\<exists>w1. db_Open bt ?conf w = (Inr (empty_db bt ?conf), w1) \<and> server_main bt env (put_then_fail bt) w = (1, w1)"
proof -
  obtain w1 where o: "db_Open bt ?conf w = (Inr (empty_db bt ?conf), w1)"
    using Open_empty_db [OF assms] by blast
  moreover obtain db' where "Put bt [7] [1] (empty_db bt ?conf) w1 = ((None, db'), w1)"
    using Put_buffered by blast
  ultimately show ?thesis
    by (simp add: server_main_def Let_def put_then_fail_def)
qed

end
