(* ===== verification/Server_Lifecycle.thy ===== *)
theory Server_Lifecycle
  imports Server
begin

text \<open>
  The life of a server under every interleaving of the accept loop, the handlers, the closing goroutine
  and the peers: the invariant of the registry and the wait group, what holds when \<^verbatim>\<open>Serve\<close> returns, that
  shutdown completes, and the one interleaving in which it does not.
\<close>

section \<open>The life of a server\<close>

inductive_cases own_stepE: "own_step s s'"
inductive_cases outside_stepE: "outside_step s s'"

text \<open>
  The wait group counts the handlers; the registry holds the connections whose handler has not removed
  them yet, and the one about to get a handler; the listener is closed only by the closing goroutine
  after the context was cancelled.
\<close>

definition server_inv :: "Server \<Rightarrow> bool" where
  "server_inv s \<longleftrightarrow>
     finite (dom (srv_handlers s)) \<and> srv_wg s = card (dom (srv_handlers s)) \<and>
     srv_conns s = {c. srv_handlers s c \<in> {Some Handling, Some Handled} \<or> srv_loop s = Registered c} \<and>
     (\<forall>c. srv_loop s \<in> {Accepted c, Registered c} \<longrightarrow> srv_handlers s c = None) \<and>
     (srv_listening s \<longleftrightarrow> srv_closer s = AwaitDone) \<and> (srv_closer s \<notin> {NotStarted, AwaitDone} \<longrightarrow> srv_cancelled s) \<and>
     (srv_closer s = NotStarted \<longleftrightarrow> srv_listener s = None) \<and>
     (srv_closer s = NotStarted \<longrightarrow> (\<exists>e. srv_loop s \<in> {Listening, Returned (Some e)})) \<and>
     (srv_loop s = Listening \<longrightarrow> srv_closer s = NotStarted) \<and>
     (srv_loop s \<in> {Waiting, Returned None} \<longrightarrow> \<not> srv_listening s) \<and>
     (srv_loop s = Returned None \<longrightarrow> dom (srv_handlers s) = {})"

lemmas server_defs = addConn_def removeConn_def closeAllConns_def

lemma server_inv_New: "server_inv server_New"
  by (simp add: server_inv_def server_New_def)

lemma dom_keep: "h c = Some x \<Longrightarrow> insert c (dom h) = dom h"
  by auto

lemma own_inv_step:
  assumes "own_step s s'" "server_inv s"
  shows "server_inv s'"
  using assms
proof (cases rule: own_step.cases)
  case (spawn conn)
  then have "srv_handlers s conn = None"
    using assms(2) by (auto simp: server_inv_def)
  then have "card (insert conn (dom (srv_handlers s))) = card (dom (srv_handlers s)) + 1"
    using assms(2) by (subst card_insert_disjoint) (auto simp: server_inv_def dom_def)
  then show ?thesis
    using spawn assms(2) by (auto simp: server_inv_def split: if_splits)
next
  case (wg_done conn)
  then show ?thesis
    using assms(2) by (auto simp: server_inv_def card_Diff_singleton_if)
qed (auto simp: server_inv_def server_defs dom_keep)

lemma outside_inv_step: "outside_step s s' \<Longrightarrow> server_inv s \<Longrightarrow> server_inv s'"
  by (erule outside_stepE) (auto simp: server_inv_def dom_keep)

lemma server_inv_step: "server_step s s' \<Longrightarrow> server_inv s \<Longrightarrow> server_inv s'"
  unfolding server_step_def using own_inv_step outside_inv_step by blast

lemma reaches_inv: "server_reaches s \<Longrightarrow> server_inv s"
proof -
  have "rtranclp server_step server_New s \<Longrightarrow> server_inv s"
    by (induction rule: rtranclp_induct) (auto intro: server_inv_New server_inv_step)
  then show "server_reaches s \<Longrightarrow> server_inv s"
    by (simp add: server_reaches_def)
qed

lemma reaches_step: "server_reaches s \<Longrightarrow> server_step s s' \<Longrightarrow> server_reaches s'"
  by (simp add: server_reaches_def rtranclp.rtrancl_into_rtrancl)

lemma reaches_steps: "server_reaches s \<Longrightarrow> rtranclp server_step s s' \<Longrightarrow> server_reaches s'"
  by (simp add: server_reaches_def)

lemma steps [intro]: "own_step s s' \<Longrightarrow> server_step s s'" "outside_step s s' \<Longrightarrow> server_step s s'"
  by (simp_all add: server_step_def)

text \<open>\<^verbatim>\<open>Addr\<close> gives an address from when \<^verbatim>\<open>Serve\<close> listens on, and keeps giving it.\<close>

lemma Addr_listening:
  assumes "server_reaches s"
  shows "Addr s = None \<longleftrightarrow> srv_closer s = NotStarted"
    and "server_step s s' \<Longrightarrow> Addr s = Some a \<Longrightarrow> Addr s' = Some a"
proof -
  have I: "server_inv s"
    by (rule reaches_inv [OF assms])
  then show "Addr s = None \<longleftrightarrow> srv_closer s = NotStarted"
    by (simp add: server_inv_def Addr_def)
  assume "server_step s s'" "Addr s = Some a"
  then show "Addr s' = Some a"
    using I by (auto simp: server_step_def Addr_def server_inv_def server_defs elim!: own_stepE outside_stepE)
qed

text \<open>C15: \<^verbatim>\<open>Serve\<close> does not abandon connections. In every reachable state the wait group counts the handlers that
  have not finished and the registry holds their connections, so that when \<^verbatim>\<open>Serve\<close> returns without an
  error the context was cancelled, the listener is closed, no handler is left and the registry is empty.\<close>

theorem serve_returns_last:
  assumes "server_reaches s"
  shows "srv_wg s = card (dom (srv_handlers s)) \<and> {c. srv_handlers s c = Some Handling} \<subseteq> srv_conns s \<and>
    (srv_loop s = Returned None \<longrightarrow>
      srv_cancelled s \<and> \<not> srv_listening s \<and> srv_wg s = 0 \<and> dom (srv_handlers s) = {} \<and> srv_conns s = {})"
  using reaches_inv [OF assms] by (auto simp: server_inv_def)

text \<open>A server that listens, and one whose context was cancelled and whose accept loop has ended.\<close>

definition listening_server :: Server where
  "listening_server = server_New\<lparr>srv_listener := Some (lit '':6380''), srv_listening := True, srv_closer := AwaitDone, srv_loop := Accepting\<rparr>"

lemma listening_reached: "server_reaches listening_server"
  unfolding server_reaches_def listening_server_def
  by (rule r_into_rtranclp, rule steps(2), rule listen) (simp add: server_New_def)

definition done_server :: Server where
  "done_server = listening_server\<lparr>srv_cancelled := True, srv_listening := False, srv_closer := ListenerClosed, srv_loop := Returned None\<rparr>"

theorem serve_returns_last_witness: "server_reaches done_server \<and> srv_conns done_server = {}"
proof -
  let ?s1 = "listening_server\<lparr>srv_cancelled := True\<rparr>"
  let ?s2 = "?s1\<lparr>srv_listening := False, srv_closer := ListenerClosed\<rparr>"
  let ?s3 = "?s2\<lparr>srv_loop := Waiting\<rparr>"
  have "outside_step listening_server ?s1" "own_step ?s1 ?s2" "own_step ?s2 ?s3" "own_step ?s3 done_server"
    using cancel [of listening_server] close_listener [of ?s1] accept_closed [of ?s2] wait_over [of ?s3]
    by (simp_all add: listening_server_def server_New_def done_server_def)
  then have "server_reaches done_server"
    by (meson reaches_step steps listening_reached)
  from serve_returns_last [OF this] this show ?thesis
    by (simp add: done_server_def)
qed

text \<open>A server on its way down: nothing is accepted any more and no handler waits, or will wait, on an open connection.\<close>

definition draining :: "Server \<Rightarrow> bool" where
  "draining s \<longleftrightarrow>
     \<not> srv_listening s \<and> srv_closer s = ConnsClosed \<and> (\<exists>c. srv_loop s \<in> {Registered c, Accepting, Waiting, Returned None}) \<and>
     (\<forall>c. srv_loop s = Registered c \<longrightarrow> c \<notin> srv_open s) \<and>
     (\<forall>c. srv_handlers s c = Some Handling \<longrightarrow> c \<notin> srv_open s)"

lemma draining_step: "server_step s s' \<Longrightarrow> draining s \<Longrightarrow> draining s'"
  unfolding server_step_def
  by (auto simp: draining_def server_defs split: if_splits elim!: own_stepE outside_stepE)

lemma draining_steps: "rtranclp server_step s t \<Longrightarrow> draining s \<Longrightarrow> draining t"
  by (induction rule: rtranclp_induct) (auto intro: draining_step)

text \<open>How many steps are left: three for each handler and those of the accept loop.\<close>

definition pc_rank :: "handler_pc \<Rightarrow> nat" where
  "pc_rank pc = (case pc of Handling \<Rightarrow> 3 | Handled \<Rightarrow> 2 | Removed \<Rightarrow> 1)"

definition handlers_rank :: "(nat \<rightharpoonup> handler_pc) \<Rightarrow> nat" where
  "handlers_rank h = (\<Sum>c \<in> dom h. pc_rank (the (h c)))"

definition shutdown_rank :: "Server \<Rightarrow> nat" where
  "shutdown_rank s = handlers_rank (srv_handlers s) + (case srv_loop s of Registered _ \<Rightarrow> 6 | Accepting \<Rightarrow> 2 | Waiting \<Rightarrow> 1 | _ \<Rightarrow> 0)"

lemma handlers_rank_remove:
  assumes "finite (dom h)" "h c = Some pc"
  shows "handlers_rank h = pc_rank pc + handlers_rank (h(c := None))"
    and "handlers_rank (h(c \<mapsto> pc')) = pc_rank pc' + handlers_rank (h(c := None))"
proof -
  have c: "c \<in> dom h" and d: "dom (h(c \<mapsto> pc')) = dom h" "dom (h(c := None)) = dom h - {c}"
    using assms(2) by auto
  have rest: "(\<Sum>x \<in> dom h - {c}. pc_rank (the ((h(c := y)) x))) = (\<Sum>x \<in> dom h - {c}. pc_rank (the (h x)))" for y
    by (rule sum.cong) auto
  show "handlers_rank h = pc_rank pc + handlers_rank (h(c := None))"
    "handlers_rank (h(c \<mapsto> pc')) = pc_rank pc' + handlers_rank (h(c := None))"
    unfolding handlers_rank_def d sum.remove [OF assms(1) c] rest using assms(2) by simp_all
qed

lemma handlers_rank_new:
  assumes "finite (dom h)" "h c = None"
  shows "handlers_rank (h(c \<mapsto> Handling)) = handlers_rank h + 3"
proof -
  have "h(c := None) = h"
    using assms(2) by auto
  then show ?thesis
    using handlers_rank_remove(1) [of "h(c \<mapsto> Handling)" c Handling] assms by (simp add: pc_rank_def)
qed

lemma handlers_rank_le:
  assumes "finite (dom h)"
  shows "handlers_rank h \<le> 3 * card (dom h)"
proof -
  have "handlers_rank h \<le> (\<Sum>c \<in> dom h. 3)"
    unfolding handlers_rank_def by (rule sum_mono) (simp add: pc_rank_def split: handler_pc.splits)
  then show ?thesis
    by simp
qed

lemma handler_rank_step:
  assumes "finite (dom h)" "h c = Some pc"
  shows "pc = Handling \<Longrightarrow> handlers_rank h = handlers_rank (h(c \<mapsto> Handled)) + 1"
    and "pc = Handled \<Longrightarrow> handlers_rank h = handlers_rank (h(c \<mapsto> Removed)) + 1"
    and "pc = Removed \<Longrightarrow> handlers_rank h = handlers_rank (h(c := None)) + 1"
  using handlers_rank_remove [OF assms] by (simp_all add: pc_rank_def)

text \<open>Each step of a server on its way down is one of them.\<close>

lemma shutdown_rank_step:
  assumes "own_step s s'" "server_inv s" "draining s"
  shows "shutdown_rank s = shutdown_rank s' + 1"
proof -
  have "finite (dom (srv_handlers s))"
    using assms(2) by (simp add: server_inv_def)
  note R = handler_rank_step [OF this] and N = handlers_rank_new [OF this]
  have "srv_handlers s c = None" if "srv_loop s = Registered c" for c
    using assms(2) that by (simp add: server_inv_def)
  with assms(1) show ?thesis
    using assms(3) by (cases rule: own_step.cases) (auto simp: shutdown_rank_def draining_def server_defs N dest: R)
qed

text \<open>Such a server can take a step until \<^verbatim>\<open>Serve\<close> has returned.\<close>

lemma draining_progress:
  assumes "server_inv s" "draining s" "srv_loop s \<noteq> Returned None"
  shows "\<exists>s'. own_step s s'"
proof (cases "dom (srv_handlers s) = {}")
  case False
  then obtain c pc where "srv_handlers s c = Some pc"
    by (meson domD ex_in_conv)
  then show ?thesis
    using assms(2) by (cases pc) (auto simp: draining_def intro: read_closed remove wg_done)
next
  case True
  then have "srv_wg s = 0"
    using assms(1) by (simp add: server_inv_def)
  then show ?thesis
    using assms(2,3) by (auto simp: draining_def intro: accept_closed wait_over spawn)
qed

lemma draining_run:
  assumes "(own_step ^^ n) t u" "server_inv t" "draining t"
  shows "server_inv u \<and> draining u \<and> shutdown_rank t = shutdown_rank u + n"
  using assms
proof (induction n arbitrary: u)
  case (Suc n)
  then obtain v where v: "(own_step ^^ n) t v" "own_step v u"
    by auto
  show ?case
    using Suc.IH [OF v(1) Suc.prems(2,3)] shutdown_rank_step [OF v(2)] server_inv_step [OF steps(1) [OF v(2)]]
      draining_step [OF steps(1) [OF v(2)]] by simp
qed simp

lemma draining_finishes:
  assumes "server_inv s" "draining s"
  shows "\<exists>u. rtranclp own_step s u \<and> srv_loop u = Returned None"
  using assms
proof (induction "shutdown_rank s" arbitrary: s rule: less_induct)
  case less
  show ?case
  proof (cases "srv_loop s = Returned None")
    case False
    then obtain s' where s': "own_step s s'"
      using draining_progress [OF less.prems] by blast
    then have "\<exists>u. rtranclp own_step s' u \<and> srv_loop u = Returned None"
      using shutdown_rank_step [OF s' less.prems] server_inv_step [OF steps(1) [OF s'] less.prems(1)]
        draining_step [OF steps(1) [OF s'] less.prems(2)] by (intro less.hyps) simp_all
    then show ?thesis
      using s' by (meson converse_rtranclp_into_rtranclp)
  qed blast
qed

lemma closed_drains:
  assumes "server_reaches s" "srv_closer s = ListenerClosed" "\<forall>c e. srv_loop s \<notin> {Accepted c, Returned (Some e)}"
  shows "draining (closeAllConns (s\<lparr>srv_closer := ConnsClosed\<rparr>))"
  using reaches_inv [OF assms(1)] assms(2,3)
  by (cases "srv_loop s") (auto simp: draining_def server_inv_def closeAllConns_def)

text \<open>C16: Shutdown completes. Let the closing goroutine close the connections while the accept loop is not between \<^verbatim>\<open>Accept\<close> and
  the registration of a new connection and has not ended with an error. Then in every state that can
  follow the server finishes by its own steps, in whatever order it takes them and without any step of a
  peer: it takes at most three steps for each handler the wait group counts and six more, it is never stuck before
  \<^verbatim>\<open>Serve\<close> has returned without an error, and so it returns. Idle connections do not hold it up.\<close>

theorem shutdown_completes:
  assumes "server_reaches s" "srv_closer s = ListenerClosed" "\<forall>c e. srv_loop s \<notin> {Accepted c, Returned (Some e)}"
    and "rtranclp server_step (closeAllConns (s\<lparr>srv_closer := ConnsClosed\<rparr>)) t"
  shows "(\<forall>n u. (own_step ^^ n) t u \<longrightarrow>
      n \<le> 3 * srv_wg t + 6 \<and> (srv_loop u = Returned None \<or> (\<exists>v. own_step u v))) \<and>
    (\<exists>u. rtranclp own_step t u \<and> srv_loop u = Returned None)"
proof -
  have "server_reaches t"
    using reaches_steps [OF reaches_step [OF assms(1) steps(1) [OF close_conns [OF assms(2)]]] assms(4)] .
  then have I: "server_inv t" and D: "draining t"
    using reaches_inv draining_steps [OF assms(4) closed_drains [OF assms(1-3)]] by blast+
  have "shutdown_rank t \<le> 3 * srv_wg t + 6"
    using handlers_rank_le [of "srv_handlers t"] I
    by (simp add: shutdown_rank_def server_inv_def split: serve_pc.splits)
  then show ?thesis
    using draining_run [OF _ I D] draining_progress draining_finishes [OF I D] by fastforce
qed

text \<open>A server with one idle connection whose context was cancelled and whose listener is closed.\<close>

definition idle_server :: Server where
  "idle_server = \<lparr>srv_listener = Some (lit '':6380''), srv_conns = {0}, srv_wg = 1, srv_listening = False, srv_cancelled = True,
     srv_open = {0}, srv_loop = Accepting, srv_closer = ListenerClosed, srv_handlers = [0 \<mapsto> Handling]\<rparr>"

lemma idle_reached: "server_reaches idle_server"
proof -
  let ?s1 = "listening_server\<lparr>srv_open := {0}, srv_loop := Accepted 0\<rparr>"
  let ?s2 = "?s1\<lparr>srv_conns := {0}, srv_loop := Registered 0\<rparr>"
  let ?s3 = "?s2\<lparr>srv_wg := 1, srv_handlers := [0 \<mapsto> Handling], srv_loop := Accepting\<rparr>"
  let ?s4 = "?s3\<lparr>srv_cancelled := True\<rparr>"
  have "outside_step listening_server ?s1" "own_step ?s1 ?s2" "own_step ?s2 ?s3" "outside_step ?s3 ?s4" "own_step ?s4 idle_server"
    using accept [of listening_server 0] register [of ?s1 0] spawn [of ?s2 0] cancel [of ?s3] close_listener [of ?s4]
    by (simp_all add: listening_server_def server_New_def addConn_def idle_server_def)
  then show ?thesis
    by (meson reaches_step steps listening_reached)
qed

theorem shutdown_completes_witness:
  "server_reaches idle_server \<and>
   (\<exists>u. rtranclp own_step (closeAllConns (idle_server\<lparr>srv_closer := ConnsClosed\<rparr>)) u \<and> srv_loop u = Returned None)"
  using shutdown_completes [OF idle_reached _ _ rtranclp.rtrancl_refl] idle_reached by (simp add: idle_server_def)

text \<open>
  The accept loop can hold a connection that is not registered yet when the connections are closed. It
  is then registered and served after the shutdown began, and \<^verbatim>\<open>Serve\<close> waits for as long as its peer keeps
  it open, contrary to the comment on \<^verbatim>\<open>Serve\<close>.
\<close>

definition late_server :: Server where
  "late_server = \<lparr>srv_listener = Some (lit '':6380''), srv_conns = {0}, srv_wg = 1, srv_listening = False, srv_cancelled = True,
     srv_open = {0}, srv_loop = Waiting, srv_closer = ConnsClosed, srv_handlers = [0 \<mapsto> Handling]\<rparr>"

lemma late_reached: "server_reaches late_server"
proof -
  let ?s1 = "listening_server\<lparr>srv_open := {0}, srv_loop := Accepted 0\<rparr>"
  let ?s2 = "?s1\<lparr>srv_cancelled := True\<rparr>"
  let ?s3 = "?s2\<lparr>srv_listening := False, srv_closer := ListenerClosed\<rparr>"
  let ?s4 = "?s3\<lparr>srv_closer := ConnsClosed\<rparr>"
  let ?s5 = "?s4\<lparr>srv_conns := {0}, srv_loop := Registered 0\<rparr>"
  let ?s6 = "?s5\<lparr>srv_wg := 1, srv_handlers := [0 \<mapsto> Handling], srv_loop := Accepting\<rparr>"
  have "outside_step listening_server ?s1" "outside_step ?s1 ?s2" "own_step ?s2 ?s3" "own_step ?s3 ?s4"
    "own_step ?s4 ?s5" "own_step ?s5 ?s6" "own_step ?s6 late_server"
    using accept [of listening_server 0] cancel [of ?s1] close_listener [of ?s2] close_conns [of ?s3] register [of ?s4 0] spawn [of ?s5 0]
      accept_closed [of ?s6]
    by (simp_all add: listening_server_def server_New_def server_defs late_server_def)
  then show ?thesis
    by (meson reaches_step steps listening_reached)
qed

lemma late_connection_blocks_shutdown:
  assumes "rtranclp server_step late_server t" "0 \<in> srv_open t"
  shows "srv_loop t = Waiting"
proof -
  have "0 \<in> srv_open t \<and> srv_handlers t 0 = Some Handling \<and> srv_loop t = Waiting \<or>
    0 \<notin> srv_open t \<and> srv_loop t \<in> {Waiting, Returned None}"
    using assms(1)
  proof (induction rule: rtranclp_induct)
    case base
    then show ?case by (simp add: late_server_def)
  next
    case (step s s')
    have "server_inv s"
      using reaches_inv [OF reaches_steps [OF late_reached step.hyps(1)]] .
    then have "srv_handlers s 0 = Some Handling \<Longrightarrow> srv_wg s \<noteq> 0"
      by (auto simp: server_inv_def)
    then show ?case
      using step.IH step.hyps(2)
      by (auto simp: server_step_def server_defs late_server_def server_inv_def intro!: gr0I elim!: own_stepE outside_stepE)
  qed
  then show ?thesis
    using assms(2) by auto
qed

end
