(* ===== verification/Fault_Injection.thy ===== *)
theory Fault_Injection
  imports Go_IO "HOL-Library.Sublist"
begin

text \<open>
  Model of the package \<^verbatim>\<open>faultinjection\<close>, the writer that the crash tests put between a component and its
  file. It works over any \<^verbatim>\<open>io.Writer\<close>; the locale states the contract of that interface. The lemmas show
  that the faulty writer keeps the contract itself and lets through exactly the first bytes up to its
  limit, so that what it leaves behind is a torn write.
\<close>

section \<open>Definitions\<close>

text \<open>A writer in state \<open>'s\<close>: the number of bytes it took and its error.\<close>

type_synonym 's io_write = "bytes \<Rightarrow> 's \<Rightarrow> (int \<times> go_error option) \<times> 's"

record 's FaultyWriter =
  fw_w :: 's
  fw_written :: int
  FailAfter :: int

definition NewFaultyWriter :: "'s \<Rightarrow> int \<Rightarrow> 's FaultyWriter" where
  "NewFaultyWriter w failAfter = \<lparr>fw_w = w, fw_written = 0, FailAfter = failAfter\<rparr>"

definition FaultyWriter_Write :: "'s io_write \<Rightarrow> 's FaultyWriter io_write" where
  "FaultyWriter_Write sink p fw =
     (if fw_written fw \<ge> FailAfter fw then ((0, Some ErrClosedPipe), fw)
      else
        (let allowed = FailAfter fw - fw_written fw
         in if allowed \<ge> int (length p)
            then (case sink p (fw_w fw) of
                    ((n, err), w) \<Rightarrow> ((n, err), fw\<lparr>fw_w := w, fw_written := fw_written fw + n\<rparr>))
            else (case sink (take (nat allowed) p) (fw_w fw) of
                    ((n, err), w) \<Rightarrow>
                      ((n, if err \<noteq> None then err else Some ErrClosedPipe),
                       fw\<lparr>fw_w := w, fw_written := fw_written fw + n\<rparr>))))"

text \<open>\<^verbatim>\<open>bytes.Buffer\<close>, which takes everything.\<close>

definition Buffer_Write :: "bytes io_write" where
  "Buffer_Write p buf = ((int (length p), None), buf @ p)"

section \<open>The contract of a writer\<close>

locale io_Writer =
  fixes sink :: "'s io_write" and data :: "'s \<Rightarrow> bytes"
  assumes count: "sink p s = ((n, err), s') \<Longrightarrow> 0 \<le> n \<and> n \<le> int (length p)"
    and appended: "sink p s = ((n, err), s') \<Longrightarrow> data s' = data s @ take (nat n) p"
    and short_write: "sink p s = ((n, err), s') \<Longrightarrow> n < int (length p) \<Longrightarrow> err \<noteq> None"
begin

lemma full_write: "sink p s = ((n, None), s') \<Longrightarrow> n = int (length p) \<and> data s' = data s @ p"
  using count [of p s n None s'] appended [of p s n None s'] short_write [of p s n None s'] by fastforce

lemma faulty_cases:
  assumes "FaultyWriter_Write sink p fw = ((n, err), fw')"
  shows "0 \<le> n \<and> n \<le> int (length p) \<and> data (fw_w fw') = data (fw_w fw) @ take (nat n) p \<and>
    (n < int (length p) \<longrightarrow> err \<noteq> None) \<and> FailAfter fw' = FailAfter fw \<and> fw_written fw' = fw_written fw + n \<and>
    (fw_written fw \<le> FailAfter fw \<longrightarrow> fw_written fw' \<le> FailAfter fw)"
proof (cases "fw_written fw \<ge> FailAfter fw")
  case True
  then show ?thesis
    using assms by (auto simp: FaultyWriter_Write_def)
next
  case False
  define q where "q = (if FailAfter fw - fw_written fw \<ge> int (length p) then p else take (nat (FailAfter fw - fw_written fw)) p)"
  obtain m x w where w: "sink q (fw_w fw) = ((m, x), w)"
    by (metis surj_pair)
  have "n = m" "fw' = fw\<lparr>fw_w := w, fw_written := fw_written fw + m\<rparr>" "x \<noteq> None \<longrightarrow> err \<noteq> None"
    "q \<noteq> p \<longrightarrow> err \<noteq> None" "q = p \<longrightarrow> err = x"
    using assms False w by (auto simp: FaultyWriter_Write_def q_def Let_def split: if_splits)
  moreover have "take (nat m) q = take (nat m) p" "int (length q) \<le> int (length p)" "int (length q) \<le> FailAfter fw - fw_written fw"
    using count [OF w] False by (auto simp: q_def min_def split: if_splits)
  ultimately show ?thesis
    using count [OF w] appended [OF w] short_write [OF w] by auto
qed

text \<open>A faulty writer is a writer, also over another faulty writer.\<close>

lemma faulty_io_Writer: "io_Writer (FaultyWriter_Write sink) (\<lambda>fw. data (fw_w fw))"
  by unfold_locales (use faulty_cases in blast)+

end

interpretation buffer: io_Writer Buffer_Write "\<lambda>buf. buf"
  by unfold_locales (auto simp: Buffer_Write_def)

interpretation torn: io_Writer "FaultyWriter_Write Buffer_Write" fw_w
  using buffer.faulty_io_Writer .

section \<open>Torn writes\<close>

text \<open>A sequence of writes that goes on after errors, as a test does.\<close>

fun write_all :: "'s io_write \<Rightarrow> bytes list \<Rightarrow> 's \<Rightarrow> 's" where
  "write_all sink [] s = s"
| "write_all sink (p # ps) s = write_all sink ps (snd (sink p s))"

text \<open>The faulty writer over a buffer that holds what went through so far.\<close>

definition torn_at :: "bytes \<Rightarrow> bytes FaultyWriter \<Rightarrow> bool" where
  "torn_at d fw \<longleftrightarrow> fw_w fw = take (nat (FailAfter fw)) d \<and> fw_written fw = int (length (fw_w fw))"

lemma torn_at_step:
  assumes "torn_at d fw"
  shows "torn_at (d @ p) (snd (FaultyWriter_Write Buffer_Write p fw)) \<and>
    FailAfter (snd (FaultyWriter_Write Buffer_Write p fw)) = FailAfter fw"
proof -
  have w: "fw_w fw = take (nat (FailAfter fw)) d" "fw_written fw = int (length (fw_w fw))"
    using assms by (simp_all add: torn_at_def)
  show ?thesis
  proof (cases "FailAfter fw \<le> fw_written fw")
    case True
    then have "nat (FailAfter fw) \<le> length d"
      using w by simp
    then show ?thesis
      using True w by (simp add: torn_at_def FaultyWriter_Write_def)
  next
    case False
    then have d: "fw_w fw = d" "length d \<le> nat (FailAfter fw)"
      using w by (auto simp: min_def split: if_splits)
    define k where "k = nat (FailAfter fw) - length d"
    have k: "nat (FailAfter fw - int (length d)) = k" "int (length p) \<le> FailAfter fw - int (length d) \<longleftrightarrow> length p \<le> k"
      using False w(2) d by (auto simp: k_def)
    show ?thesis
      using False w(2) d k by (auto simp: torn_at_def FaultyWriter_Write_def Buffer_Write_def Let_def k_def)
  qed
qed

lemma torn_at_all:
  "torn_at d fw \<Longrightarrow> torn_at (d @ concat ps) (write_all (FaultyWriter_Write Buffer_Write) ps fw) \<and>
     FailAfter (write_all (FaultyWriter_Write Buffer_Write) ps fw) = FailAfter fw"
proof (induction ps arbitrary: d fw)
  case (Cons p ps)
  then show ?case
    using Cons.IH [OF conjunct1 [OF torn_at_step [OF Cons.prems, of p]]] torn_at_step [OF Cons.prems, of p]
    by (metis append.assoc concat.simps(2) write_all.simps(2))
qed simp

text \<open>Whatever is written in whatever pieces, the first \<^verbatim>\<open>FailAfter\<close> bytes get through and no other.\<close>

theorem faulty_writer_tears:
  "fw_w (write_all (FaultyWriter_Write Buffer_Write) ps (NewFaultyWriter [] n)) = take (nat n) (concat ps)"
  using torn_at_all [of "[]" "NewFaultyWriter [] n" ps] by (simp add: torn_at_def NewFaultyWriter_def)

end
