(* ===== verification/Spec2Isabelle.thy ===== *)
theory Spec2Isabelle
  imports Db_Failures Hcdb_Main Server_Lifecycle Fault_Injection
begin

text \<open>
  Verification of HCDB, a log-structured key-value database written in Go that speaks the Redis protocol.

  \<^bold>\<open>The program.\<close> A write is appended to the write-ahead log (\<^verbatim>\<open>wal\<close>) and inserted into the memtable (\<^verbatim>\<open>memtable\<close>, an
  ordered tree). When the memtable is full it is flushed to a sorted table file (\<^verbatim>\<open>sstable\<close>, with a Bloom
  filter from \<^verbatim>\<open>bloomfilter\<close>), the log is emptied, and \<^verbatim>\<open>compaction\<close> may merge tables of similar size. Every write
  is a new version under an internal key (\<^verbatim>\<open>internal/base\<close>); a read looks for the newest version at or below
  a sequence number, in the memtable first and then in the tables, whose blocks pass through a sharded
  LRU cache (\<^verbatim>\<open>cache\<close>). Pinned snapshots are counted in a watermark that compaction respects. \<^verbatim>\<open>db\<close> puts this
  together and merges all sources for range scans; \<^verbatim>\<open>server\<close> and \<^verbatim>\<open>resp\<close> serve it over TCP; \<^verbatim>\<open>cmd/hcdb-server\<close> is the
  process; \<^verbatim>\<open>faultinjection\<close> is the faulty writer of the tests.

  \<^bold>\<open>The environment.\<close>
  \<^item> \<^verbatim>\<open>Go_Prelude\<close>, \<^verbatim>\<open>Go_Strconv\<close>, \<^verbatim>\<open>Go_Hash\<close>, \<^verbatim>\<open>Go_Heap\<close>: what the source uses of Go and its library. Machine integers are
    words, byte slices and strings are lists of bytes; CRC-32 and FNV-1a, decimal printing and the
    sift loops of \<^verbatim>\<open>container/heap\<close> are written out.
  \<^item> \<^verbatim>\<open>Go_IO\<close>, \<^verbatim>\<open>Buffered_Output\<close>: a \<open>world\<close> holds files with their contents and how much of them is durable, a clock and a
    list of faults. Each system call consumes one fault, which makes it fail after some bytes. \<^verbatim>\<open>bufio.Writer\<close> is
    exact, with its 4096-byte buffer and its sticky error.
  \<^item> The ordered tree \<^verbatim>\<open>github.com/google/btree\<close> is not part of the sources. It is the record argument \<open>bt\<close>, and its
    documented behaviour is the locale \<open>google_btree\<close>, which a red-black tree satisfies (\<open>rbt_btree\<close>).

  \<^bold>\<open>The components and what is shown.\<close>
  \<^item> \<^verbatim>\<open>Internal_Key\<close> (\<^verbatim>\<open>internal/base/internal.go\<close>): trailers, encoding, comparison. Round trip, order, where a search key
    stands among the versions of a key. \<^verbatim>\<open>Watermark\<close> (\<^verbatim>\<open>watermark.go\<close>): the floor never passes a pinned snapshot.
  \<^item> \<^verbatim>\<open>Wal\<close>, \<^verbatim>\<open>Wal_Durability\<close> (\<^verbatim>\<open>wal\<close>): replay of a torn or damaged log returns a prefix of what was written and repairs the
    file; under every schedule of faults the log replays to a prefix; synced writes survive.
  \<^item> \<^verbatim>\<open>Bloom_Filter\<close>: no false negatives, also after storing and loading. \<^verbatim>\<open>Lru_Cache\<close>: the linked list with its
    hash map refines a recency list, and the shards stay within their capacity.
  \<^item> \<^verbatim>\<open>Mvcc_Spec\<close> is the specification of multi-version reads. \<^verbatim>\<open>Memtable\<close>, \<^verbatim>\<open>Sstable_Format\<close>, \<^verbatim>\<open>Sstable_Writer\<close>, \<^verbatim>\<open>Sstable_Reader\<close>, \<^verbatim>\<open>Compaction\<close>
    and \<^verbatim>\<open>Sstable_Cache\<close> show that memtable and tables implement it: encodings round-trip, both writers
    produce the same file and install it atomically, lookups and iterators return exactly the visible
    versions, the binary search is a linear search, and merging neighbouring tables keeps what live
    snapshots read. Merging tables that are not neighbours does not (\<open>Compact_stale_read\<close>).
  \<^item> \<^verbatim>\<open>Database\<close> models \<^verbatim>\<open>db\<close>. \<^verbatim>\<open>Db_Refinement\<close> has the invariant \<open>db_inv\<close> that ties tables, memtable, log, cache and pins to one
    history, and that operations keep it; \<^verbatim>\<open>Db_Recovery\<close> has crashes and opening; \<^verbatim>\<open>Db_Properties\<close> and \<^verbatim>\<open>Db_Failures\<close> state
    what a client sees: a map with snapshots, isolation, what a crash or a clean close loses, and failures.
  \<^item> \<^verbatim>\<open>Merge_Iterator\<close>, \<^verbatim>\<open>Scan_Correct\<close> (\<^verbatim>\<open>db/iterator.go\<close>): a scan lists the map in a range, and every scan ends.
  \<^item> \<^verbatim>\<open>Resp\<close> (\<^verbatim>\<open>resp\<close>): parser and printer are inverse, a cut value is never accepted, and parsed values are well formed.
    \<^verbatim>\<open>Server\<close>, \<^verbatim>\<open>Server_Correct\<close> (\<^verbatim>\<open>server\<close>): commands run as on a map, a connection answers in order. \<^verbatim>\<open>Server_Lifecycle\<close>: the accept
    loop, the registry, the wait group and shutdown as a step relation over all interleavings, with the
    server's own steps apart from those of its peers, so that shutdown is shown to end without them.
  \<^item> \<^verbatim>\<open>Hcdb_Main\<close> (\<^verbatim>\<open>cmd/hcdb-server\<close>): the configured paths meet the assumptions of the database; how the process ends.
    \<^verbatim>\<open>Fault_Injection\<close>: the faulty writer keeps the contract of a writer and tears at its limit.

  \<^bold>\<open>Bounds and hypotheses.\<close> Histories are shorter than \<open>2 ^ 30\<close> writes, which keeps sequence numbers and table
  sizes within their fields; no fuel is used, since every loop of the source is shown to terminate.
  Runs of the database are those whose compactions merge tables that are neighbours in age
  (\<open>write_adjacent\<close>, \<open>flush_adjacent\<close>), which always holds below the compaction threshold. Recovery assumes that
  the names of the tables are ordered as their ages are (\<open>names_newest_first\<close>) and that two ticks of the
  clock differ. The theorems on commands and connections cover the flushes and compactions that the commands
  cause, under the same condition on each write (\<open>cmd_adjacent\<close>, \<open>session_adjacent\<close>). They, and those on the database except where
  a schedule of faults is named, assume storage without faults. The data directory is used by one process.

  \<^bold>\<open>What the file system keeps.\<close> A crash keeps of each file its durable bytes and any part of the rest; a rename, a
  removal and a truncation are durable at once. So syncing the directory in \<^verbatim>\<open>atomicInstall\<close> has no effect
  beyond its possible failure, and the \<^verbatim>\<open>Seek(0, 0)\<close> of \<^verbatim>\<open>resetWAL\<close> and \<^verbatim>\<open>Replay\<close> cannot fail. \<^verbatim>\<open>sort.Slice\<close> is a stable
  sort here, which is the same function on the distinct keys that occur.

  \<^bold>\<open>Not modelled.\<close> Locks are not modelled: an operation of the database is one step, as under \<^verbatim>\<open>db.mu\<close>. The places
  where the source does more than one step without the lock (pinning a snapshot, iterating while a
  compaction removes files, the two calls of \<^verbatim>\<open>DEL\<close>) are outside the theorems. Reads of files do not fail
  except by what the files contain. Running out of memory is not modelled, apart from allocations
  beyond the limit of the runtime in the parser. The sizing of a Bloom filter uses real numbers for
  \<^verbatim>\<open>float64\<close>. Log lines, signals and the network below a stream of bytes are left out, as are the
  documentation and the build and deployment files.
\<close>

end
